theory Spec2Isabelle
  imports Complex_Main "HOL-Library.Word"
begin

section \<open>Machine types and little-endian decoding\<close>

text \<open>
  The inspector of \<^verbatim>\<open>src/src/graph_stats.cpp\<close> is compiled for an LP64 target:
  \<^verbatim>\<open>size_t\<close> and \<^verbatim>\<open>uint64_t\<close> are 64-bit words, \<^verbatim>\<open>unsigned\<close> and
  \<^verbatim>\<open>uint32_t\<close> are 32-bit words, and all arithmetic on them wraps around.
  A file is the list of its bytes.
\<close>

type_synonym byte = "8 word"
type_synonym u32 = "32 word"
type_synonym u64 = "64 word"

text \<open>
  \<^verbatim>\<open>in.read(reinterpret_cast<char *>(&x), sizeof x)\<close> on a little-endian machine:
  the first byte read is the least significant one.
\<close>

fun le_word :: "byte list \<Rightarrow> 'a::len word" where
  "le_word [] = 0"
| "le_word (b # bs) = ucast b + 256 * le_word bs"

section \<open>GraphStats (include/graph\_stats.h)\<close>

text \<open>
  The field \<^verbatim>\<open>degree_avg\<close> is a \<^verbatim>\<open>double\<close> in the source, obtained by one division
  of two converted counters. A finite \<^verbatim>\<open>double\<close> is a rational number, and the field
  holds the rational that the \<^verbatim>\<open>double\<close> denotes; the conversions and the division
  round as IEEE 754 binary64 arithmetic does (section ``Double arithmetic'' below).
\<close>

record GraphStats =
  total_nodes :: u64
  active_nodes :: u64
  frozen_nodes :: u64
  total_edges :: u64
  degree_min :: u64
  degree_avg :: rat
  degree_max :: u64
  weak_count :: u64
  entry_point :: u32

text \<open>The value of \<^verbatim>\<open>GraphStats s;\<close>: every member has the initialiser zero.\<close>

definition GraphStats_default :: GraphStats where
  "GraphStats_default =
     \<lparr>total_nodes = 0, active_nodes = 0, frozen_nodes = 0, total_edges = 0,
      degree_min = 0, degree_avg = 0, degree_max = 0, weak_count = 0, entry_point = 0\<rparr>"

section \<open>The degree accumulators\<close>

text \<open>
  Every statistics routine keeps the same four local variables
  \<^verbatim>\<open>total_edges\<close>, \<^verbatim>\<open>degree_min\<close>, \<^verbatim>\<open>degree_max\<close>, \<^verbatim>\<open>weak_count\<close> and updates them
  with the same five statements for each degree. \<open>size_t_max\<close> is
  \<^verbatim>\<open>std::numeric_limits<size_t>::max()\<close>.
\<close>

record accum =
  acc_total_edges :: u64
  acc_degree_min :: u64
  acc_degree_max :: u64
  acc_weak_count :: u64

definition size_t_max :: u64 where
  "size_t_max = - 1"

definition accum_init :: accum where
  "accum_init =
     \<lparr>acc_total_edges = 0, acc_degree_min = size_t_max, acc_degree_max = 0, acc_weak_count = 0\<rparr>"

definition accum_add :: "u64 \<Rightarrow> u64 \<Rightarrow> accum \<Rightarrow> accum" where
  "accum_add weak_threshold deg a =
     \<lparr>acc_total_edges = acc_total_edges a + deg,
      acc_degree_min = (if deg < acc_degree_min a then deg else acc_degree_min a),
      acc_degree_max = (if deg > acc_degree_max a then deg else acc_degree_max a),
      acc_weak_count = (if deg < weak_threshold then acc_weak_count a + 1 else acc_weak_count a)\<rparr>"

text \<open>
  \<^verbatim>\<open>(degree_min == std::numeric_limits<size_t>::max()) ? 0 : degree_min\<close>
\<close>

definition final_degree_min :: "accum \<Rightarrow> u64" where
  "final_degree_min a = (if acc_degree_min a = size_t_max then 0 else acc_degree_min a)"

section \<open>Double arithmetic\<close>

text \<open>
  A binary64 number has a significand of 53 bits: a positive number in the binade
  \<open>[2^e, 2^(e+1))\<close> is \<open>m * 2^(e - 52)\<close> with \<open>2^52 \<le> m < 2^53\<close>. An operation returns
  the representable number nearest to its exact result, and of two equally near ones
  the one whose \<open>m\<close> is even. Only conversions of 64-bit counters and quotients of two
  such conversions with a nonzero divisor occur in the inspector; their results lie
  in \<open>[2^-64, 2^64]\<close> or are zero, so that no overflow, underflow, infinity or NaN arises.

  \<open>ilog2 n\<close> is the position of the highest set bit of \<open>n\<close>, and \<open>round_div a b\<close> is
  the integer nearest to \<open>a / b\<close>, the even one of two equally near.
\<close>

fun ilog2 :: "nat \<Rightarrow> nat" where
  "ilog2 n = (if n < 2 then 0 else Suc (ilog2 (n div 2)))"

definition round_div :: "nat \<Rightarrow> nat \<Rightarrow> nat" where
  "round_div a b =
     (let q = a div b; r = a mod b
      in if 2 * r < b then q
         else if b < 2 * r then q + 1
         else if even q then q else q + 1)"

text \<open>
  \<^verbatim>\<open>static_cast<double>(n)\<close> for a 64-bit counter \<open>n\<close>: the value of the resulting
  \<^verbatim>\<open>double\<close>, which is an integer. Counters below \<open>2^53\<close> are converted exactly.
\<close>

definition to_double :: "nat \<Rightarrow> nat" where
  "to_double n =
     (if n < 2 ^ 53 then n
      else let u = 2 ^ (ilog2 n - 52) in u * round_div n u)"

text \<open>
  The binade of the exact quotient \<open>a / b\<close> of two positive integers:
  the \<open>e\<close> with \<open>2^e \<le> a / b < 2^(e+1)\<close>.
\<close>

definition quotient_exponent :: "nat \<Rightarrow> nat \<Rightarrow> int" where
  "quotient_exponent a b =
     (let d = int (ilog2 a) - int (ilog2 b)
      in if b * 2 ^ nat d \<le> a * 2 ^ nat (- d) then d else d - 1)"

text \<open>
  \<^verbatim>\<open>x / y\<close> for two \<^verbatim>\<open>double\<close>s with the integer values \<open>a\<close> and \<open>b > 0\<close>: the exact
  quotient is scaled to its 53-bit significand, rounded and scaled back.
\<close>

definition double_div :: "nat \<Rightarrow> nat \<Rightarrow> rat" where
  "double_div a b =
     (if a = 0 then 0
      else let e = quotient_exponent a b
           in if e \<le> 52
              then of_nat (round_div (a * 2 ^ nat (52 - e)) b) / 2 ^ nat (52 - e)
              else of_nat (round_div a (b * 2 ^ nat (e - 52))) * 2 ^ nat (e - 52))"

text \<open>
  \<^verbatim>\<open>static_cast<double>(total_edges) / static_cast<double>(n)\<close>
\<close>

definition avg_of :: "u64 \<Rightarrow> u64 \<Rightarrow> rat" where
  "avg_of edges n = double_div (to_double (unat edges)) (to_double (unat n))"

section \<open>compute\_graph\_stats: statistics of an adjacency list in memory\<close>

text \<open>
  \<^verbatim>\<open>graph[i]\<close> on a \<^verbatim>\<open>std::vector\<close> has undefined behaviour when \<^verbatim>\<open>i\<close> is not below
  \<^verbatim>\<open>graph.size()\<close>; the model returns \<open>OutOfRange\<close> there. A second kind of failure
  belongs to the paged reader below: a \<^verbatim>\<open>memcpy\<close> whose source range leaves the page
  buffer. The other two are the exceptions \<^verbatim>\<open>std::length_error\<close> and
  \<^verbatim>\<open>std::bad_alloc\<close> of the vectors that the two samplers build.
\<close>

datatype error = OutOfRange | BufferOverrun | LengthError | BadAlloc

text \<open>
  The loop \<^verbatim>\<open>for (size_t i = 0; i < s.total_nodes; i++)\<close>. Its state is the four
  accumulators; the list of indices used so far is carried along as an observation of
  the accesses and influences nothing.
\<close>

function graph_loop ::
  "u32 list list \<Rightarrow> u64 \<Rightarrow> u64 \<Rightarrow> u64 \<Rightarrow> accum \<times> nat list \<Rightarrow> error + accum \<times> nat list" where
  "graph_loop graph tot weak_threshold i (a, used) =
     (if i < tot then
        (if unat i < length graph then
           graph_loop graph tot weak_threshold (i + 1)
             (accum_add weak_threshold (of_nat (length (graph ! unat i))) a, used @ [unat i])
         else Inl OutOfRange)
      else Inr (a, used))"
  by pat_completeness auto
termination
proof (relation "measure (\<lambda>(graph, tot, weak_threshold, i, st). unat tot - unat i)")
  show "wf (measure (\<lambda>(graph, tot, weak_threshold, i, st). unat tot - unat i))"
    by simp
next
  fix graph :: "u32 list list" and tot weak_threshold i :: u64 and a :: accum
    and used :: "nat list"
  assume lt: "i < tot"
  then have "unat (i + 1) = Suc (unat i)"
    by unat_arith
  moreover from lt have "unat i < unat tot"
    by (simp add: word_less_nat_alt)
  ultimately show
    "((graph, tot, weak_threshold, i + 1,
        accum_add weak_threshold (of_nat (length (graph ! unat i))) a, used @ [unat i]),
      (graph, tot, weak_threshold, i, a, used))
     \<in> measure (\<lambda>(graph, tot, weak_threshold, i, st). unat tot - unat i)"
    by simp
qed

definition graph_scan ::
  "u32 list list \<Rightarrow> u64 \<Rightarrow> u64 \<Rightarrow> u32 \<Rightarrow> error + accum \<times> nat list" where
  "graph_scan graph nd num_frozen_pts weak_threshold =
     graph_loop graph (nd + num_frozen_pts) (ucast weak_threshold) 0 (accum_init, [])"

text \<open>
  The body of \<^verbatim>\<open>compute_graph_stats\<close>. Beside the statistics it returns the indices
  at which the call has read \<^verbatim>\<open>graph\<close>, in the order of use; \<open>compute_graph_stats\<close>
  is its first component.
\<close>

definition compute_graph_stats_traced ::
  "u32 list list \<Rightarrow> u64 \<Rightarrow> u64 \<Rightarrow> u32 \<Rightarrow> u32 \<Rightarrow> error + GraphStats \<times> nat list" where
  "compute_graph_stats_traced graph nd num_frozen_pts ep weak_threshold =
     (let s = GraphStats_default\<lparr>total_nodes := nd + num_frozen_pts, active_nodes := nd,
                frozen_nodes := num_frozen_pts, entry_point := ep\<rparr>
      in if total_nodes s = 0 then Inr (s, [])
         else case graph_scan graph nd num_frozen_pts weak_threshold of
                Inl e \<Rightarrow> Inl e
              | Inr (a, used) \<Rightarrow>
                  Inr (s\<lparr>total_edges := acc_total_edges a,
                         degree_min := final_degree_min a,
                         degree_avg := avg_of (acc_total_edges a) (total_nodes s),
                         degree_max := acc_degree_max a,
                         weak_count := acc_weak_count a\<rparr>, used))"

definition compute_graph_stats ::
  "u32 list list \<Rightarrow> u64 \<Rightarrow> u64 \<Rightarrow> u32 \<Rightarrow> u32 \<Rightarrow> error + GraphStats" where
  "compute_graph_stats graph nd num_frozen_pts ep weak_threshold =
     (case compute_graph_stats_traced graph nd num_frozen_pts ep weak_threshold of
        Inl e \<Rightarrow> Inl e
      | Inr (s, used) \<Rightarrow> Inr s)"

section \<open>The input stream\<close>

text \<open>
  A \<^verbatim>\<open>std::ifstream\<close> opened in binary mode on a regular file: the bytes of the file,
  the read position, and whether the stream is still \<^verbatim>\<open>good()\<close>. The only failures
  modelled are the ones the file's length causes. Once a stream is not good, reads and
  seeks do nothing until \<^verbatim>\<open>clear()\<close>.
\<close>

record ifstream =
  content :: "byte list"
  pos :: nat
  good :: bool

definition open_stream :: "byte list \<Rightarrow> ifstream" where
  "open_stream bytes = \<lparr>content = bytes, pos = 0, good = True\<rparr>"

text \<open>
  \<^verbatim>\<open>in.read(buf, n)\<close>: all \<open>n\<close> bytes, or the bytes that are left together with
  the loss of \<^verbatim>\<open>good()\<close>.
\<close>

definition read_bytes :: "nat \<Rightarrow> ifstream \<Rightarrow> byte list \<times> ifstream" where
  "read_bytes n s =
     (if \<not> good s then ([], s)
      else if pos s + n \<le> length (content s)
        then (take n (drop (pos s) (content s)), s\<lparr>pos := pos s + n\<rparr>)
        else (drop (pos s) (content s), s\<lparr>pos := max (pos s) (length (content s)), good := False\<rparr>))"

definition read_u32 :: "ifstream \<Rightarrow> u32 \<times> ifstream" where
  "read_u32 s = (let (bs, s') = read_bytes 4 s in (le_word bs, s'))"

definition read_u64 :: "ifstream \<Rightarrow> u64 \<times> ifstream" where
  "read_u64 s = (let (bs, s') = read_bytes 8 s in (le_word bs, s'))"

text \<open>
  \<^verbatim>\<open>in.seekg(off, in.beg)\<close> and \<^verbatim>\<open>in.seekg(off, std::ios::cur)\<close>. The offset arrives as
  a \<^verbatim>\<open>size_t\<close> and is converted to the signed \<^verbatim>\<open>std::streamoff\<close>; a negative target
  fails. As with \<^verbatim>\<open>lseek\<close>, a target beyond the end of the file is accepted: the
  read that follows is the one that fails.
\<close>

definition seekg_beg :: "u64 \<Rightarrow> ifstream \<Rightarrow> ifstream" where
  "seekg_beg off s =
     (if \<not> good s then s
      else if sint off < 0 then s\<lparr>good := False\<rparr>
      else s\<lparr>pos := unat off\<rparr>)"

definition seekg_cur :: "u64 \<Rightarrow> ifstream \<Rightarrow> ifstream" where
  "seekg_cur off s =
     (if \<not> good s then s
      else if int (pos s) + sint off < 0 then s\<lparr>good := False\<rparr>
      else s\<lparr>pos := nat (int (pos s) + sint off)\<rparr>)"

definition clear :: "ifstream \<Rightarrow> ifstream" where
  "clear s = s\<lparr>good := True\<rparr>"

section \<open>compute\_graph\_stats\_from\_file: the sequential scanner\<close>

text \<open>
  The locals of the scan loop (lines 88 to 115): the stream, \<^verbatim>\<open>bytes_read\<close>, the four
  accumulators and \<^verbatim>\<open>nodes\<close>.
\<close>

record scan_state =
  scan_in :: ifstream
  bytes_read :: u64
  scan_acc :: accum
  nodes :: u64

text \<open>
  The body of the loop (lines 97 to 114). The flag returned with the new state is
  \<open>False\<close> where the source leaves the loop by \<^verbatim>\<open>break\<close>. The threshold
  \<^verbatim>\<open>weak_threshold\<close> is the constant 2; the seek distance \<^verbatim>\<open>k * sizeof(uint32_t)\<close> is
  computed in \<^verbatim>\<open>size_t\<close>.
\<close>

definition scan_body :: "scan_state \<Rightarrow> bool \<times> scan_state" where
  "scan_body st =
     (let (k, in1) = read_u32 (scan_in st) in
      if \<not> good in1 then (False, st\<lparr>scan_in := in1\<rparr>)
      else
        let st1 = st\<lparr>scan_in := in1, scan_acc := accum_add 2 (ucast k) (scan_acc st),
                     nodes := nodes st + 1\<rparr>;
            in2 = seekg_cur (ucast k * 4) in1
        in if \<not> good in2 then (False, st1\<lparr>scan_in := in2\<rparr>)
           else (True, st1\<lparr>scan_in := in2, bytes_read := bytes_read st + (4 + ucast k * 4)\<rparr>))"

text \<open>
  \<^verbatim>\<open>while (bytes_read != expected_file_size && in.good())\<close>. The loop condition is an
  inequality test, so that the loop returns at all is a property to be proved: the
  function is partial, and \<open>None\<close> stands for a loop that does not return.
\<close>

partial_function (option) scan_loop :: "u64 \<Rightarrow> scan_state \<Rightarrow> scan_state option" where
  "scan_loop expected_file_size st =
     (if bytes_read st \<noteq> expected_file_size \<and> good (scan_in st) then
        (case scan_body st of
           (continue, st') \<Rightarrow> if continue then scan_loop expected_file_size st' else Some st')
      else Some st)"

text \<open>
  The function itself. Its first argument is what opening \<^verbatim>\<open>path\<close> gives: the
  bytes of the file, or \<open>None\<close> when \<^verbatim>\<open>is_open()\<close> is false.
\<close>

definition compute_graph_stats_from_file :: "byte list option \<Rightarrow> u64 \<Rightarrow> GraphStats option" where
  "compute_graph_stats_from_file file offset =
     (case file of
        None \<Rightarrow> Some GraphStats_default
      | Some bytes \<Rightarrow>
          let in0 = seekg_beg offset (open_stream bytes) in
          if \<not> good in0 then Some GraphStats_default
          else
            let (expected_file_size, in1) = read_u64 in0;
                (width, in2) = read_u32 in1;
                (ep, in3) = read_u32 in2;
                (num_frozen_pts, in4) = read_u64 in3
            in if \<not> good in4 then Some GraphStats_default
               else
                 (case scan_loop expected_file_size
                        \<lparr>scan_in = in4, bytes_read = 24, scan_acc = accum_init, nodes = 0\<rparr> of
                   None \<Rightarrow> None
                 | Some st \<Rightarrow>
                     Some \<lparr>total_nodes = nodes st,
                           active_nodes = (if nodes st \<ge> num_frozen_pts
                                           then nodes st - num_frozen_pts else 0),
                           frozen_nodes = num_frozen_pts,
                           total_edges = acc_total_edges (scan_acc st),
                           degree_min = final_degree_min (scan_acc st),
                           degree_avg = (if nodes st > 0
                                         then avg_of (acc_total_edges (scan_acc st)) (nodes st)
                                         else 0),
                           degree_max = acc_degree_max (scan_acc st),
                           weak_count = acc_weak_count (scan_acc st),
                           entry_point = ep\<rparr>))"

section \<open>What the sequential scanner is specified to compute\<close>

text \<open>
  The statistics of a list of degrees as the data model defines them, with the default
  threshold 2 of the file-based paths: the reference against which the scanners are
  compared.
\<close>

definition stats_of_degrees :: "u32 list \<Rightarrow> u64 \<Rightarrow> u64 \<Rightarrow> u64 \<Rightarrow> u32 \<Rightarrow> GraphStats" where
  "stats_of_degrees ds n active frozen ep =
     \<lparr>total_nodes = n,
      active_nodes = active,
      frozen_nodes = frozen,
      total_edges = sum_list (map ucast ds),
      degree_min = (if ds = [] then 0 else ucast (Min (set ds))),
      degree_avg = (if n > 0 then avg_of (sum_list (map ucast ds)) n else 0),
      degree_max = (if ds = [] then 0 else ucast (Max (set ds))),
      weak_count = of_nat (length (filter (\<lambda>d. d < 2) ds)),
      entry_point = ep\<rparr>"

text \<open>
  The body of a layout-A stream read as the specification words it: a record is a
  degree \<^verbatim>\<open>u32\<close> followed by that many neighbour ids of four bytes; records are taken
  until the running byte counter equals the expected size or a record cannot be read.
  \<open>complete_records\<close> takes a record only when all of its bytes are there;
  \<open>degree_fields\<close> takes it as soon as its four-byte degree field is there.
\<close>

function complete_records :: "u64 \<Rightarrow> u64 \<Rightarrow> byte list \<Rightarrow> u32 list" where
  "complete_records expected counter bs =
     (if counter = expected \<or> length bs < 4 then []
      else let k = le_word (take 4 bs) :: u32 in
        if length bs < 4 + 4 * unat k then []
        else k # complete_records expected (counter + (4 + ucast k * 4)) (drop (4 + 4 * unat k) bs))"
  by pat_completeness auto
termination
  by (relation "measure (\<lambda>(expected, counter, bs). length bs)") auto

function degree_fields :: "u64 \<Rightarrow> u64 \<Rightarrow> byte list \<Rightarrow> u32 list" where
  "degree_fields expected counter bs =
     (if counter = expected \<or> length bs < 4 then []
      else let k = le_word (take 4 bs) :: u32 in
        k # degree_fields expected (counter + (4 + ucast k * 4)) (drop (4 + 4 * unat k) bs))"
  by pat_completeness auto
termination
  by (relation "measure (\<lambda>(expected, counter, bs). length bs)") auto

text \<open>
  A record given by its bytes: the four bytes of the degree field and the bytes of the
  neighbour ids. It is well formed when the second part has four bytes for each
  neighbour the first part announces.
\<close>

type_synonym record_bytes = "byte list \<times> byte list"

definition record_degree :: "record_bytes \<Rightarrow> u32" where
  "record_degree r = le_word (fst r)"

definition record_ok :: "record_bytes \<Rightarrow> bool" where
  "record_ok r \<longleftrightarrow> length (fst r) = 4 \<and> length (snd r) = 4 * unat (record_degree r)"

definition record_stream :: "record_bytes list \<Rightarrow> byte list" where
  "record_stream rs = concat (map (\<lambda>r. fst r @ snd r) rs)"

definition stream_size :: "record_bytes list \<Rightarrow> nat" where
  "stream_size rs = 24 + (\<Sum>r\<leftarrow>rs. 4 + 4 * unat (record_degree r))"

text \<open>The fields of the 24-byte header that starts at byte \<open>off\<close>, and the body after it.\<close>

definition header_expected_total_size :: "byte list \<Rightarrow> nat \<Rightarrow> u64" where
  "header_expected_total_size bytes off = le_word (take 8 (drop off bytes))"

definition header_entry_point :: "byte list \<Rightarrow> nat \<Rightarrow> u32" where
  "header_entry_point bytes off = le_word (take 4 (drop (off + 12) bytes))"

definition header_frozen_count :: "byte list \<Rightarrow> nat \<Rightarrow> u64" where
  "header_frozen_count bytes off = le_word (take 8 (drop (off + 16) bytes))"

definition graph_body :: "byte list \<Rightarrow> nat \<Rightarrow> byte list" where
  "graph_body bytes off = drop (off + 24) bytes"

declare degree_fields.simps [simp del] complete_records.simps [simp del]

text \<open>
  The statistics of the degree fields of the stream whose header starts at byte \<open>off\<close>.
  Active nodes are the scanned nodes beyond the frozen ones of the header.
\<close>

definition scanned_stats :: "byte list \<Rightarrow> nat \<Rightarrow> GraphStats" where
  "scanned_stats bytes off =
     (let ds = degree_fields (header_expected_total_size bytes off) 24 (graph_body bytes off);
          n = of_nat (length ds);
          frozen = header_frozen_count bytes off
      in stats_of_degrees ds n (if frozen \<le> n then n - frozen else 0) frozen
           (header_entry_point bytes off))"

section \<open>The disk-paged index\<close>

text \<open>
  \<^verbatim>\<open>enum class DiskIndexDataType\<close> and \<^verbatim>\<open>elem_size\<close>; the constants
  \<^verbatim>\<open>kSectorLen\<close> and \<^verbatim>\<open>kDiskIndexDataOffset\<close> are both 4096.
\<close>

datatype DiskIndexDataType = kFloat | kUint8 | kInt8

fun elem_size :: "DiskIndexDataType \<Rightarrow> u64" where
  "elem_size kFloat = 4"
| "elem_size kUint8 = 1"
| "elem_size kInt8 = 1"

definition kSectorLen :: nat where
  "kSectorLen = 4096"

definition kDiskIndexDataOffset :: u64 where
  "kDiskIndexDataOffset = 4096"

text \<open>
  The five locals \<^verbatim>\<open>disk_nnodes\<close>, \<^verbatim>\<open>disk_ndims\<close>, \<^verbatim>\<open>medoid_id_on_file\<close>,
  \<^verbatim>\<open>max_node_len\<close> and \<^verbatim>\<open>nnodes_per_sector\<close>, read by five consecutive reads.
\<close>

record disk_header =
  disk_nnodes :: u64
  disk_ndims :: u64
  medoid_id_on_file :: u64
  max_node_len :: u64
  nnodes_per_sector :: u64

definition read_geometry :: "ifstream \<Rightarrow> disk_header \<times> ifstream" where
  "read_geometry in0 =
     (let (nnodes, in1) = read_u64 in0;
          (ndims, in2) = read_u64 in1;
          (medoid, in3) = read_u64 in2;
          (max_len, in4) = read_u64 in3;
          (per_sector, in5) = read_u64 in4
      in (\<lparr>disk_nnodes = nnodes, disk_ndims = ndims, medoid_id_on_file = medoid,
           max_node_len = max_len, nnodes_per_sector = per_sector\<rparr>, in5))"

text \<open>
  The header block that opens each of the three disk-index routines (lines 285 to 305,
  and again in the two printing routines): two \<^verbatim>\<open>int32_t\<close> reads, then the geometry
  either right after them or, after \<^verbatim>\<open>clear()\<close> and a seek to the start, at offset 0.
  \<^verbatim>\<open>meta_npts >= 5\<close> is a signed comparison. The result is the geometry,
  \<^verbatim>\<open>data_offset\<close> and the stream.
\<close>

definition read_disk_header :: "ifstream \<Rightarrow> disk_header \<times> u64 \<times> ifstream" where
  "read_disk_header in0 =
     (let (meta_npts, in1) = read_u32 in0;
          (meta_ndims, in2) = read_u32 in1
      in if good in2 \<and> 5 \<le> sint meta_npts
         then (let (h, in3) = read_geometry in2 in (h, kDiskIndexDataOffset, in3))
         else (let (h, in3) = read_geometry (seekg_beg 0 (clear in2))
               in (h, kDiskIndexDataOffset, in3)))"

text \<open>
  \<^verbatim>\<open>memcpy(&nnbrs, sector.data() + off, sizeof(uint32_t))\<close>: four bytes of the page
  buffer at the (wrapped) 64-bit offset, or no value when the range leaves the buffer.
\<close>

definition memcpy_u32 :: "byte list \<Rightarrow> u64 \<Rightarrow> u32 option" where
  "memcpy_u32 sector off =
     (if unat off + 4 \<le> length sector then Some (le_word (take 4 (drop (unat off) sector)))
      else None)"

text \<open>
  The inner loop \<^verbatim>\<open>for (uint64_t j = 0; j < nnodes_per_sector; j++)\<close> of
  \<^verbatim>\<open>compute_graph_stats_from_disk_index\<close> (lines 341 to 356). Its state is the four
  accumulators; the node ids whose degree has been added are carried along as an
  observation and influence nothing.
\<close>

function sector_loop ::
  "byte list \<Rightarrow> disk_header \<Rightarrow> u64 \<Rightarrow> u64 \<Rightarrow> u64 \<Rightarrow> accum \<times> u64 list
     \<Rightarrow> error + accum \<times> u64 list" where
  "sector_loop sector h esz sec j (a, seen) =
     (if j < nnodes_per_sector h then
        (let node_id = sec * nnodes_per_sector h + j in
         if node_id \<ge> disk_nnodes h then Inr (a, seen)
         else
           let offset_in_sector = j * max_node_len h in
           if offset_in_sector + disk_ndims h * esz + 4 > 4096 then Inr (a, seen)
           else
             (case memcpy_u32 sector (offset_in_sector + disk_ndims h * esz) of
                None \<Rightarrow> Inl BufferOverrun
              | Some nnbrs \<Rightarrow>
                  sector_loop sector h esz sec (j + 1)
                    (accum_add 2 (ucast nnbrs) a, seen @ [node_id])))
      else Inr (a, seen))"
  by pat_completeness auto
termination
proof (relation "measure (\<lambda>(sector, h, esz, sec, j, st). unat (nnodes_per_sector h) - unat j)")
  show "wf (measure (\<lambda>(sector, h, esz, sec, j, st). unat (nnodes_per_sector h) - unat j))"
    by simp
next
  fix sector :: "byte list" and h :: disk_header and esz sec j :: u64 and a :: accum
    and seen :: "u64 list" and node_id offset_in_sector :: u64 and nnbrs :: u32
  assume lt: "j < nnodes_per_sector h"
  then have "unat (j + 1) = Suc (unat j)"
    by unat_arith
  moreover from lt have "unat j < unat (nnodes_per_sector h)"
    by (simp add: word_less_nat_alt)
  ultimately show
    "((sector, h, esz, sec, j + 1, accum_add 2 (ucast nnbrs) a, seen @ [node_id]),
      (sector, h, esz, sec, j, a, seen))
     \<in> measure (\<lambda>(sector, h, esz, sec, j, st). unat (nnodes_per_sector h) - unat j)"
    by simp
qed

text \<open>
  The outer loop \<^verbatim>\<open>for (uint64_t sec = 0; sec < n_sectors && in.good(); sec++)\<close>
  (lines 336 to 357). Beside the stream and the accumulators the state carries the
  observation of the inner loop and the number of pages read.
\<close>

function page_loop ::
  "disk_header \<Rightarrow> u64 \<Rightarrow> u64 \<Rightarrow> u64 \<Rightarrow> ifstream \<times> accum \<times> u64 list \<times> nat
     \<Rightarrow> error + ifstream \<times> accum \<times> u64 list \<times> nat" where
  "page_loop h esz n_sectors sec (ins, a, seen, pages) =
     (if sec < n_sectors \<and> good ins then
        (let (sector, in1) = read_bytes kSectorLen ins in
         if \<not> good in1 then Inr (in1, a, seen, pages)
         else
           (case sector_loop sector h esz sec 0 (a, seen) of
              Inl e \<Rightarrow> Inl e
            | Inr (a', seen') \<Rightarrow>
                page_loop h esz n_sectors (sec + 1) (in1, a', seen', pages + 1)))
      else Inr (ins, a, seen, pages))"
  by pat_completeness auto
termination
proof (relation "measure (\<lambda>(h, esz, n_sectors, sec, st). unat n_sectors - unat sec)")
  show "wf (measure (\<lambda>(h, esz, n_sectors, sec, st). unat n_sectors - unat sec))"
    by simp
next
  fix h :: disk_header and esz n_sectors sec :: u64 and ins in1 :: ifstream and a a' :: accum
    and seen seen' :: "u64 list" and pages :: nat
  assume "sec < n_sectors \<and> good ins"
  then have lt: "sec < n_sectors" by simp
  then have "unat (sec + 1) = Suc (unat sec)"
    by unat_arith
  moreover from lt have "unat sec < unat n_sectors"
    by (simp add: word_less_nat_alt)
  ultimately show
    "((h, esz, n_sectors, sec + 1, in1, a', seen', pages + 1),
      (h, esz, n_sectors, sec, ins, a, seen, pages))
     \<in> measure (\<lambda>(h, esz, n_sectors, sec, st). unat n_sectors - unat sec)"
    by simp
qed

text \<open>
  \<^verbatim>\<open>compute_graph_stats_from_disk_index\<close>, returning with the statistics the node ids
  visited and the number of pages read. The first argument is what opening \<^verbatim>\<open>path\<close>
  gives. \<^verbatim>\<open>static_cast<unsigned>(medoid_id_on_file)\<close> keeps the low 32 bits.
\<close>

definition disk_index_scan ::
  "byte list option \<Rightarrow> DiskIndexDataType \<Rightarrow> error + GraphStats \<times> u64 list \<times> nat" where
  "disk_index_scan file data_type =
     (case file of
        None \<Rightarrow> Inr (GraphStats_default, [], 0)
      | Some bytes \<Rightarrow>
          (let (h, data_offset, in1) = read_disk_header (open_stream bytes) in
           if \<not> good in1 then Inr (GraphStats_default, [], 0)
           else
             let esz = elem_size data_type;
                 data_dim = disk_ndims h
             in if max_node_len h < data_dim * esz + 4 \<or> max_node_len h > 4096
                then Inr (GraphStats_default, [], 0)
                else
                  let s = GraphStats_default\<lparr>total_nodes := disk_nnodes h,
                            active_nodes := disk_nnodes h, frozen_nodes := 0,
                            entry_point := ucast (medoid_id_on_file h)\<rparr>
                  in if nnodes_per_sector h = 0
                     then Inr (s\<lparr>total_edges := 0, degree_min := 0, degree_max := 0,
                                 degree_avg := 0, weak_count := 0\<rparr>, [], 0)
                     else
                       let n_sectors = (disk_nnodes h + nnodes_per_sector h - 1)
                                         div nnodes_per_sector h;
                           in2 = seekg_beg data_offset in1
                       in (case page_loop h esz n_sectors 0 (in2, accum_init, [], 0) of
                             Inl e \<Rightarrow> Inl e
                           | Inr (in3, a, seen, pages) \<Rightarrow>
                               Inr (s\<lparr>total_edges := acc_total_edges a,
                                      degree_min := final_degree_min a,
                                      degree_avg := (if disk_nnodes h > 0
                                                     then avg_of (acc_total_edges a) (disk_nnodes h)
                                                     else 0),
                                      degree_max := acc_degree_max a,
                                      weak_count := acc_weak_count a\<rparr>, seen, pages))))"

definition compute_graph_stats_from_disk_index ::
  "byte list option \<Rightarrow> DiskIndexDataType \<Rightarrow> error + GraphStats" where
  "compute_graph_stats_from_disk_index file data_type =
     (case disk_index_scan file data_type of
        Inl e \<Rightarrow> Inl e
      | Inr (s, seen, pages) \<Rightarrow> Inr s)"

text \<open>
  The geometry as the layout table of the specification places it: five little-endian
  \<^verbatim>\<open>u64\<close> fields from byte \<open>off\<close> on.
\<close>

definition geometry_at :: "byte list \<Rightarrow> nat \<Rightarrow> disk_header" where
  "geometry_at bytes off =
     \<lparr>disk_nnodes = le_word (take 8 (drop off bytes)),
      disk_ndims = le_word (take 8 (drop (off + 8) bytes)),
      medoid_id_on_file = le_word (take 8 (drop (off + 16) bytes)),
      max_node_len = le_word (take 8 (drop (off + 24) bytes)),
      nnodes_per_sector = le_word (take 8 (drop (off + 32) bytes))\<rparr>"

text \<open>
  Whether the file opens with the tagged serialisation: eight bytes are there and the
  first four, as a signed 32-bit integer, are at least 5.
\<close>

definition tagged_layout :: "byte list \<Rightarrow> bool" where
  "tagged_layout bytes \<longleftrightarrow> 8 \<le> length bytes \<and> 5 \<le> sint (le_word (take 4 bytes) :: u32)"

text \<open>
  The degree field of node \<open>id\<close> in a paged body: page \<open>id div records_per_page\<close> after
  the 4096-byte header page, slot \<open>id mod records_per_page\<close>, behind the coordinates.
\<close>

definition degree_at :: "byte list \<Rightarrow> disk_header \<Rightarrow> u64 \<Rightarrow> nat \<Rightarrow> u32" where
  "degree_at bytes h esz node =
     le_word (take 4 (drop (4096 + (node div unat (nnodes_per_sector h)) * 4096
                             + (node mod unat (nnodes_per_sector h)) * unat (max_node_len h)
                             + unat (disk_ndims h) * unat esz) bytes))"

declare graph_loop.simps [simp del] sector_loop.simps [simp del] page_loop.simps [simp del]

text \<open>Where the geometry is read, and when reading it succeeds.\<close>

definition geometry_offset :: "byte list \<Rightarrow> nat" where
  "geometry_offset bytes = (if tagged_layout bytes then 8 else 0)"

text \<open>
  The sanity test of line 312 on the geometry, in 64-bit arithmetic: the record does not
  hold the coordinates and the degree field, or is longer than a page.
\<close>

definition geometry_rejected :: "disk_header \<Rightarrow> DiskIndexDataType \<Rightarrow> bool" where
  "geometry_rejected h data_type \<longleftrightarrow>
     max_node_len h < disk_ndims h * elem_size data_type + 4 \<or> max_node_len h > 4096"

section \<open>Two worked index files\<close>

text \<open>
  An untagged index of two nodes whose header claims two records of 4096 bytes per page,
  with one body page; the degree field of node 0 is 5.
\<close>

definition wide_record_index :: "byte list" where
  "wide_record_index =
     [2,0,0,0,0,0,0,0, 0,0,0,0,0,0,0,0, 0,0,0,0,0,0,0,0, 0,16,0,0,0,0,0,0, 2,0,0,0,0,0,0,0]
     @ replicate 4056 0 @ [5,0,0,0] @ replicate 4092 0"

text \<open>
  A tagged index of ten nodes with one coordinate byte, records of 12 bytes and three
  records per page, on four body pages. Every page holds the degrees 1, 2 and 3.
\<close>

definition three_slot_page :: "byte list" where
  "three_slot_page =
     [9, 1,0,0,0, 0,0,0,0,0,0,0,  9, 2,0,0,0, 0,0,0,0,0,0,0,  9, 3,0,0,0, 0,0,0,0,0,0,0]
     @ replicate 4060 0"

definition ten_node_index :: "byte list" where
  "ten_node_index =
     [10,0,0,0, 1,0,0,0,
      10,0,0,0,0,0,0,0, 1,0,0,0,0,0,0,0, 4,0,0,0,0,0,0,0, 12,0,0,0,0,0,0,0, 3,0,0,0,0,0,0,0]
     @ replicate 4048 0
     @ three_slot_page @ three_slot_page @ three_slot_page @ three_slot_page"

section \<open>Allocation\<close>

text \<open>
  The two samplers build vectors, and building a vector can fail: with
  \<^verbatim>\<open>std::length_error\<close> when more elements are asked for than \<^verbatim>\<open>max_size()\<close>, with
  \<^verbatim>\<open>std::bad_alloc\<close> when the allocator does not grant the storage. The allocator is
  not part of the program; it is a parameter \<open>heap\<close> of the samplers, where \<open>heap c n\<close>
  tells whether the request number \<open>c\<close> of a run, for \<open>n\<close> bytes, is granted. The
  sizes are those of an LP64 target with libstdc++: \<^verbatim>\<open>max_size()\<close> of a vector of
  elements of \<open>sz\<close> bytes is \<open>PTRDIFF_MAX / sz\<close>, and a \<^verbatim>\<open>std::vector<uint32_t>\<close> has 24
  bytes.
\<close>

type_synonym heap = "nat \<Rightarrow> nat \<Rightarrow> bool"

definition allocate :: "heap \<Rightarrow> nat \<Rightarrow> nat \<Rightarrow> error + nat" where
  "allocate heap c n = (if heap c n then Inr (Suc c) else Inl BadAlloc)"

text \<open>
  \<^verbatim>\<open>std::vector<T> v(n)\<close>, and \<^verbatim>\<open>v.resize(n)\<close> on an empty vector without storage, for
  elements of \<open>sz\<close> bytes. No storage is requested for \<open>n = 0\<close>. The result is the
  number of the next request.
\<close>

definition new_vector :: "heap \<Rightarrow> nat \<Rightarrow> nat \<Rightarrow> nat \<Rightarrow> error + nat" where
  "new_vector heap c sz n =
     (if (2 ^ 63 - 1) div sz < n then Inl LengthError
      else if n = 0 then Inr c
      else allocate heap c (n * sz))"

text \<open>
  \<^verbatim>\<open>v.push_back(x)\<close> on a \<^verbatim>\<open>std::vector<uint32_t>\<close> that was created empty and has
  grown by \<^verbatim>\<open>push_back\<close> only. Its capacity is then 0, 1, 2, 4, 8, \<dots>: storage is
  requested when the length is 0 or a power of two, for \<open>max(1, 2 * length)\<close> elements.
\<close>

definition push_back :: "heap \<Rightarrow> nat \<Rightarrow> u32 list \<Rightarrow> u32 \<Rightarrow> error + nat \<times> u32 list" where
  "push_back heap c xs x =
     (if length xs = 0 \<or> length xs = 2 ^ ilog2 (length xs)
      then (case allocate heap c (4 * max 1 (2 * length xs)) of
              Inl e \<Rightarrow> Inl e
            | Inr c' \<Rightarrow> Inr (c', xs @ [x]))
      else Inr (c, xs @ [x]))"

section \<open>The small-graph sample\<close>

text \<open>
  What \<^verbatim>\<open>print_small_graph_from_file\<close> and \<^verbatim>\<open>print_small_graph_from_disk_index\<close> build
  before they print: the number of sampled nodes, the entry point, and the two vectors
  \<^verbatim>\<open>out_nbrs\<close> and \<^verbatim>\<open>in_nbrs\<close>. The lines printed afterwards show, for each index
  \<open>i\<close> below that number, \<open>out_nbrs[i]\<close> (cut to \<^verbatim>\<open>max_neighbors_per_node\<close> entries)
  and \<open>in_nbrs[i]\<close> as \<^verbatim>\<open>referenced_by\<close>; they are not modelled.
\<close>

record small_graph =
  sg_num_nodes :: u64
  sg_entry_point :: u64
  sg_out_nbrs :: "u32 list list"
  sg_in_nbrs :: "u32 list list"

text \<open>A buffer of bytes read as consecutive little-endian \<^verbatim>\<open>uint32_t\<close> values.\<close>

fun decode_u32s :: "byte list \<Rightarrow> u32 list" where
  "decode_u32s (a # b # c # d # bs) = le_word [a, b, c, d] # decode_u32s bs"
| "decode_u32s bs = []"

text \<open>
  \<^verbatim>\<open>for (uint32_t v : out_nbrs[node_id]) if (v < num_nodes) in_nbrs[v].push_back(node_id)\<close>,
  where \<open>src\<close> is \<^verbatim>\<open>static_cast<uint32_t>(node_id)\<close>. The comparison is made in
  \<^verbatim>\<open>size_t\<close>; the index is within \<^verbatim>\<open>in_nbrs\<close> as long as that vector has
  \<^verbatim>\<open>num_nodes\<close> entries. The state is the number of the next request to the allocator
  and \<^verbatim>\<open>in_nbrs\<close>.
\<close>

fun add_reverse_edges ::
  "heap \<Rightarrow> u64 \<Rightarrow> u32 \<Rightarrow> u32 list \<Rightarrow> nat \<times> u32 list list \<Rightarrow> error + nat \<times> u32 list list" where
  "add_reverse_edges heap num_nodes src [] (c, in_nbrs) = Inr (c, in_nbrs)"
| "add_reverse_edges heap num_nodes src (v # vs) (c, in_nbrs) =
     (if ucast v < num_nodes then
        (case push_back heap c (in_nbrs ! unat v) src of
           Inl e \<Rightarrow> Inl e
         | Inr (c', l) \<Rightarrow> add_reverse_edges heap num_nodes src vs (c', in_nbrs[unat v := l]))
      else add_reverse_edges heap num_nodes src vs (c, in_nbrs))"

text \<open>
  \<^verbatim>\<open>out_nbrs.resize(node_id); in_nbrs.resize(node_id); num_nodes = node_id;\<close> when
  fewer nodes were read than requested.
\<close>

definition finish_sample :: "u64 \<Rightarrow> u64 \<Rightarrow> u64 \<Rightarrow> u32 list list \<Rightarrow> u32 list list \<Rightarrow> small_graph" where
  "finish_sample num_nodes nodes_read ep out_nbrs in_nbrs =
     (if nodes_read < num_nodes
      then \<lparr>sg_num_nodes = nodes_read, sg_entry_point = ep,
             sg_out_nbrs = take (unat nodes_read) out_nbrs,
             sg_in_nbrs = take (unat nodes_read) in_nbrs\<rparr>
      else \<lparr>sg_num_nodes = num_nodes, sg_entry_point = ep,
             sg_out_nbrs = out_nbrs, sg_in_nbrs = in_nbrs\<rparr>)"

text \<open>
  The loop of \<^verbatim>\<open>print_small_graph_from_file\<close> (lines 225 to 246) on the number of the
  next request to the allocator, the stream, \<^verbatim>\<open>bytes_read\<close>, \<^verbatim>\<open>node_id\<close> and the two
  vectors. The vector \<^verbatim>\<open>nbrs\<close> is built before the neighbour ids are read into it; the
  ids are read here, not skipped.
\<close>

function small_file_loop ::
  "heap \<Rightarrow> u64 \<Rightarrow> u64 \<Rightarrow> nat \<times> ifstream \<times> u64 \<times> u64 \<times> u32 list list \<times> u32 list list
     \<Rightarrow> error + nat \<times> ifstream \<times> u64 \<times> u64 \<times> u32 list list \<times> u32 list list" where
  "small_file_loop heap expected_file_size num_nodes (c, ins, counter, node_id, out_nbrs, in_nbrs) =
     (if counter \<noteq> expected_file_size \<and> node_id < num_nodes \<and> good ins then
        (let (k, in1) = read_u32 ins in
         if \<not> good in1 then Inr (c, in1, counter, node_id, out_nbrs, in_nbrs)
         else
           (case new_vector heap c 4 (unat k) of
              Inl e \<Rightarrow> Inl e
            | Inr c1 \<Rightarrow>
                let (bs, in2) = (if k > 0 then read_bytes (unat (ucast k * 4 :: u64)) in1
                                 else ([], in1))
                in if \<not> good in2 then Inr (c1, in2, counter, node_id, out_nbrs, in_nbrs)
                   else
                     let nbrs = decode_u32s bs in
                     (case add_reverse_edges heap num_nodes (ucast node_id) nbrs (c1, in_nbrs) of
                        Inl e \<Rightarrow> Inl e
                      | Inr (c2, in_nbrs') \<Rightarrow>
                          small_file_loop heap expected_file_size num_nodes
                            (c2, in2, counter + (4 + of_nat (length nbrs) * 4), node_id + 1,
                             out_nbrs[unat node_id := nbrs], in_nbrs'))))
      else Inr (c, ins, counter, node_id, out_nbrs, in_nbrs))"
  by pat_completeness auto
termination
proof (relation "measure (\<lambda>(heap, e, num_nodes, c, ins, counter, node_id, st). unat num_nodes - unat node_id)")
  show "wf (measure (\<lambda>(heap, e, num_nodes, c, ins, counter, node_id, st). unat num_nodes - unat node_id))"
    by simp
next
  fix heap :: heap and e num_nodes counter node_id :: u64 and ins in2 :: ifstream
    and out_nbrs in_nbrs out_nbrs' in_nbrs' :: "u32 list list" and counter' :: u64
    and c c2 :: nat
  assume "counter \<noteq> e \<and> node_id < num_nodes \<and> good ins"
  then have lt: "node_id < num_nodes" by simp
  then have "unat (node_id + 1) = Suc (unat node_id)"
    by unat_arith
  moreover from lt have "unat node_id < unat num_nodes"
    by (simp add: word_less_nat_alt)
  ultimately show
    "((heap, e, num_nodes, c2, in2, counter', node_id + 1, out_nbrs', in_nbrs'),
      (heap, e, num_nodes, c, ins, counter, node_id, out_nbrs, in_nbrs))
     \<in> measure (\<lambda>(heap, e, num_nodes, c, ins, counter, node_id, st). unat num_nodes - unat node_id)"
    by simp
qed

text \<open>
  The sample of \<^verbatim>\<open>print_small_graph_from_file\<close>; \<open>None\<close> where the routine returns
  before the sample is built (file not open, seek failed, header not read), an error
  where a vector cannot be built.
\<close>

definition small_graph_from_file ::
  "heap \<Rightarrow> byte list option \<Rightarrow> u64 \<Rightarrow> u64 \<Rightarrow> error + small_graph option" where
  "small_graph_from_file heap file offset num_nodes =
     (case file of
        None \<Rightarrow> Inr None
      | Some bytes \<Rightarrow>
          (let in0 = seekg_beg offset (open_stream bytes) in
           if \<not> good in0 then Inr None
           else
             let (expected_file_size, in1) = read_u64 in0;
                 (width, in2) = read_u32 in1;
                 (ep, in3) = read_u32 in2;
                 (num_frozen_pts, in4) = read_u64 in3
             in if \<not> good in4 then Inr None
                else
                  (case new_vector heap 0 24 (unat num_nodes) of
                     Inl e \<Rightarrow> Inl e
                   | Inr c1 \<Rightarrow>
                       (case new_vector heap c1 24 (unat num_nodes) of
                          Inl e \<Rightarrow> Inl e
                        | Inr c2 \<Rightarrow>
                            (case small_file_loop heap expected_file_size num_nodes
                                    (c2, in4, 24, 0, replicate (unat num_nodes) [],
                                     replicate (unat num_nodes) []) of
                               Inl e \<Rightarrow> Inl e
                             | Inr (c3, ins, counter, node_id, out_nbrs, in_nbrs) \<Rightarrow>
                                 Inr (Some (finish_sample num_nodes node_id (ucast ep)
                                              out_nbrs in_nbrs)))))))"

text \<open>
  \<^verbatim>\<open>memcpy\<close> of \<open>cap\<close> neighbour ids out of the page buffer; it is not called for
  \<open>cap = 0\<close>.
\<close>

definition memcpy_u32s :: "byte list \<Rightarrow> u64 \<Rightarrow> u64 \<Rightarrow> u32 list option" where
  "memcpy_u32s sector off cap =
     (if cap = 0 then Some []
      else if unat off + 4 * unat cap \<le> length sector
        then Some (decode_u32s (take (4 * unat cap) (drop (unat off) sector)))
        else None)"

text \<open>
  The inner loop of \<^verbatim>\<open>print_small_graph_from_disk_index\<close> on the number of the next
  request to the allocator, \<^verbatim>\<open>nodes_read\<close> and the two vectors; \<open>nh\<close> is
  \<^verbatim>\<open>nhood_offset_in_node\<close>. The number of neighbour ids copied is clamped to what fits
  the page, and \<^verbatim>\<open>out_nbrs[nodes_read]\<close>, empty until then, is resized to that number
  before the ids are copied.
\<close>

function small_sector_loop ::
  "heap \<Rightarrow> byte list \<Rightarrow> disk_header \<Rightarrow> u64 \<Rightarrow> u64 \<Rightarrow> u64 \<Rightarrow> u64
     \<Rightarrow> nat \<times> u64 \<times> u32 list list \<times> u32 list list
     \<Rightarrow> error + nat \<times> u64 \<times> u32 list list \<times> u32 list list" where
  "small_sector_loop heap sector h nh num_nodes sec j (c, nodes_read, out_nbrs, in_nbrs) =
     (if j < nnodes_per_sector h \<and> nodes_read < num_nodes then
        (let node_id = sec * nnodes_per_sector h + j in
         if node_id \<ge> disk_nnodes h then Inr (c, nodes_read, out_nbrs, in_nbrs)
         else
           let offset_in_sector = j * max_node_len h in
           if offset_in_sector + nh + 4 > 4096 then Inr (c, nodes_read, out_nbrs, in_nbrs)
           else
             (case memcpy_u32 sector (offset_in_sector + nh) of
                None \<Rightarrow> Inl BufferOverrun
              | Some nnbrs \<Rightarrow>
                  let nbr_cap = (if offset_in_sector + nh + 4 + ucast nnbrs * 4 > 4096
                                 then (4096 - (offset_in_sector + nh + 4)) div 4
                                 else ucast nnbrs)
                  in (case new_vector heap c 4 (unat nbr_cap) of
                        Inl e \<Rightarrow> Inl e
                      | Inr c1 \<Rightarrow>
                          (case memcpy_u32s sector (offset_in_sector + nh + 4) nbr_cap of
                             None \<Rightarrow> Inl BufferOverrun
                           | Some nbrs \<Rightarrow>
                               (case add_reverse_edges heap num_nodes (ucast nodes_read) nbrs
                                       (c1, in_nbrs) of
                                  Inl e \<Rightarrow> Inl e
                                | Inr (c2, in_nbrs') \<Rightarrow>
                                    small_sector_loop heap sector h nh num_nodes sec (j + 1)
                                      (c2, nodes_read + 1, out_nbrs[unat nodes_read := nbrs],
                                       in_nbrs'))))))
      else Inr (c, nodes_read, out_nbrs, in_nbrs))"
  by pat_completeness auto
termination
proof (relation "measure (\<lambda>(heap, sector, h, nh, num_nodes, sec, j, st). unat (nnodes_per_sector h) - unat j)")
  show "wf (measure (\<lambda>(heap, sector, h, nh, num_nodes, sec, j, st). unat (nnodes_per_sector h) - unat j))"
    by simp
next
  fix heap :: heap and sector :: "byte list" and h :: disk_header
    and nh num_nodes sec j nodes_read :: u64
    and out_nbrs in_nbrs out_nbrs' in_nbrs' :: "u32 list list" and nodes_read' :: u64
    and c c2 :: nat
  assume "j < nnodes_per_sector h \<and> nodes_read < num_nodes"
  then have lt: "j < nnodes_per_sector h" by simp
  then have "unat (j + 1) = Suc (unat j)"
    by unat_arith
  moreover from lt have "unat j < unat (nnodes_per_sector h)"
    by (simp add: word_less_nat_alt)
  ultimately show
    "((heap, sector, h, nh, num_nodes, sec, j + 1, c2, nodes_read', out_nbrs', in_nbrs'),
      (heap, sector, h, nh, num_nodes, sec, j, c, nodes_read, out_nbrs, in_nbrs))
     \<in> measure (\<lambda>(heap, sector, h, nh, num_nodes, sec, j, st). unat (nnodes_per_sector h) - unat j)"
    by simp
qed

text \<open>The outer loop of \<^verbatim>\<open>print_small_graph_from_disk_index\<close>.\<close>

function small_page_loop ::
  "heap \<Rightarrow> disk_header \<Rightarrow> u64 \<Rightarrow> u64 \<Rightarrow> u64 \<Rightarrow> u64
     \<Rightarrow> nat \<times> ifstream \<times> u64 \<times> u32 list list \<times> u32 list list
     \<Rightarrow> error + nat \<times> ifstream \<times> u64 \<times> u32 list list \<times> u32 list list" where
  "small_page_loop heap h nh num_nodes n_sectors sec (c, ins, nodes_read, out_nbrs, in_nbrs) =
     (if sec < n_sectors \<and> nodes_read < num_nodes \<and> good ins then
        (let (sector, in1) = read_bytes kSectorLen ins in
         if \<not> good in1 then Inr (c, in1, nodes_read, out_nbrs, in_nbrs)
         else
           (case small_sector_loop heap sector h nh num_nodes sec 0
                   (c, nodes_read, out_nbrs, in_nbrs) of
              Inl e \<Rightarrow> Inl e
            | Inr (c', nodes_read', out_nbrs', in_nbrs') \<Rightarrow>
                small_page_loop heap h nh num_nodes n_sectors (sec + 1)
                  (c', in1, nodes_read', out_nbrs', in_nbrs')))
      else Inr (c, ins, nodes_read, out_nbrs, in_nbrs))"
  by pat_completeness auto
termination
proof (relation "measure (\<lambda>(heap, h, nh, num_nodes, n_sectors, sec, st). unat n_sectors - unat sec)")
  show "wf (measure (\<lambda>(heap, h, nh, num_nodes, n_sectors, sec, st). unat n_sectors - unat sec))"
    by simp
next
  fix heap :: heap and h :: disk_header
    and nh num_nodes n_sectors sec nodes_read nodes_read' :: u64
    and ins in1 :: ifstream and out_nbrs in_nbrs out_nbrs' in_nbrs' :: "u32 list list"
    and c c' :: nat
  assume "sec < n_sectors \<and> nodes_read < num_nodes \<and> good ins"
  then have lt: "sec < n_sectors" by simp
  then have "unat (sec + 1) = Suc (unat sec)"
    by unat_arith
  moreover from lt have "unat sec < unat n_sectors"
    by (simp add: word_less_nat_alt)
  ultimately show
    "((heap, h, nh, num_nodes, n_sectors, sec + 1, c', in1, nodes_read', out_nbrs', in_nbrs'),
      (heap, h, nh, num_nodes, n_sectors, sec, c, ins, nodes_read, out_nbrs, in_nbrs))
     \<in> measure (\<lambda>(heap, h, nh, num_nodes, n_sectors, sec, st). unat n_sectors - unat sec)"
    by simp
qed

text \<open>
  The sample of \<^verbatim>\<open>print_small_graph_from_disk_index\<close>; \<open>None\<close> where the routine
  returns before the sample is built, an error where a vector cannot be built. The
  requested size is first cut down to the node count of the header; the two vectors and
  the page buffer are built before the first page is read.
\<close>

definition small_graph_from_disk_index ::
  "heap \<Rightarrow> byte list option \<Rightarrow> DiskIndexDataType \<Rightarrow> u64 \<Rightarrow> error + small_graph option" where
  "small_graph_from_disk_index heap file data_type requested =
     (case file of
        None \<Rightarrow> Inr None
      | Some bytes \<Rightarrow>
          (let (h, data_offset, in1) = read_disk_header (open_stream bytes) in
           if \<not> good in1 \<or> nnodes_per_sector h = 0 then Inr None
           else
             let esz = elem_size data_type;
                 data_dim = disk_ndims h
             in if max_node_len h < data_dim * esz + 4 \<or> max_node_len h > 4096 then Inr None
                else
                  let nhood_offset_in_node = data_dim * esz;
                      num_nodes = (if requested > disk_nnodes h then disk_nnodes h else requested)
                  in (case new_vector heap 0 24 (unat num_nodes) of
                        Inl e \<Rightarrow> Inl e
                      | Inr c1 \<Rightarrow>
                          (case new_vector heap c1 24 (unat num_nodes) of
                             Inl e \<Rightarrow> Inl e
                           | Inr c2 \<Rightarrow>
                               (case new_vector heap c2 1 4096 of
                                  Inl e \<Rightarrow> Inl e
                                | Inr c3 \<Rightarrow>
                                    let n_sectors = (disk_nnodes h + nnodes_per_sector h - 1)
                                                      div nnodes_per_sector h;
                                        in2 = seekg_beg data_offset in1
                                    in (case small_page_loop heap h nhood_offset_in_node num_nodes
                                              n_sectors 0
                                              (c3, in2, 0, replicate (unat num_nodes) [],
                                               replicate (unat num_nodes) []) of
                                          Inl e \<Rightarrow> Inl e
                                        | Inr (c4, in3, nodes_read, out_nbrs, in_nbrs) \<Rightarrow>
                                            Inr (Some (finish_sample num_nodes nodes_read
                                                         (medoid_id_on_file h)
                                                         out_nbrs in_nbrs))))))))"

section \<open>What a sample is specified to hold\<close>

text \<open>
  The reverse edges of the first \<open>m\<close> out-neighbour lists that point to node \<open>i\<close>: the
  index \<open>j\<close> of a list, as a 32-bit id, once for each occurrence of \<open>i\<close> in it, in the
  order of the lists.
\<close>

definition referrers :: "u32 list list \<Rightarrow> nat \<Rightarrow> nat \<Rightarrow> u32 list" where
  "referrers out_nbrs m i =
     concat (map (\<lambda>j. map (\<lambda>v. of_nat j) (filter (\<lambda>v. unat v = i) (out_nbrs ! j))) [0 ..< m])"

text \<open>
  The sample with the given out-neighbour lists: one node for each list, and the
  \<^verbatim>\<open>referenced_by\<close> list of node \<open>i\<close> made of the reverse edges within the sample.
\<close>

definition sample_of :: "u64 \<Rightarrow> u32 list list \<Rightarrow> small_graph" where
  "sample_of ep out_nbrs =
     \<lparr>sg_num_nodes = of_nat (length out_nbrs), sg_entry_point = ep, sg_out_nbrs = out_nbrs,
      sg_in_nbrs = map (referrers out_nbrs (length out_nbrs)) [0 ..< length out_nbrs]\<rparr>"

text \<open>
  The reverse-edge property of a sample as a property of its sets: both vectors have
  one entry for each sampled node, and the entry \<open>i\<close> of \<^verbatim>\<open>in_nbrs\<close> holds exactly the
  (32-bit) indices of the sampled nodes whose out-neighbour list contains \<open>i\<close>.
\<close>

definition referenced_by_exact :: "small_graph \<Rightarrow> bool" where
  "referenced_by_exact g \<longleftrightarrow>
     length (sg_out_nbrs g) = unat (sg_num_nodes g)
     \<and> length (sg_in_nbrs g) = unat (sg_num_nodes g)
     \<and> (\<forall>i \<in> {..< unat (sg_num_nodes g)}.
           set (sg_in_nbrs g ! i) =
             of_nat ` {j \<in> {..< unat (sg_num_nodes g)}. \<exists>v \<in> set (sg_out_nbrs g ! j). unat v = i})"

text \<open>
  The same while the loops run: \<open>m\<close> of the \<open>n\<close> requested nodes have been read, both
  vectors have \<open>n\<close> entries, and \<^verbatim>\<open>in_nbrs\<close> holds the reverse edges of the nodes read
  so far.
\<close>

definition sample_invariant :: "nat \<Rightarrow> nat \<Rightarrow> u32 list list \<Rightarrow> u32 list list \<Rightarrow> bool" where
  "sample_invariant n m out_nbrs in_nbrs \<longleftrightarrow>
     m \<le> n \<and> length out_nbrs = n \<and> length in_nbrs = n
     \<and> (\<forall>i \<in> {..< n}. in_nbrs ! i = referrers out_nbrs m i)"

declare small_file_loop.simps [simp del] small_sector_loop.simps [simp del]
  small_page_loop.simps [simp del]

text \<open>
  The neighbour lists of the first complete records of a layout-A body, at most \<open>n\<close> of
  them, taken until the running byte counter equals the expected size or a record
  cannot be read in full: the nodes a sample of size \<open>n\<close> can read.
\<close>

function sampled_records :: "u64 \<Rightarrow> u64 \<Rightarrow> nat \<Rightarrow> byte list \<Rightarrow> u32 list list" where
  "sampled_records expected counter n bs =
     (if counter = expected \<or> n = 0 \<or> length bs < 4 then []
      else let k = le_word (take 4 bs) :: u32 in
        if length bs < 4 + 4 * unat k then []
        else decode_u32s (take (4 * unat k) (drop 4 bs))
             # sampled_records expected (counter + (4 + ucast k * 4)) (n - 1)
                 (drop (4 + 4 * unat k) bs))"
  by pat_completeness auto
termination
  by (relation "measure (\<lambda>(expected, counter, n, bs). n)") auto

declare sampled_records.simps [simp del] ilog2.simps [simp del]

text \<open>
  The body page number \<open>s\<close> of a paged index, and the out-neighbour ids in slot \<open>i\<close> of
  a page as a sample holds them: the ids behind the degree field of the slot, as many as
  the degree field says but no more than fit between there and the end of the page.
  Node \<open>id\<close> is in slot \<open>id mod records_per_page\<close> of page \<open>id div records_per_page\<close>.
\<close>

definition index_page :: "byte list \<Rightarrow> nat \<Rightarrow> byte list" where
  "index_page bytes s = take 4096 (drop (4096 + 4096 * s) bytes)"

definition slot_neighbors :: "byte list \<Rightarrow> disk_header \<Rightarrow> u64 \<Rightarrow> nat \<Rightarrow> u32 list" where
  "slot_neighbors page h esz i =
     (let degree_field = i * unat (max_node_len h) + unat (disk_ndims h) * unat esz;
          degree = unat (le_word (take 4 (drop degree_field page)) :: u32);
          cap = min degree ((4096 - (degree_field + 4)) div 4)
      in decode_u32s (take (4 * cap) (drop (degree_field + 4) page)))"

definition neighbors_at :: "byte list \<Rightarrow> disk_header \<Rightarrow> u64 \<Rightarrow> nat \<Rightarrow> u32 list" where
  "neighbors_at bytes h esz node =
     slot_neighbors (index_page bytes (node div unat (nnodes_per_sector h))) h esz
       (node mod unat (nnodes_per_sector h))"

text \<open>
  A raw graph file of three nodes with the edges \<open>0 \<rightarrow> 1\<close>, \<open>0 \<rightarrow> 5\<close>, \<open>1 \<rightarrow> 2\<close> and
  \<open>2 \<rightarrow> 0\<close>, and entry point 1.
\<close>

definition three_node_graph_file :: "byte list" where
  "three_node_graph_file =
     [52,0,0,0,0,0,0,0, 2,0,0,0, 1,0,0,0, 0,0,0,0,0,0,0,0,
      2,0,0,0, 1,0,0,0, 5,0,0,0,
      1,0,0,0, 2,0,0,0,
      1,0,0,0, 0,0,0,0]"

text \<open>
  An untagged index of the same three nodes with one coordinate byte, records of 16
  bytes and two records per page, on two body pages; the medoid is node 1.
\<close>

definition three_node_index :: "byte list" where
  "three_node_index =
     [3,0,0,0,0,0,0,0, 1,0,0,0,0,0,0,0, 1,0,0,0,0,0,0,0, 16,0,0,0,0,0,0,0, 2,0,0,0,0,0,0,0]
     @ replicate 4056 0
     @ [7, 2,0,0,0, 1,0,0,0, 5,0,0,0, 0,0,0,  7, 1,0,0,0, 2,0,0,0, 0,0,0,0, 0,0,0]
     @ replicate 4064 0
     @ [7, 1,0,0,0, 0,0,0,0, 0,0,0,0, 0,0,0]
     @ replicate 4080 0"

(*PROPERTIES*)
section \<open>Rounding of the average degree\<close>

lemmas double_eval = avg_of_def to_double_def double_div_def quotient_exponent_def
  round_div_def ilog2.simps Let_def

lemma avg_of_zero: "avg_of 0 n = 0"
  by (simp add: avg_of_def to_double_def double_div_def)

lemma ilog2_le: "n < 2 ^ Suc k \<Longrightarrow> ilog2 n \<le> k"
proof (induction k arbitrary: n)
  case 0
  then show ?case by (simp add: ilog2.simps)
next
  case (Suc k)
  show ?case
  proof (cases "n < 2")
    case True
    then show ?thesis by (simp add: ilog2.simps)
  next
    case False
    from Suc.prems have "n div 2 < 2 ^ Suc k" by simp
    then have "ilog2 (n div 2) \<le> k" by (rule Suc.IH)
    with False show ?thesis by (subst ilog2.simps) simp
  qed
qed

lemma round_div_ge:
  assumes "0 < b" and "k * b \<le> a"
  shows "k \<le> round_div a b"
proof -
  from assms have "k \<le> a div b"
    by (simp add: less_eq_div_iff_mult_less_eq)
  then show ?thesis by (simp add: round_div_def Let_def)
qed

lemma round_div_le:
  assumes "0 < b" and "a \<le> k * b"
  shows "round_div a b \<le> k"
proof (cases "a div b = k")
  case True
  then have "k * b \<le> a"
    using div_times_less_eq_dividend [of a b] by simp
  with assms(2) have "a = k * b" by simp
  then have "a mod b = 0" by simp
  with True assms(1) show ?thesis by (simp add: round_div_def Let_def)
next
  case False
  from assms(2) have "a div b \<le> k * b div b" by (rule div_le_mono)
  with assms(1) have "a div b \<le> k" by simp
  with False have "a div b < k" by simp
  then show ?thesis by (simp add: round_div_def Let_def)
qed

lemma quotient_exponent_le: "quotient_exponent a b \<le> int (ilog2 a)"
  by (simp add: quotient_exponent_def Let_def)

lemma double_div_bounds:
  assumes a: "a < 2 ^ 53" and b: "0 < b" and lo: "lo * b \<le> a" and hi: "a \<le> hi * b"
  shows "of_nat lo \<le> double_div a b" and "double_div a b \<le> of_nat hi"
proof -
  define k where "k = nat (52 - quotient_exponent a b)"
  have "ilog2 a \<le> 52" using a by (intro ilog2_le) simp
  then have e: "quotient_exponent a b \<le> 52"
    using quotient_exponent_le [of a b] by simp
  have dd: "a \<noteq> 0 \<Longrightarrow> double_div a b = of_nat (round_div (a * 2 ^ k) b) / 2 ^ k"
    using e by (simp add: double_div_def k_def Let_def)
  have "(lo * 2 ^ k) * b \<le> a * 2 ^ k" using lo by (simp add: mult.commute mult.left_commute)
  then have l: "lo * 2 ^ k \<le> round_div (a * 2 ^ k) b" using b by (intro round_div_ge)
  have "a * 2 ^ k \<le> (hi * 2 ^ k) * b" using hi by (simp add: mult.commute mult.left_commute)
  then have h: "round_div (a * 2 ^ k) b \<le> hi * 2 ^ k" using b by (intro round_div_le)
  show "of_nat lo \<le> double_div a b"
  proof (cases "a = 0")
    case True
    with lo b have "lo = 0" by simp
    with True show ?thesis by (simp add: double_div_def)
  next
    case False
    have "(of_nat lo :: rat) * 2 ^ k = of_nat (lo * 2 ^ k)" by simp
    also have "\<dots> \<le> of_nat (round_div (a * 2 ^ k) b)" using l by (simp only: of_nat_le_iff)
    finally show ?thesis using dd [OF False] by (simp add: pos_le_divide_eq)
  qed
  show "double_div a b \<le> of_nat hi"
  proof (cases "a = 0")
    case True
    then show ?thesis by (simp add: double_div_def)
  next
    case False
    have "(of_nat (round_div (a * 2 ^ k) b) :: rat) \<le> of_nat (hi * 2 ^ k)"
      using h by (simp only: of_nat_le_iff)
    also have "\<dots> = of_nat hi * 2 ^ k" by simp
    finally show ?thesis using dd [OF False] by (simp add: pos_divide_le_eq)
  qed
qed

lemma to_double_exact: "n < 2 ^ 53 \<Longrightarrow> to_double n = n"
  by (simp add: to_double_def)

lemma ilog2_bounds:
  "0 < n \<Longrightarrow> 2 ^ ilog2 n \<le> n \<and> n < 2 ^ Suc (ilog2 n)"
proof (induction n rule: ilog2.induct)
  case (1 n)
  show ?case
  proof (cases "n < 2")
    case True
    with 1(2) have "n = 1" by simp
    then show ?thesis by (simp add: ilog2.simps)
  next
    case False
    then have "0 < n div 2" by simp
    with 1(1) False have ih: "2 ^ ilog2 (n div 2) \<le> n div 2" "n div 2 < 2 ^ Suc (ilog2 (n div 2))"
      by simp_all
    have e: "ilog2 n = Suc (ilog2 (n div 2))" using False by (subst ilog2.simps) simp
    have "2 * 2 ^ ilog2 (n div 2) \<le> 2 * (n div 2)" using ih(1) by simp
    also have "\<dots> \<le> n" by simp
    finally have lo: "2 ^ ilog2 n \<le> n" by (simp add: e)
    have "n < 2 * (n div 2) + 2" by presburger
    also have "\<dots> \<le> 2 * 2 ^ Suc (ilog2 (n div 2))" using ih(2) by simp
    finally have "n < 2 ^ Suc (ilog2 n)" by (simp add: e)
    with lo show ?thesis by simp
  qed
qed

text \<open>The exponent is the binade of the exact quotient.\<close>

lemma quotient_exponent_binade:
  assumes a: "0 < a" and b: "0 < b"
  defines "e \<equiv> quotient_exponent a b"
  shows "(2 :: rat) powi e \<le> of_nat a / of_nat b"
    and "of_nat a / of_nat b < (2 :: rat) powi (e + 1)"
proof -
  define la where "la = ilog2 a"
  define lb where "lb = ilog2 b"
  define d where "d = int la - int lb"
  define q :: rat where "q = of_nat a / of_nat b"
  have A: "(2 :: rat) ^ la \<le> of_nat a" "(of_nat a :: rat) < 2 ^ Suc la"
  proof -
    have "2 ^ la \<le> a" "a < 2 ^ Suc la" using ilog2_bounds [OF a] by (simp_all add: la_def)
    then have "(of_nat (2 ^ la) :: rat) \<le> of_nat a" "(of_nat a :: rat) < of_nat (2 ^ Suc la)"
      by (simp_all only: of_nat_le_iff of_nat_less_iff)
    then show "(2 :: rat) ^ la \<le> of_nat a" "(of_nat a :: rat) < 2 ^ Suc la" by simp_all
  qed
  have B: "(2 :: rat) ^ lb \<le> of_nat b" "(of_nat b :: rat) < 2 ^ Suc lb"
  proof -
    have "2 ^ lb \<le> b" "b < 2 ^ Suc lb" using ilog2_bounds [OF b] by (simp_all add: lb_def)
    then have "(of_nat (2 ^ lb) :: rat) \<le> of_nat b" "(of_nat b :: rat) < of_nat (2 ^ Suc lb)"
      by (simp_all only: of_nat_le_iff of_nat_less_iff)
    then show "(2 :: rat) ^ lb \<le> of_nat b" "(of_nat b :: rat) < 2 ^ Suc lb" by simp_all
  qed
  have bpos: "(0 :: rat) < of_nat b" using b by simp
  have p2: "(0 :: rat) < 2 powi k" for k by simp
  have la': "(2 :: rat) ^ la = 2 powi int la" and lb': "(2 :: rat) ^ lb = 2 powi int lb"
    by simp_all
  have up: "q < 2 powi (d + 1)"
  proof -
    have "of_nat a < (2 :: rat) powi (int la + 1)" using A(2) by (simp add: power_int_add)
    also have "\<dots> = 2 powi (d + 1) * 2 powi int lb"
    proof -
      have "int la + 1 = (d + 1) + int lb" by (simp add: d_def)
      moreover have "(2 :: rat) powi ((d + 1) + int lb) = 2 powi (d + 1) * 2 powi int lb"
        by (rule power_int_add) simp
      ultimately show ?thesis by (simp only:)
    qed
    also have "\<dots> \<le> 2 powi (d + 1) * of_nat b"
      using B(1) by (intro mult_left_mono) simp_all
    finally show ?thesis using bpos by (simp add: q_def pos_divide_less_eq)
  qed
  have low: "2 powi (d - 1) < q"
  proof -
    have "2 powi (d - 1) * of_nat b < (2 :: rat) powi (d - 1) * 2 powi (int lb + 1)"
      using B(2) by (intro mult_strict_left_mono) (simp_all add: power_int_add)
    also have "\<dots> = 2 powi int la"
    proof -
      have "int la = (d - 1) + (int lb + 1)" by (simp add: d_def)
      moreover have "(2 :: rat) powi ((d - 1) + (int lb + 1)) = 2 powi (d - 1) * 2 powi (int lb + 1)"
        by (rule power_int_add) simp
      ultimately show ?thesis by (simp only:)
    qed
    also have "\<dots> \<le> of_nat a" using A(1) by simp
    finally show ?thesis using bpos by (simp add: q_def pos_less_divide_eq)
  qed
  have test: "b * 2 ^ nat d \<le> a * 2 ^ nat (- d) \<longleftrightarrow> 2 powi d \<le> q"
  proof (cases "0 \<le> d")
    case True
    then have n: "nat (- d) = 0" and pd: "(2 :: rat) powi d = 2 ^ nat d"
      by (simp_all add: power_int_def)
    have "b * 2 ^ nat d \<le> a \<longleftrightarrow> (of_nat (b * 2 ^ nat d) :: rat) \<le> of_nat a"
      by (simp only: of_nat_le_iff)
    also have "\<dots> \<longleftrightarrow> 2 ^ nat d * (of_nat b :: rat) \<le> of_nat a"
      by (simp add: mult.commute)
    also have "\<dots> \<longleftrightarrow> 2 powi d \<le> q"
      using bpos by (simp add: q_def pd pos_le_divide_eq)
    finally show ?thesis by (simp add: n)
  next
    case False
    then have n: "nat d = 0" and pd: "(2 :: rat) powi d = 1 / 2 ^ nat (- d)"
      by (simp_all add: power_int_def field_simps)
    have "b \<le> a * 2 ^ nat (- d) \<longleftrightarrow> (of_nat b :: rat) \<le> of_nat (a * 2 ^ nat (- d))"
      by (simp only: of_nat_le_iff)
    also have "\<dots> \<longleftrightarrow> (of_nat b :: rat) \<le> of_nat a * 2 ^ nat (- d)"
      by simp
    also have "\<dots> \<longleftrightarrow> 2 powi d \<le> q"
      using bpos by (simp add: q_def pd field_simps)
    finally show ?thesis by (simp add: n)
  qed
  have e: "e = (if 2 powi d \<le> q then d else d - 1)"
    unfolding e_def quotient_exponent_def Let_def
    using test by (simp add: d_def la_def lb_def)
  show "(2 :: rat) powi e \<le> of_nat a / of_nat b"
    using low by (simp add: e q_def)
  show "of_nat a / of_nat b < (2 :: rat) powi (e + 1)"
    using up by (simp add: e q_def)
qed


text \<open>Rounding to the nearest integer, and the quotient to the nearest multiple of its unit.\<close>

lemma round_div_nearest:
  assumes "0 < b"
  shows "\<bar>(of_nat (round_div a b) :: rat) - of_nat a / of_nat b\<bar> \<le> 1 / 2"
proof -
  define q where "q = a div b"
  define r where "r = a mod b"
  have a: "a = q * b + r" by (simp add: q_def r_def)
  have rb: "r < b" using assms by (simp add: r_def)
  have bpos: "(0 :: rat) < of_nat b" using assms by simp
  have quot: "(of_nat a :: rat) / of_nat b = of_nat q + of_nat r / of_nat b"
    using bpos by (simp add: a field_simps)
  have frac: "(0 :: rat) \<le> of_nat r / of_nat b" "(of_nat r :: rat) / of_nat b < 1"
    using rb bpos by simp_all
  consider "2 * r < b" | "b < 2 * r" | "2 * r = b" by linarith
  then show ?thesis
  proof cases
    case 1
    then have "(of_nat (2 * r) :: rat) < of_nat b" by (simp only: of_nat_less_iff)
    then have "(of_nat r :: rat) / of_nat b < 1 / 2" using bpos by (simp add: field_simps)
    moreover have "round_div a b = q" using 1 by (simp add: round_div_def Let_def q_def r_def)
    ultimately show ?thesis using frac by (simp add: quot)
  next
    case 2
    then have "(of_nat b :: rat) < of_nat (2 * r)" by (simp only: of_nat_less_iff)
    then have "1 / 2 < (of_nat r :: rat) / of_nat b" using bpos by (simp add: field_simps)
    moreover have "round_div a b = q + 1" using 2 by (simp add: round_div_def Let_def q_def r_def)
    ultimately show ?thesis using frac by (simp add: quot)
  next
    case 3
    then have "(of_nat (2 * r) :: rat) = of_nat b" by (simp only:)
    then have h: "(of_nat r :: rat) / of_nat b = 1 / 2" using bpos by (simp add: field_simps)
    have "round_div a b = q \<or> round_div a b = q + 1"
      using 3 by (simp add: round_div_def Let_def q_def r_def)
    then show ?thesis by (auto simp: quot h)
  qed
qed

lemma double_div_nearest:
  assumes a: "0 < a" and b: "0 < b"
  shows "\<bar>double_div a b - of_nat a / of_nat b\<bar> \<le> 2 powi (quotient_exponent a b - 53)"
proof -
  define e where "e = quotient_exponent a b"
  show ?thesis
  proof (cases "e \<le> 52")
    case True
    define k where "k = nat (52 - e)"
    have ek: "e - 53 = - int (Suc k)" using True by (simp add: k_def)
    have dd: "double_div a b = of_nat (round_div (a * 2 ^ k) b) / 2 ^ k"
      using a True by (simp add: double_div_def Let_def k_def e_def)
    have "\<bar>(of_nat (round_div (a * 2 ^ k) b) :: rat) - of_nat (a * 2 ^ k) / of_nat b\<bar> \<le> 1 / 2"
      using b by (rule round_div_nearest)
    then have "\<bar>(of_nat (round_div (a * 2 ^ k) b) :: rat) - of_nat (a * 2 ^ k) / of_nat b\<bar> / 2 ^ k
                 \<le> (1 / 2) / 2 ^ k"
      by (rule divide_right_mono) simp
    moreover have "\<bar>(of_nat (round_div (a * 2 ^ k) b) :: rat) - of_nat (a * 2 ^ k) / of_nat b\<bar> / 2 ^ k
                     = \<bar>double_div a b - of_nat a / of_nat b\<bar>"
    proof -
      have "\<bar>(of_nat (round_div (a * 2 ^ k) b) :: rat) - of_nat (a * 2 ^ k) / of_nat b\<bar> / 2 ^ k
              = \<bar>((of_nat (round_div (a * 2 ^ k) b) :: rat) - of_nat (a * 2 ^ k) / of_nat b) / 2 ^ k\<bar>"
        by simp
      also have "((of_nat (round_div (a * 2 ^ k) b) :: rat) - of_nat (a * 2 ^ k) / of_nat b) / 2 ^ k
                   = double_div a b - of_nat a / of_nat b"
        using b by (simp add: dd field_simps)
      finally show ?thesis .
    qed
    moreover have "(1 / 2) / 2 ^ k = (2 :: rat) powi (e - 53)"
    proof -
      have "(2 :: rat) powi (e - 53) = inverse (2 powi int (Suc k))"
        unfolding ek by (rule power_int_minus)
      also have "\<dots> = inverse (2 ^ Suc k)" by (simp only: power_int_of_nat)
      also have "\<dots> = (1 / 2) / 2 ^ k" by (simp add: field_simps)
      finally show ?thesis by simp
    qed
    ultimately show ?thesis by (simp only: e_def)
  next
    case False
    define k where "k = nat (e - 52)"
    have kpos: "0 < k" using False by (simp add: k_def)
    have ek: "e - 53 = int (k - 1)" using False by (simp add: k_def)
    have dd: "double_div a b = of_nat (round_div a (b * 2 ^ k)) * 2 ^ k"
      using a False by (simp add: double_div_def Let_def k_def e_def)
    have "\<bar>(of_nat (round_div a (b * 2 ^ k)) :: rat) - of_nat a / of_nat (b * 2 ^ k)\<bar> \<le> 1 / 2"
      using b by (intro round_div_nearest) simp
    then have "\<bar>(of_nat (round_div a (b * 2 ^ k)) :: rat) - of_nat a / of_nat (b * 2 ^ k)\<bar> * 2 ^ k
                 \<le> (1 / 2) * 2 ^ k"
      by (rule mult_right_mono) simp
    moreover have "\<bar>(of_nat (round_div a (b * 2 ^ k)) :: rat) - of_nat a / of_nat (b * 2 ^ k)\<bar> * 2 ^ k
                     = \<bar>double_div a b - of_nat a / of_nat b\<bar>"
    proof -
      have "\<bar>(of_nat (round_div a (b * 2 ^ k)) :: rat) - of_nat a / of_nat (b * 2 ^ k)\<bar> * 2 ^ k
              = \<bar>((of_nat (round_div a (b * 2 ^ k)) :: rat) - of_nat a / of_nat (b * 2 ^ k)) * 2 ^ k\<bar>"
        by (simp add: abs_mult)
      also have "((of_nat (round_div a (b * 2 ^ k)) :: rat) - of_nat a / of_nat (b * 2 ^ k)) * 2 ^ k
                   = double_div a b - of_nat a / of_nat b"
        using b by (simp add: dd field_simps)
      finally show ?thesis .
    qed
    moreover have "(1 / 2) * 2 ^ k = (2 :: rat) powi (e - 53)"
      unfolding ek using kpos by (cases k) simp_all
    ultimately show ?thesis by (simp only: e_def)
  qed
qed


lemma to_double_nearest:
  "\<bar>(of_nat (to_double n) :: rat) - of_nat n\<bar> \<le> 2 ^ (ilog2 n - 52) / 2"
proof (cases "n < 2 ^ 53")
  case True
  then show ?thesis by (simp add: to_double_def)
next
  case False
  define u :: nat where "u = 2 ^ (ilog2 n - 52)"
  have upos: "0 < u" by (simp add: u_def)
  have td: "to_double n = u * round_div n u"
    using False by (simp add: to_double_def Let_def u_def)
  have "\<bar>(of_nat (round_div n u) :: rat) - of_nat n / of_nat u\<bar> \<le> 1 / 2"
    using upos by (rule round_div_nearest)
  then have "\<bar>(of_nat (round_div n u) :: rat) - of_nat n / of_nat u\<bar> * of_nat u
               \<le> (1 / 2) * of_nat u"
    by (rule mult_right_mono) simp
  moreover have "\<bar>(of_nat (round_div n u) :: rat) - of_nat n / of_nat u\<bar> * of_nat u
                   = \<bar>(of_nat (to_double n) :: rat) - of_nat n\<bar>"
  proof -
    have "\<bar>(of_nat (round_div n u) :: rat) - of_nat n / of_nat u\<bar> * of_nat u
            = \<bar>((of_nat (round_div n u) :: rat) - of_nat n / of_nat u) * of_nat u\<bar>"
      by (simp add: abs_mult)
    also have "((of_nat (round_div n u) :: rat) - of_nat n / of_nat u) * of_nat u
                 = of_nat (to_double n) - of_nat n"
      using upos by (simp add: td field_simps)
    finally show ?thesis .
  qed
  ultimately have "\<bar>(of_nat (to_double n) :: rat) - of_nat n\<bar> \<le> (1 / 2) * of_nat u"
    by (simp only:)
  also have "(1 / 2) * (of_nat u :: rat) = 2 ^ (ilog2 n - 52) / 2" by (simp add: u_def)
  finally show ?thesis .
qed

text \<open>Some values, among them the conversions that are not exact.\<close>

lemma double_values:
  "to_double 9007199254740993 = 9007199254740992"
  "to_double 27021597764222979 = 27021597764222980"
  "to_double 18446744073709551615 = 18446744073709551616"
  "double_div 7 5 = 3152519739159347 / 2251799813685248"
  "double_div 1 3 = 6004799503160661 / 18014398509481984"
  "double_div 18446744073709551616 3 = 6148914691236516864"
  by (simp_all add: double_eval)

section \<open>The in-memory routine and its trace\<close>

lemma compute_graph_stats_scan:
  "compute_graph_stats graph nd num_frozen_pts ep weak_threshold =
     (let s = GraphStats_default\<lparr>total_nodes := nd + num_frozen_pts, active_nodes := nd,
                frozen_nodes := num_frozen_pts, entry_point := ep\<rparr>
      in if total_nodes s = 0 then Inr s
         else case graph_scan graph nd num_frozen_pts weak_threshold of
                Inl e \<Rightarrow> Inl e
              | Inr (a, used) \<Rightarrow>
                  Inr (s\<lparr>total_edges := acc_total_edges a,
                         degree_min := final_degree_min a,
                         degree_avg := avg_of (acc_total_edges a) (total_nodes s),
                         degree_max := acc_degree_max a,
                         weak_count := acc_weak_count a\<rparr>))"
  by (simp add: compute_graph_stats_def compute_graph_stats_traced_def Let_def
        split: sum.splits prod.splits)

section \<open>Words, sums and extrema\<close>

lemma word_succ_unat: "(i::u64) < n \<Longrightarrow> unat (i + 1) = Suc (unat i)"
  by unat_arith

lemma unat_u64_bound: "unat (w :: u64) < 2 ^ 64"
  using unsigned_less [of w, where 'a = nat] by simp

lemma unat_u32_bound: "unat (w :: u32) < 2 ^ 32"
  using unsigned_less [of w, where 'a = nat] by simp

lemma unat_ucast_u32: "unat (ucast (w :: u32) :: u64) = unat w"
proof -
  have "is_up (ucast :: u32 \<Rightarrow> u64)" by (simp add: is_up)
  then have "uint (ucast w :: u64) = uint w" by (rule uint_up_ucast)
  then show ?thesis by (simp only: unat_eq_nat_uint)
qed

lemma unat_sum_list:
  fixes ds :: "u64 list"
  shows "sum_list (map unat ds) < 2 ^ 64 \<Longrightarrow> unat (sum_list ds) = sum_list (map unat ds)"
proof (induction ds)
  case Nil
  show ?case by simp
next
  case (Cons d ds)
  then have "unat (sum_list ds) = sum_list (map unat ds)" by simp
  moreover from Cons.prems have "unat d + sum_list (map unat ds) < 2 ^ LENGTH(64)" by simp
  ultimately show ?case
    by (simp add: unat_add_lem [THEN iffD1])
qed

lemma unat_Min:
  fixes S :: "u64 set"
  shows "finite S \<Longrightarrow> S \<noteq> {} \<Longrightarrow> unat (Min S) = Min (unat ` S)"
  by (rule mono_Min_commute) (simp_all add: mono_def word_le_nat_alt)

lemma unat_Max:
  fixes S :: "u64 set"
  shows "finite S \<Longrightarrow> S \<noteq> {} \<Longrightarrow> unat (Max S) = Max (unat ` S)"
  by (rule mono_Max_commute) (simp_all add: mono_def word_le_nat_alt)

lemma sum_list_ge_Min:
  fixes ls :: "nat list"
  shows "ls \<noteq> [] \<Longrightarrow> length ls * Min (set ls) \<le> sum_list ls"
proof -
  assume "ls \<noteq> []"
  have "\<And>x. x \<in> set ls \<Longrightarrow> Min (set ls) \<le> x" by simp
  then have "sum_list (map (\<lambda>x. Min (set ls)) ls) \<le> sum_list (map (\<lambda>x. x) ls)"
    by (intro sum_list_mono) simp
  then show ?thesis by (simp add: sum_list_triv)
qed

lemma sum_list_le_Max:
  fixes ls :: "nat list"
  shows "sum_list ls \<le> length ls * Max (set ls)"
proof -
  have "sum_list (map (\<lambda>x. x) ls) \<le> sum_list (map (\<lambda>x. Max (set ls)) ls)"
    by (intro sum_list_mono) simp
  then show ?thesis by (simp add: sum_list_triv)
qed

lemma elem_le_sum_list_nat:
  fixes ls :: "nat list"
  shows "x \<in> set ls \<Longrightarrow> x \<le> sum_list ls"
  by (induction ls) auto

section \<open>The accumulators over a list of degrees\<close>

lemma fold_accum_total:
  "acc_total_edges (fold (accum_add wt) ds a) = acc_total_edges a + sum_list ds"
  by (induction ds arbitrary: a) (simp_all add: accum_add_def add.assoc)

lemma fold_accum_min_fold:
  "acc_degree_min (fold (accum_add wt) ds a) = fold min ds (acc_degree_min a)"
  by (induction ds arbitrary: a) (auto simp: accum_add_def min_def)

lemma fold_accum_min:
  "acc_degree_min (fold (accum_add wt) ds a) = Min (insert (acc_degree_min a) (set ds))"
  using Min.set_eq_fold [of "acc_degree_min a" ds] by (simp add: fold_accum_min_fold)

lemma fold_accum_max_fold:
  "acc_degree_max (fold (accum_add wt) ds a) = fold max ds (acc_degree_max a)"
  by (induction ds arbitrary: a) (auto simp: accum_add_def max_def)

lemma fold_accum_max:
  "acc_degree_max (fold (accum_add wt) ds a) = Max (insert (acc_degree_max a) (set ds))"
  using Max.set_eq_fold [of "acc_degree_max a" ds] by (simp add: fold_accum_max_fold)

lemma fold_accum_weak:
  "acc_weak_count (fold (accum_add wt) ds a) =
     acc_weak_count a + of_nat (length (filter (\<lambda>d. d < wt) ds))"
  by (induction ds arbitrary: a) (simp_all add: accum_add_def add.assoc)

lemma accum_fold_edges_nat:
  assumes "sum_list (map unat ds) < 2 ^ 64"
  shows "unat (acc_total_edges (fold (accum_add wt) ds accum_init)) = sum_list (map unat ds)"
  using assms by (simp add: fold_accum_total accum_init_def unat_sum_list)

lemma accum_fold_max_nat:
  assumes "ds \<noteq> []"
  shows "unat (acc_degree_max (fold (accum_add wt) ds accum_init)) = Max (set (map unat ds))"
proof -
  have "Max (insert 0 (set ds)) = max 0 (Max (set ds))"
    by (rule Max_insert) (use assms in simp_all)
  then have "Max (insert 0 (set ds)) = Max (set ds)"
    by (simp add: max_def)
  then show ?thesis
    using assms by (simp add: fold_accum_max accum_init_def unat_Max)
qed

lemma accum_fold_min_word:
  assumes "ds \<noteq> []"
  shows "acc_degree_min (fold (accum_add wt) ds accum_init) = Min (set ds)"
proof -
  have "Min (set ds) \<le> size_t_max"
    by (simp add: size_t_max_def)
  moreover have "Min (insert size_t_max (set ds)) = min size_t_max (Min (set ds))"
    by (rule Min_insert) (use assms in simp_all)
  ultimately have "Min (insert size_t_max (set ds)) = Min (set ds)"
    by (simp only: min_absorb2)
  then show ?thesis
    by (simp add: fold_accum_min accum_init_def)
qed

lemma accum_fold_min_nat:
  assumes "ds \<noteq> []" and "\<exists>d \<in> set ds. d \<noteq> size_t_max"
  shows "unat (final_degree_min (fold (accum_add wt) ds accum_init)) = Min (set (map unat ds))"
proof -
  from assms(2) obtain d where d: "d \<in> set ds" "d \<noteq> size_t_max" by blast
  have "Min (set ds) \<le> d" using d by simp
  moreover have "d < size_t_max"
    using d(2) by (simp add: size_t_max_def word_order.not_eq_extremum)
  ultimately have "Min (set ds) \<noteq> size_t_max" by auto
  then show ?thesis
    using assms(1) by (simp add: final_degree_min_def accum_fold_min_word unat_Min)
qed

lemma accum_fold_weak_nat:
  assumes "length ds < 2 ^ 64"
  shows "unat (acc_weak_count (fold (accum_add wt) ds accum_init))
           = length (filter (\<lambda>d. d < unat wt) (map unat ds))"
proof -
  have "length (filter (\<lambda>d. d < wt) ds) \<le> length ds" by simp
  then have "length (filter (\<lambda>d. d < wt) ds) < 2 ^ 64"
    using assms by (rule le_less_trans)
  then have "unat (of_nat (length (filter (\<lambda>d. d < wt) ds)) :: u64) = length (filter (\<lambda>d. d < wt) ds)"
    by (simp add: unat_of_nat)
  moreover have "filter (\<lambda>d. d < unat wt) (map unat ds) = map unat (filter (\<lambda>d. d < wt) ds)"
    by (simp add: filter_map comp_def word_less_nat_alt)
  ultimately show ?thesis
    by (simp add: fold_accum_weak accum_init_def)
qed

section \<open>The in-memory loop\<close>

lemma graph_loop_in_range:
  "unat tot \<le> length graph \<Longrightarrow> i \<le> tot \<Longrightarrow>
   graph_loop graph tot wt i (a, used) =
     Inr (fold (accum_add wt) (map (\<lambda>l. of_nat (length l)) (drop (unat i) (take (unat tot) graph))) a,
          used @ [unat i ..< unat tot])"
proof (induction graph tot wt i "(a, used)" arbitrary: a used rule: graph_loop.induct)
  case (1 graph tot wt i a used)
  show ?case
  proof (cases "i < tot")
    case True
    then have suc: "unat (i + 1) = Suc (unat i)" by (rule word_succ_unat)
    from True have lt: "unat i < unat tot" by (simp add: word_less_nat_alt)
    with "1.prems" have inr: "unat i < length graph" by simp
    from True have le: "i + 1 \<le> tot" by (rule inc_le)
    have d: "drop (unat i) (take (unat tot) graph) =
               graph ! unat i # drop (Suc (unat i)) (take (unat tot) graph)"
      using lt inr by (metis Cons_nth_drop_Suc length_take min.absorb2 nth_take "1.prems"(1))
    have u: "[unat i ..< unat tot] = unat i # [Suc (unat i) ..< unat tot]"
      using lt by (simp add: upt_conv_Cons)
    show ?thesis
      using True inr "1.hyps" [OF True inr "1.prems"(1) le]
      by (subst graph_loop.simps) (simp add: suc d u)
  next
    case False
    with "1.prems" have "i = tot" by simp
    then show ?thesis by (subst graph_loop.simps) simp
  qed
qed

lemma graph_loop_out_of_range:
  "length graph < unat tot \<Longrightarrow> unat i \<le> length graph \<Longrightarrow>
   graph_loop graph tot wt i (a, used) = Inl OutOfRange"
proof (induction graph tot wt i "(a, used)" arbitrary: a used rule: graph_loop.induct)
  case (1 graph tot wt i a used)
  from "1.prems" have lt: "i < tot" by (simp add: word_less_nat_alt)
  then have suc: "unat (i + 1) = Suc (unat i)" by (rule word_succ_unat)
  show ?case
  proof (cases "unat i < length graph")
    case True
    then show ?thesis
      using lt "1.hyps" [OF lt True "1.prems"(1)] suc
      by (subst graph_loop.simps) simp
  next
    case False
    then show ?thesis using lt by (subst graph_loop.simps) simp
  qed
qed

lemma graph_scan_in_range:
  assumes "unat (nd + nf) \<le> length graph"
  shows "graph_scan graph nd nf wt =
           Inr (fold (accum_add (ucast wt))
                  (map (\<lambda>l. of_nat (length l)) (take (unat (nd + nf)) graph)) accum_init,
                [0 ..< unat (nd + nf)])"
  using graph_loop_in_range [OF assms, of 0 "ucast wt" accum_init "[]"]
  by (simp add: graph_scan_def)

section \<open>The stream and the scan loop\<close>

lemma sint_small_u64:
  fixes w :: u64
  assumes "unat w < 2 ^ 63"
  shows "sint w = int (unat w)"
proof -
  have "int (unat w) < int (2 ^ 63)" using assms by (simp only: of_nat_less_iff)
  then have "uint w < 2 ^ 63" by simp
  moreover have "0 \<le> uint w" by simp
  ultimately have "signed_take_bit 63 (uint w) = uint w"
    by (intro signed_take_bit_int_eq_self) linarith+
  then show ?thesis by (simp add: sint_uint)
qed

lemma unat_skip:
  fixes k :: u32
  shows "unat (ucast k * 4 :: u64) = 4 * unat k"
proof -
  have "unat (ucast k :: u64) * unat (4 :: u64) < 2 ^ LENGTH(64)"
    using unat_u32_bound [of k] by (simp add: unat_ucast_u32)
  then have "unat (ucast k * 4 :: u64) = unat (ucast k :: u64) * unat (4 :: u64)"
    by (simp only: unat_mult_lem [THEN iffD1])
  then show ?thesis by (simp add: unat_ucast_u32)
qed

lemma sint_skip:
  fixes k :: u32
  shows "sint (ucast k * 4 :: u64) = int (4 * unat k)"
proof -
  have "unat (ucast k * 4 :: u64) < 2 ^ 63"
    using unat_u32_bound [of k] by (simp add: unat_skip)
  then show ?thesis by (simp add: sint_small_u64 unat_skip)
qed

lemma seekg_cur_skip:
  fixes k :: u32
  assumes "good s"
  shows "seekg_cur (ucast k * 4) s = s\<lparr>pos := pos s + 4 * unat k\<rparr>"
proof -
  have "nat (int (pos s) + sint (ucast k * 4 :: u64)) = pos s + 4 * unat k"
    by (simp only: sint_skip flip: of_nat_add) simp?
  moreover have "\<not> int (pos s) + sint (ucast k * 4 :: u64) < 0"
    by (simp only: sint_skip flip: of_nat_add) simp?
  ultimately show ?thesis
    using assms by (simp only: seekg_cur_def if_False if_True not_not simp_thms)
qed

lemma read_bytes_enough:
  "good s \<Longrightarrow> pos s + n \<le> length (content s) \<Longrightarrow>
   read_bytes n s = (take n (drop (pos s) (content s)), s\<lparr>pos := pos s + n\<rparr>)"
  by (simp add: read_bytes_def)

lemma read_bytes_short:
  "good s \<Longrightarrow> length (content s) < pos s + n \<Longrightarrow> \<not> good (snd (read_bytes n s))"
  by (simp add: read_bytes_def)

lemma read_bytes_failed:
  "\<not> good s \<Longrightarrow> read_bytes n s = ([], s)"
  by (simp add: read_bytes_def)

lemma read_u32_enough:
  "good s \<Longrightarrow> pos s + 4 \<le> length (content s) \<Longrightarrow>
   read_u32 s = (le_word (take 4 (drop (pos s) (content s))), s\<lparr>pos := pos s + 4\<rparr>)"
  by (simp add: read_u32_def read_bytes_enough)

lemma read_u32_short:
  "good s \<Longrightarrow> length (content s) < pos s + 4 \<Longrightarrow> \<not> good (snd (read_u32 s))"
  using read_bytes_short [of s 4] by (simp add: read_u32_def split_beta)

lemma read_u64_enough:
  "good s \<Longrightarrow> pos s + 8 \<le> length (content s) \<Longrightarrow>
   read_u64 s = (le_word (take 8 (drop (pos s) (content s))), s\<lparr>pos := pos s + 8\<rparr>)"
  by (simp add: read_u64_def read_bytes_enough)

lemma read_u64_short:
  "good s \<Longrightarrow> length (content s) < pos s + 8 \<Longrightarrow> \<not> good (snd (read_u64 s))"
  using read_bytes_short [of s 8] by (simp add: read_u64_def split_beta)

text \<open>One round of the scan loop, unfolded.\<close>

lemma scan_loop_stop:
  "bytes_read st = e \<or> \<not> good (scan_in st) \<Longrightarrow> scan_loop e st = Some st"
  by (subst scan_loop.simps) auto

lemma scan_loop_short:
  assumes "bytes_read st \<noteq> e" "good (scan_in st)"
    and "length (content (scan_in st)) < pos (scan_in st) + 4"
  shows "scan_loop e st = Some (st\<lparr>scan_in := snd (read_u32 (scan_in st))\<rparr>)"
  using assms read_u32_short [of "scan_in st"]
  by (subst scan_loop.simps) (simp add: scan_body_def split_beta)

lemma scan_loop_step:
  assumes "bytes_read st \<noteq> e" "good (scan_in st)"
    and "pos (scan_in st) + 4 \<le> length (content (scan_in st))"
  defines "k \<equiv> (le_word (take 4 (drop (pos (scan_in st)) (content (scan_in st)))) :: u32)"
  shows "scan_loop e st =
           scan_loop e \<lparr>scan_in = (scan_in st)\<lparr>pos := pos (scan_in st) + 4 + 4 * unat k\<rparr>,
                        bytes_read = bytes_read st + (4 + ucast k * 4),
                        scan_acc = accum_add 2 (ucast k) (scan_acc st),
                        nodes = nodes st + 1\<rparr>"
  using assms(1-3) unfolding k_def
  by (subst scan_loop.simps, cases st)
     (simp add: scan_body_def read_u32_enough seekg_cur_skip Let_def add.assoc)

lemma scan_loop_returns: "\<exists>st'. scan_loop e st = Some st'"
proof (induction "length (content (scan_in st)) - pos (scan_in st)" arbitrary: st rule: less_induct)
  case less
  show ?case
  proof (cases "bytes_read st = e \<or> \<not> good (scan_in st)")
    case True
    then show ?thesis by (simp add: scan_loop_stop)
  next
    case False
    then have c: "bytes_read st \<noteq> e" "good (scan_in st)" by simp_all
    show ?thesis
    proof (cases "pos (scan_in st) + 4 \<le> length (content (scan_in st))")
      case True
      show ?thesis
        unfolding scan_loop_step [OF c True]
        by (rule less) (use True in simp)
    next
      case False
      then show ?thesis using c by (simp add: scan_loop_short)
    qed
  qed
qed

section \<open>The scan loop against the degree fields of the body\<close>

lemma ucast_u32_mono: "mono (ucast :: u32 \<Rightarrow> u64)"
  by (simp add: mono_def word_le_nat_alt unat_ucast_u32)

lemma ucast_u32_less_iff: "(ucast (a :: u32) :: u64) < ucast (b :: u32) \<longleftrightarrow> a < b"
  by (simp add: word_less_nat_alt unat_ucast_u32)

lemma ucast_u32_less_2: "(ucast (a :: u32) :: u64) < 2 \<longleftrightarrow> a < 2"
  using ucast_u32_less_iff [of a 2] by simp

lemma ucast_u32_not_max: "(ucast (a :: u32) :: u64) \<noteq> size_t_max"
proof
  assume "(ucast a :: u64) = size_t_max"
  then have "unat (ucast a :: u64) = unat size_t_max" by simp
  then show False
    using unat_u32_bound [of a]
    by (simp add: unat_ucast_u32 size_t_max_def unsigned_minus_1_eq_mask mask_eq_exp_minus_1)
qed

lemma accum_fold_u32:
  fixes ds :: "u32 list"
  defines "a \<equiv> fold (accum_add 2) (map ucast ds) accum_init"
  shows "acc_total_edges a = sum_list (map ucast ds)"
    and "final_degree_min a = (if ds = [] then 0 else ucast (Min (set ds)))"
    and "acc_degree_max a = (if ds = [] then 0 else ucast (Max (set ds)))"
    and "acc_weak_count a = of_nat (length (filter (\<lambda>d. d < 2) ds))"
proof -
  show "acc_total_edges a = sum_list (map ucast ds)"
    by (simp add: a_def fold_accum_total accum_init_def)
  show "final_degree_min a = (if ds = [] then 0 else ucast (Min (set ds)))"
  proof (cases "ds = []")
    case True
    then show ?thesis by (simp add: a_def final_degree_min_def accum_init_def)
  next
    case False
    then have ne: "map ucast ds \<noteq> ([] :: u64 list)" by simp
    have m: "acc_degree_min a = ucast (Min (set ds))"
      using False accum_fold_min_word [OF ne, of 2]
        mono_Min_commute [OF ucast_u32_mono, of "set ds"]
      by (simp add: a_def)
    show ?thesis
      using False by (simp add: final_degree_min_def m ucast_u32_not_max)
  qed
  show "acc_degree_max a = (if ds = [] then 0 else ucast (Max (set ds)))"
  proof (cases "ds = []")
    case True
    then show ?thesis by (simp add: a_def accum_init_def)
  next
    case False
    have "Max (insert 0 (set (map ucast ds))) = max (0 :: u64) (Max (set (map ucast ds)))"
      by (rule Max_insert) (use False in simp_all)
    then have "acc_degree_max a = Max (set (map ucast ds))"
      by (simp add: a_def fold_accum_max accum_init_def max_def)
    then show ?thesis
      using False mono_Max_commute [OF ucast_u32_mono, of "set ds"] by simp
  qed
  have "filter (\<lambda>d. d < 2) (map ucast ds) = map (ucast :: u32 \<Rightarrow> u64) (filter (\<lambda>d. d < 2) ds)"
    by (simp add: filter_map comp_def ucast_u32_less_2)
  then show "acc_weak_count a = of_nat (length (filter (\<lambda>d. d < 2) ds))"
    by (simp add: a_def fold_accum_weak accum_init_def)
qed

lemma degree_fields_stop:
  "counter = e \<or> length bs < 4 \<Longrightarrow> degree_fields e counter bs = []"
  by (subst degree_fields.simps) auto

lemma degree_fields_step:
  "counter \<noteq> e \<Longrightarrow> 4 \<le> length bs \<Longrightarrow>
   degree_fields e counter bs =
     le_word (take 4 bs) #
     degree_fields e (counter + (4 + ucast (le_word (take 4 bs) :: u32) * 4))
       (drop (4 + 4 * unat (le_word (take 4 bs) :: u32)) bs)"
  by (subst degree_fields.simps) (simp add: Let_def)

lemma scan_loop_degree_fields:
  assumes "good (scan_in st)"
  shows "\<exists>st'. scan_loop e st = Some st'
           \<and> nodes st' = nodes st + of_nat (length (degree_fields e (bytes_read st)
                                        (drop (pos (scan_in st)) (content (scan_in st)))))
           \<and> scan_acc st' = fold (accum_add 2)
                 (map ucast (degree_fields e (bytes_read st)
                               (drop (pos (scan_in st)) (content (scan_in st)))))
                 (scan_acc st)"
  using assms
proof (induction "length (content (scan_in st)) - pos (scan_in st)" arbitrary: st rule: less_induct)
  case less
  let ?bs = "drop (pos (scan_in st)) (content (scan_in st))"
  show ?case
  proof (cases "bytes_read st = e")
    case True
    then show ?thesis by (simp add: scan_loop_stop degree_fields_stop)
  next
    case ne: False
    show ?thesis
    proof (cases "pos (scan_in st) + 4 \<le> length (content (scan_in st))")
      case False
      then have "length ?bs < 4" by simp
      then show ?thesis
        using ne less.prems False by (simp add: scan_loop_short degree_fields_stop)
    next
      case True
      define k :: u32 where "k = le_word (take 4 ?bs)"
      define st1 where "st1 = \<lparr>scan_in = (scan_in st)\<lparr>pos := pos (scan_in st) + 4 + 4 * unat k\<rparr>,
                        bytes_read = bytes_read st + (4 + ucast k * 4),
                        scan_acc = accum_add 2 (ucast k) (scan_acc st),
                        nodes = nodes st + 1\<rparr>"
      have step: "scan_loop e st = scan_loop e st1"
        using scan_loop_step [OF ne less.prems True] by (simp add: st1_def k_def)
      have len: "4 \<le> length ?bs" using True by simp
      have df: "degree_fields e (bytes_read st) ?bs =
                  k # degree_fields e (bytes_read st1) (drop (pos (scan_in st1)) (content (scan_in st1)))"
        using degree_fields_step [OF ne len]
        by (simp add: k_def st1_def ac_simps)
      have "length (content (scan_in st1)) - pos (scan_in st1)
              < length (content (scan_in st)) - pos (scan_in st)"
        using True by (simp add: st1_def)
      moreover have "good (scan_in st1)" using less.prems by (simp add: st1_def)
      ultimately obtain st' where st': "scan_loop e st1 = Some st'"
        "nodes st' = nodes st1 + of_nat (length (degree_fields e (bytes_read st1)
                                        (drop (pos (scan_in st1)) (content (scan_in st1)))))"
        "scan_acc st' = fold (accum_add 2)
                 (map ucast (degree_fields e (bytes_read st1)
                               (drop (pos (scan_in st1)) (content (scan_in st1)))))
                 (scan_acc st1)"
        using less.hyps [of st1] by blast
      show ?thesis
        using st' step by (simp add: df) (simp add: st1_def)
    qed
  qed
qed

section \<open>Reading the header\<close>

lemma read_bytes_good_iff:
  "good (snd (read_bytes n s)) \<longleftrightarrow> good s \<and> pos s + n \<le> length (content s)"
  by (simp add: read_bytes_def)

lemma read_bytes_content: "content (snd (read_bytes n s)) = content s"
  by (simp add: read_bytes_def)

lemma read_bytes_pos:
  "good (snd (read_bytes n s)) \<Longrightarrow> pos (snd (read_bytes n s)) = pos s + n"
  by (simp add: read_bytes_def split: if_splits)

lemma read_bytes_value:
  "good (snd (read_bytes n s)) \<Longrightarrow> fst (read_bytes n s) = take n (drop (pos s) (content s))"
  by (simp add: read_bytes_def split: if_splits)

lemma read_u32_good_iff:
  "good (snd (read_u32 s)) \<longleftrightarrow> good s \<and> pos s + 4 \<le> length (content s)"
  by (simp add: read_u32_def split_beta read_bytes_good_iff)

lemma read_u32_content: "content (snd (read_u32 s)) = content s"
  by (simp add: read_u32_def split_beta read_bytes_content)

lemma read_u32_pos: "good (snd (read_u32 s)) \<Longrightarrow> pos (snd (read_u32 s)) = pos s + 4"
  by (simp add: read_u32_def split_beta read_bytes_pos)

lemma read_u32_value:
  "good (snd (read_u32 s)) \<Longrightarrow> fst (read_u32 s) = le_word (take 4 (drop (pos s) (content s)))"
  by (simp add: read_u32_def split_beta read_bytes_value)

lemma read_u64_good_iff:
  "good (snd (read_u64 s)) \<longleftrightarrow> good s \<and> pos s + 8 \<le> length (content s)"
  by (simp add: read_u64_def split_beta read_bytes_good_iff)

lemma read_u64_content: "content (snd (read_u64 s)) = content s"
  by (simp add: read_u64_def split_beta read_bytes_content)

lemma read_u64_pos: "good (snd (read_u64 s)) \<Longrightarrow> pos (snd (read_u64 s)) = pos s + 8"
  by (simp add: read_u64_def split_beta read_bytes_pos)

lemma read_u64_value:
  "good (snd (read_u64 s)) \<Longrightarrow> fst (read_u64 s) = le_word (take 8 (drop (pos s) (content s)))"
  by (simp add: read_u64_def split_beta read_bytes_value)

lemmas read_simps =
  read_u32_good_iff read_u32_content read_u32_pos read_u32_value
  read_u64_good_iff read_u64_content read_u64_pos read_u64_value

lemma seekg_beg_open:
  "seekg_beg offset (open_stream bytes) =
     (if sint offset < 0 then \<lparr>content = bytes, pos = 0, good = False\<rparr>
      else \<lparr>content = bytes, pos = unat offset, good = True\<rparr>)"
  by (simp add: seekg_beg_def open_stream_def)

text \<open>The four reads of the 24-byte header.\<close>

lemma graph_header_reads:
  fixes s :: ifstream
  defines "r1 \<equiv> read_u64 s"
  defines "r2 \<equiv> read_u32 (snd r1)"
  defines "r3 \<equiv> read_u32 (snd r2)"
  defines "r4 \<equiv> read_u64 (snd r3)"
  shows "good (snd r4) \<longleftrightarrow> good s \<and> pos s + 24 \<le> length (content s)"
    and "good (snd r4) \<Longrightarrow> content (snd r4) = content s \<and> pos (snd r4) = pos s + 24
           \<and> fst r1 = le_word (take 8 (drop (pos s) (content s)))
           \<and> fst r3 = le_word (take 4 (drop (pos s + 12) (content s)))
           \<and> fst r4 = le_word (take 8 (drop (pos s + 16) (content s)))"
proof -
  show g: "good (snd r4) \<longleftrightarrow> good s \<and> pos s + 24 \<le> length (content s)"
    unfolding r4_def r3_def r2_def r1_def
    by (auto simp: read_simps)
  assume "good (snd r4)"
  then have g4: "good (snd r4)" and g3: "good (snd r3)" and g2: "good (snd r2)" and g1: "good (snd r1)"
    unfolding r4_def r3_def r2_def r1_def by (auto simp: read_simps)
  have p1: "pos (snd r1) = pos s + 8" using g1 by (simp add: r1_def read_simps)
  have p2: "pos (snd r2) = pos s + 12" using g2 p1 by (simp add: r2_def read_u32_pos)
  have p3: "pos (snd r3) = pos s + 16" using g3 p2 by (simp add: r3_def read_u32_pos)
  have p4: "pos (snd r4) = pos s + 24" using g4 p3 by (simp add: r4_def read_u64_pos)
  have c: "content (snd r4) = content s" "content (snd r3) = content s"
    "content (snd r2) = content s" "content (snd r1) = content s"
    by (simp_all add: r4_def r3_def r2_def r1_def read_simps)
  have v1: "fst r1 = le_word (take 8 (drop (pos s) (content s)))"
    using g1 by (simp add: r1_def read_u64_value)
  have v3: "fst r3 = le_word (take 4 (drop (pos s + 12) (content s)))"
    using g3 p2 c by (simp add: r3_def read_u32_value)
  have v4: "fst r4 = le_word (take 8 (drop (pos s + 16) (content s)))"
    using g4 p3 c by (simp add: r4_def read_u64_value)
  show "content (snd r4) = content s \<and> pos (snd r4) = pos s + 24
           \<and> fst r1 = le_word (take 8 (drop (pos s) (content s)))
           \<and> fst r3 = le_word (take 4 (drop (pos s + 12) (content s)))
           \<and> fst r4 = le_word (take 8 (drop (pos s + 16) (content s)))"
    using c p4 v1 v3 v4 by simp
qed

section \<open>The sequential scanner as a whole\<close>

lemma from_file_readable:
  assumes "0 \<le> sint offset" and "unat offset + 24 \<le> length bytes"
  shows "compute_graph_stats_from_file (Some bytes) offset = Some (scanned_stats bytes (unat offset))"
proof -
  define s where "s = \<lparr>content = bytes, pos = unat offset, good = True\<rparr>"
  define r1 where "r1 = read_u64 s"
  define r2 where "r2 = read_u32 (snd r1)"
  define r3 where "r3 = read_u32 (snd r2)"
  define r4 where "r4 = read_u64 (snd r3)"
  have seek: "seekg_beg offset (open_stream bytes) = s"
    using assms(1) by (simp add: seekg_beg_open s_def)
  have gs: "good s" by (simp add: s_def)
  have g4: "good (snd r4)"
    using graph_header_reads(1) [of s] assms(2) by (simp add: r4_def r3_def r2_def r1_def s_def)
  then have h: "content (snd r4) = bytes" "pos (snd r4) = unat offset + 24"
    "fst r1 = header_expected_total_size bytes (unat offset)"
    "fst r3 = header_entry_point bytes (unat offset)"
    "fst r4 = header_frozen_count bytes (unat offset)"
    using graph_header_reads(2) [of s]
    by (simp_all add: r4_def r3_def r2_def r1_def s_def header_expected_total_size_def
          header_entry_point_def header_frozen_count_def)
  define st0 where "st0 = \<lparr>scan_in = snd r4, bytes_read = 24, scan_acc = accum_init, nodes = 0\<rparr>"
  define ds where "ds = degree_fields (fst r1) 24 (graph_body bytes (unat offset))"
  have "good (scan_in st0)" using g4 by (simp add: st0_def)
  from scan_loop_degree_fields [OF this, of "fst r1"]
  obtain st' where st': "scan_loop (fst r1) st0 = Some st'"
    "nodes st' = of_nat (length ds)"
    "scan_acc st' = fold (accum_add 2) (map ucast ds) accum_init"
    by (auto simp: st0_def h ds_def graph_body_def)
  have "compute_graph_stats_from_file (Some bytes) offset =
          Some \<lparr>total_nodes = nodes st',
                active_nodes = (if nodes st' \<ge> fst r4 then nodes st' - fst r4 else 0),
                frozen_nodes = fst r4,
                total_edges = acc_total_edges (scan_acc st'),
                degree_min = final_degree_min (scan_acc st'),
                degree_avg = (if nodes st' > 0
                              then avg_of (acc_total_edges (scan_acc st')) (nodes st') else 0),
                degree_max = acc_degree_max (scan_acc st'),
                weak_count = acc_weak_count (scan_acc st'),
                entry_point = fst r3\<rparr>"
    using g4 st'(1) gs
    by (simp add: compute_graph_stats_from_file_def seek split_beta Let_def
          flip: r1_def r2_def r3_def r4_def st0_def)
  also have "\<dots> = Some (scanned_stats bytes (unat offset))"
    using h(3-5) by (simp add: st' accum_fold_u32 scanned_stats_def stats_of_degrees_def Let_def ds_def)
  finally show ?thesis .
qed

lemma from_file_unreadable:
  assumes "file = None \<or> (\<exists>bytes. file = Some bytes \<and> (sint offset < 0 \<or> length bytes < unat offset + 24))"
  shows "compute_graph_stats_from_file file offset = Some GraphStats_default"
proof (cases "file")
  case None
  then show ?thesis by (simp add: compute_graph_stats_from_file_def)
next
  case (Some bytes)
  show ?thesis
  proof (cases "sint offset < 0")
    case True
    then show ?thesis
      by (simp add: Some compute_graph_stats_from_file_def seekg_beg_open)
  next
    case False
    define s where "s = \<lparr>content = bytes, pos = unat offset, good = True\<rparr>"
    have seek: "seekg_beg offset (open_stream bytes) = s"
      using False by (simp add: seekg_beg_open s_def)
    have short: "length bytes < unat offset + 24" using assms Some False by simp
    have "\<not> good (snd (read_u64 (snd (read_u32 (snd (read_u32 (snd (read_u64 s))))))))"
      using graph_header_reads(1) [of s] short by (simp add: s_def)
    then show ?thesis
      by (simp add: Some compute_graph_stats_from_file_def seek split_beta Let_def s_def)
  qed
qed

section \<open>Streams of well-formed records\<close>

lemma record_stream_Cons:
  "record_stream (r # rs) = fst r @ snd r @ record_stream rs"
  by (simp add: record_stream_def)

lemma degree_fields_record_stream:
  assumes "\<forall>r \<in> set rs. record_ok r"
    and "unat c + (\<Sum>r\<leftarrow>rs. 4 + 4 * unat (record_degree r)) \<le> unat e"
    and "unat c + (\<Sum>r\<leftarrow>rs. 4 + 4 * unat (record_degree r)) = unat e \<or> length tail < 4"
  shows "degree_fields e c (record_stream rs @ tail) = map record_degree rs"
  using assms
proof (induction rs arbitrary: c)
  case Nil
  then have "c = e \<or> length tail < 4" by (auto simp: word_unat_eq_iff)
  then show ?case by (simp add: record_stream_def degree_fields_stop)
next
  case (Cons r rs)
  let ?bs = "record_stream (r # rs) @ tail"
  let ?k = "record_degree r"
  from Cons.prems(1) have ok: "length (fst r) = 4" "length (snd r) = 4 * unat ?k"
    by (simp_all add: record_ok_def)
  have tk: "take 4 ?bs = fst r" using ok by (simp add: record_stream_Cons)
  have dr: "drop (4 + 4 * unat ?k) ?bs = record_stream rs @ tail"
    using ok by (simp add: record_stream_Cons)
  have lt: "unat c + (4 + 4 * unat ?k) \<le> unat e" using Cons.prems(2) by simp
  then have ne: "c \<noteq> e" by auto
  have len: "4 \<le> length ?bs" using ok by (simp add: record_stream_Cons)
  have "unat e < 2 ^ 64" by (rule unat_u64_bound)
  with lt have b: "unat c + unat (4 + ucast ?k * 4 :: u64) < 2 ^ LENGTH(64)"
    "unat (4 + ucast ?k * 4 :: u64) = 4 + 4 * unat ?k"
  proof -
    have "unat (4 :: u64) + unat (ucast ?k * 4 :: u64) < 2 ^ LENGTH(64)"
      using unat_u32_bound [of ?k] by (simp add: unat_skip)
    then have "unat (4 + ucast ?k * 4 :: u64) = unat (4 :: u64) + unat (ucast ?k * 4 :: u64)"
      by (simp only: unat_add_lem [THEN iffD1])
    then show u: "unat (4 + ucast ?k * 4 :: u64) = 4 + 4 * unat ?k"
      by (simp add: unat_skip)
    show "unat c + unat (4 + ucast ?k * 4 :: u64) < 2 ^ LENGTH(64)"
      using lt \<open>unat e < 2 ^ 64\<close> by (simp add: u)
  qed
  have c': "unat (c + (4 + ucast ?k * 4)) = unat c + (4 + 4 * unat ?k)"
    using b by (simp only: unat_add_lem [THEN iffD1])
  have ih: "degree_fields e (c + (4 + ucast ?k * 4)) (record_stream rs @ tail) = map record_degree rs"
  proof (rule Cons.IH)
    show "\<forall>r \<in> set rs. record_ok r" using Cons.prems(1) by simp
    show "unat (c + (4 + ucast ?k * 4)) + (\<Sum>r\<leftarrow>rs. 4 + 4 * unat (record_degree r)) \<le> unat e"
      using Cons.prems(2) by (simp add: c')
    show "unat (c + (4 + ucast ?k * 4)) + (\<Sum>r\<leftarrow>rs. 4 + 4 * unat (record_degree r)) = unat e
            \<or> length tail < 4"
      using Cons.prems(3) by (simp add: c' add.assoc)
  qed
  have "degree_fields e c ?bs =
          le_word (take 4 ?bs) #
          degree_fields e (c + (4 + ucast (le_word (take 4 ?bs) :: u32) * 4))
            (drop (4 + 4 * unat (le_word (take 4 ?bs) :: u32)) ?bs)"
    using ne len by (rule degree_fields_step)
  also have "le_word (take 4 ?bs) = ?k"
    by (simp only: tk record_degree_def)
  also note dr
  also note ih
  finally show ?case by simp
qed

lemma degree_fields_prefix_of_records:
  assumes ok: "\<forall>r \<in> set recs. record_ok r"
    and size: "unat e = stream_size recs"
    and k: "k \<le> length recs"
    and cut: "k < length recs \<longrightarrow> length tail < 4"
  shows "degree_fields e 24 (record_stream (take k recs) @ tail) = map record_degree (take k recs)"
proof (rule degree_fields_record_stream)
  let ?w = "\<lambda>r. 4 + 4 * unat (record_degree r)"
  show "\<forall>r \<in> set (take k recs). record_ok r"
    using ok by (meson in_set_takeD)
  have split: "sum_list (map ?w recs) = sum_list (map ?w (take k recs)) + sum_list (map ?w (drop k recs))"
  proof -
    have "map ?w recs = map ?w (take k recs) @ map ?w (drop k recs)"
      by (simp flip: map_append)
    then show ?thesis by (simp only: sum_list_append)
  qed
  show "unat (24 :: u64) + sum_list (map ?w (take k recs)) \<le> unat e"
    using split by (simp add: size stream_size_def)
  show "unat (24 :: u64) + sum_list (map ?w (take k recs)) = unat e \<or> length tail < 4"
  proof (cases "k < length recs")
    case True
    with cut show ?thesis by simp
  next
    case False
    with k have "take k recs = recs" by simp
    then show ?thesis by (simp add: size stream_size_def)
  qed
qed

lemma complete_records_stop:
  "counter = e \<or> length bs < 4 \<Longrightarrow> complete_records e counter bs = []"
  by (subst complete_records.simps) auto

lemma complete_records_cut:
  "length bs < 4 + 4 * unat (le_word (take 4 bs) :: u32) \<Longrightarrow> complete_records e counter bs = []"
  by (subst complete_records.simps) (simp add: Let_def)

section \<open>Resolving the header of a disk-paged index\<close>

lemma read_geometry_good_iff:
  "good (snd (read_geometry s)) \<longleftrightarrow> good s \<and> pos s + 40 \<le> length (content s)"
  by (auto simp: read_geometry_def split_beta read_simps)

lemma read_geometry_value:
  assumes "good (snd (read_geometry s))"
  shows "fst (read_geometry s) = geometry_at (content s) (pos s)"
    and "content (snd (read_geometry s)) = content s"
proof -
  define r1 where "r1 = read_u64 s"
  define r2 where "r2 = read_u64 (snd r1)"
  define r3 where "r3 = read_u64 (snd r2)"
  define r4 where "r4 = read_u64 (snd r3)"
  define r5 where "r5 = read_u64 (snd r4)"
  have rg: "read_geometry s =
      (\<lparr>disk_nnodes = fst r1, disk_ndims = fst r2, medoid_id_on_file = fst r3,
         max_node_len = fst r4, nnodes_per_sector = fst r5\<rparr>, snd r5)"
    by (simp add: read_geometry_def split_beta r1_def r2_def r3_def r4_def r5_def)
  from assms have g5: "good (snd r5)" by (simp add: rg)
  then have g4: "good (snd r4)" by (simp add: r5_def read_simps)
  then have g3: "good (snd r3)" by (simp add: r4_def read_simps)
  then have g2: "good (snd r2)" by (simp add: r3_def read_simps)
  then have g1: "good (snd r1)" by (simp add: r2_def read_simps)
  have c: "content (snd r1) = content s" "content (snd r2) = content s"
    "content (snd r3) = content s" "content (snd r4) = content s" "content (snd r5) = content s"
    by (simp_all add: r1_def r2_def r3_def r4_def r5_def read_simps)
  have p1: "pos (snd r1) = pos s + 8" using g1 by (simp add: r1_def read_u64_pos)
  have p2: "pos (snd r2) = pos s + 16" using g2 p1 by (simp add: r2_def read_u64_pos)
  have p3: "pos (snd r3) = pos s + 24" using g3 p2 by (simp add: r3_def read_u64_pos)
  have p4: "pos (snd r4) = pos s + 32" using g4 p3 by (simp add: r4_def read_u64_pos)
  have v1: "fst r1 = le_word (take 8 (drop (pos s) (content s)))"
    using g1 by (simp add: r1_def read_u64_value)
  have v2: "fst r2 = le_word (take 8 (drop (pos s + 8) (content s)))"
    using g2 p1 c by (simp add: r2_def read_u64_value)
  have v3: "fst r3 = le_word (take 8 (drop (pos s + 16) (content s)))"
    using g3 p2 c by (simp add: r3_def read_u64_value)
  have v4: "fst r4 = le_word (take 8 (drop (pos s + 24) (content s)))"
    using g4 p3 c by (simp add: r4_def read_u64_value)
  have v5: "fst r5 = le_word (take 8 (drop (pos s + 32) (content s)))"
    using g5 p4 c by (simp add: r5_def read_u64_value)
  show "fst (read_geometry s) = geometry_at (content s) (pos s)"
    by (simp add: rg geometry_at_def v1 v2 v3 v4 v5)
  show "content (snd (read_geometry s)) = content s"
    by (simp add: rg c)
qed

text \<open>The two tag reads on a freshly opened file.\<close>

lemma tag_reads:
  fixes bytes :: "byte list"
  defines "r1 \<equiv> read_u32 (open_stream bytes)"
  defines "r2 \<equiv> read_u32 (snd r1)"
  shows "good (snd r2) \<and> 5 \<le> sint (fst r1) \<longleftrightarrow> tagged_layout bytes"
    and "good (snd r2) \<Longrightarrow> snd r2 = \<lparr>content = bytes, pos = 8, good = True\<rparr>"
    and "content (snd r2) = bytes"
proof -
  have g1: "good (snd r1) \<longleftrightarrow> 4 \<le> length bytes"
    by (simp add: r1_def read_simps open_stream_def)
  have p1: "good (snd r1) \<Longrightarrow> pos (snd r1) = 4"
    by (simp add: r1_def read_u32_pos open_stream_def)
  have c1: "content (snd r1) = bytes"
    by (simp add: r1_def read_simps open_stream_def)
  have "good (snd r2) \<longleftrightarrow> good (snd r1) \<and> pos (snd r1) + 4 \<le> length bytes"
    by (simp add: r2_def read_u32_good_iff c1)
  then have g: "good (snd r2) \<longleftrightarrow> 8 \<le> length bytes"
    using g1 p1 by auto
  have v: "fst r1 = le_word (take 4 bytes)" if "good (snd r2)"
  proof -
    from that have "good (snd r1)" by (simp add: r2_def read_simps)
    then show ?thesis by (simp add: r1_def read_u32_value open_stream_def)
  qed
  show "good (snd r2) \<and> 5 \<le> sint (fst r1) \<longleftrightarrow> tagged_layout bytes"
    using g v by (auto simp: tagged_layout_def)
  show c: "content (snd r2) = bytes"
    by (simp add: r2_def r1_def read_simps open_stream_def)
  assume g2: "good (snd r2)"
  then have g1: "good (snd r1)" by (simp add: r2_def read_simps)
  then have "pos (snd r1) = 4" by (simp add: r1_def read_u32_pos open_stream_def)
  then have "pos (snd r2) = 8" using g2 by (simp add: r2_def read_u32_pos)
  then show "snd r2 = \<lparr>content = bytes, pos = 8, good = True\<rparr>"
    using g2 c by (cases "snd r2") simp
qed

lemma rewind_stream:
  "content s = bytes \<Longrightarrow> seekg_beg 0 (clear s) = \<lparr>content = bytes, pos = 0, good = True\<rparr>"
  by (cases s) (simp add: seekg_beg_def clear_def)

lemma read_disk_header_tagged:
  assumes "tagged_layout bytes"
  shows "read_disk_header (open_stream bytes) =
           (fst (read_geometry \<lparr>content = bytes, pos = 8, good = True\<rparr>), 4096,
            snd (read_geometry \<lparr>content = bytes, pos = 8, good = True\<rparr>))"
proof -
  define r1 where "r1 = read_u32 (open_stream bytes)"
  define r2 where "r2 = read_u32 (snd r1)"
  have t: "good (snd r2) \<and> 5 \<le> sint (fst r1)"
    using tag_reads(1) [of bytes] assms by (simp add: r1_def r2_def)
  then have "snd r2 = \<lparr>content = bytes, pos = 8, good = True\<rparr>"
    using tag_reads(2) [of bytes] by (simp add: r1_def r2_def)
  then show ?thesis
    using t
    by (simp add: read_disk_header_def split_beta kDiskIndexDataOffset_def
          flip: r1_def r2_def)
qed

lemma read_disk_header_untagged:
  assumes "\<not> tagged_layout bytes"
  shows "read_disk_header (open_stream bytes) =
           (fst (read_geometry \<lparr>content = bytes, pos = 0, good = True\<rparr>), 4096,
            snd (read_geometry \<lparr>content = bytes, pos = 0, good = True\<rparr>))"
proof -
  define r1 where "r1 = read_u32 (open_stream bytes)"
  define r2 where "r2 = read_u32 (snd r1)"
  have t: "\<not> (good (snd r2) \<and> 5 \<le> sint (fst r1))"
    using tag_reads(1) [of bytes] assms by (simp add: r1_def r2_def)
  have "content (snd r2) = bytes"
    using tag_reads(3) [of bytes] by (simp add: r1_def r2_def)
  then have "seekg_beg 0 (clear (snd r2)) = \<lparr>content = bytes, pos = 0, good = True\<rparr>"
    by (rule rewind_stream)
  then show ?thesis
    using t
    by (auto simp: read_disk_header_def split_beta kDiskIndexDataOffset_def
          simp flip: r1_def r2_def)
qed

lemma read_disk_header_resolved:
  fixes bytes :: "byte list"
  defines "r \<equiv> read_disk_header (open_stream bytes)"
  shows "good (snd (snd r)) \<longleftrightarrow> geometry_offset bytes + 40 \<le> length bytes"
    and "fst (snd r) = 4096"
    and "good (snd (snd r)) \<Longrightarrow> fst r = geometry_at bytes (geometry_offset bytes)"
    and "content (snd (snd r)) = bytes"
proof -
  let ?s = "\<lparr>content = bytes, pos = geometry_offset bytes, good = True\<rparr>"
  have r: "r = (fst (read_geometry ?s), 4096, snd (read_geometry ?s))"
    using read_disk_header_tagged [of bytes] read_disk_header_untagged [of bytes]
    by (cases "tagged_layout bytes") (simp_all add: r_def geometry_offset_def)
  show "good (snd (snd r)) \<longleftrightarrow> geometry_offset bytes + 40 \<le> length bytes"
    by (simp add: r read_geometry_good_iff)
  show "fst (snd r) = 4096" by (simp add: r)
  show "content (snd (snd r)) = bytes"
    by (simp add: r read_geometry_def split_beta read_simps)
  assume "good (snd (snd r))"
  then show "fst r = geometry_at bytes (geometry_offset bytes)"
    using read_geometry_value(1) [of ?s] by (simp add: r)
qed

section \<open>The paged reader by cases\<close>

lemma disk_index_scan_unreadable:
  assumes "length bytes < geometry_offset bytes + 40"
  shows "disk_index_scan (Some bytes) data_type = Inr (GraphStats_default, [], 0)"
proof -
  have "\<not> good (snd (snd (read_disk_header (open_stream bytes))))"
    using read_disk_header_resolved(1) [of bytes] assms by simp
  then show ?thesis
    by (simp add: disk_index_scan_def split_beta)
qed

lemma disk_index_scan_readable:
  assumes "geometry_offset bytes + 40 \<le> length bytes"
  defines "h \<equiv> geometry_at bytes (geometry_offset bytes)"
  defines "s \<equiv> GraphStats_default\<lparr>total_nodes := disk_nnodes h,
                  active_nodes := disk_nnodes h, frozen_nodes := 0,
                  entry_point := ucast (medoid_id_on_file h)\<rparr>"
  shows "disk_index_scan (Some bytes) data_type =
     (if geometry_rejected h data_type then Inr (GraphStats_default, [], 0)
      else if nnodes_per_sector h = 0
        then Inr (s\<lparr>total_edges := 0, degree_min := 0, degree_max := 0,
                    degree_avg := 0, weak_count := 0\<rparr>, [], 0)
        else (case page_loop h (elem_size data_type)
                     ((disk_nnodes h + nnodes_per_sector h - 1) div nnodes_per_sector h) 0
                     (\<lparr>content = bytes, pos = 4096, good = True\<rparr>, accum_init, [], 0) of
                Inl e \<Rightarrow> Inl e
              | Inr (in3, a, seen, pages) \<Rightarrow>
                  Inr (s\<lparr>total_edges := acc_total_edges a,
                         degree_min := final_degree_min a,
                         degree_avg := (if disk_nnodes h > 0
                                        then avg_of (acc_total_edges a) (disk_nnodes h) else 0),
                         degree_max := acc_degree_max a,
                         weak_count := acc_weak_count a\<rparr>, seen, pages)))"
proof -
  define r where "r = read_disk_header (open_stream bytes)"
  have g: "good (snd (snd r))"
    using read_disk_header_resolved(1) [of bytes] assms(1) by (simp add: r_def)
  then have hv: "fst r = h"
    using read_disk_header_resolved(3) [of bytes] by (simp add: r_def h_def)
  have off: "fst (snd r) = 4096"
    using read_disk_header_resolved(2) [of bytes] by (simp add: r_def)
  have c: "content (snd (snd r)) = bytes"
    using read_disk_header_resolved(4) [of bytes] by (simp add: r_def)
  have seek: "seekg_beg 4096 (snd (snd r)) = \<lparr>content = bytes, pos = 4096, good = True\<rparr>"
    using g c by (cases "snd (snd r)") (simp add: seekg_beg_def)
  define ins where "ins = snd (snd r)"
  have req: "read_disk_header (open_stream bytes) = (h, 4096, ins)"
    using hv off by (cases r) (simp add: ins_def r_def)
  show ?thesis
    unfolding s_def using g seek
    by (simp add: disk_index_scan_def req Let_def geometry_rejected_def flip: ins_def)
qed

lemma disk_index_counts:
  assumes "compute_graph_stats_from_disk_index file data_type = Inr s"
  shows "active_nodes s = total_nodes s \<and> frozen_nodes s = 0"
proof (cases "file")
  case None
  with assms show ?thesis
    by (auto simp: compute_graph_stats_from_disk_index_def disk_index_scan_def
          GraphStats_default_def)
next
  case (Some bytes)
  show ?thesis
  proof (cases "geometry_offset bytes + 40 \<le> length bytes")
    case False
    with assms Some show ?thesis
      by (auto simp: compute_graph_stats_from_disk_index_def disk_index_scan_unreadable
            GraphStats_default_def)
  next
    case True
    with assms Some show ?thesis
      by (auto simp: compute_graph_stats_from_disk_index_def disk_index_scan_readable
            GraphStats_default_def split: if_splits sum.splits prod.splits)
  qed
qed

section \<open>Scans that find no node\<close>

lemma degree_fields_length: "4 * length (degree_fields e c bs) \<le> length bs"
proof (induction e c bs rule: degree_fields.induct)
  case (1 e c bs)
  show ?case
  proof (cases "c = e \<or> length bs < 4")
    case True
    then show ?thesis by (simp add: degree_fields_stop)
  next
    case False
    then have ne: "c \<noteq> e" and len: "4 \<le> length bs" by simp_all
    have "4 * length (degree_fields e (c + (4 + ucast (le_word (take 4 bs) :: u32) * 4))
                 (drop (4 + 4 * unat (le_word (take 4 bs) :: u32)) bs))
            \<le> length (drop (4 + 4 * unat (le_word (take 4 bs) :: u32)) bs)"
      using False by (intro "1.IH") simp_all
    then show ?thesis
      using len by (simp add: degree_fields_step [OF ne len])
  qed
qed

lemma scanned_stats_no_nodes:
  assumes "length bytes < 2 ^ 64" and "total_nodes (scanned_stats bytes off) = 0"
  shows "scanned_stats bytes off =
           GraphStats_default\<lparr>frozen_nodes := header_frozen_count bytes off,
                                entry_point := header_entry_point bytes off\<rparr>"
proof -
  define ds where "ds = degree_fields (header_expected_total_size bytes off) 24 (graph_body bytes off)"
  have "4 * length ds \<le> length (graph_body bytes off)"
    unfolding ds_def by (rule degree_fields_length)
  then have "length ds < 2 ^ LENGTH(64)"
    using assms(1) by (simp add: graph_body_def)
  moreover have "(of_nat (length ds) :: u64) = 0"
    using assms(2) by (simp add: scanned_stats_def stats_of_degrees_def Let_def ds_def)
  ultimately have "length ds = 0"
    using unat_of_nat [of "length ds", where 'a = 64] by simp
  then show ?thesis
    by (simp add: scanned_stats_def stats_of_degrees_def Let_def GraphStats_default_def
          flip: ds_def)
qed

lemma from_file_cases:
  "compute_graph_stats_from_file file offset = Some GraphStats_default
   \<or> (\<exists>bytes. file = Some bytes \<and> 0 \<le> sint offset \<and> unat offset + 24 \<le> length bytes
         \<and> compute_graph_stats_from_file file offset = Some (scanned_stats bytes (unat offset)))"
proof (cases "file = None \<or> (\<exists>bytes. file = Some bytes \<and> (sint offset < 0 \<or> length bytes < unat offset + 24))")
  case True
  then show ?thesis by (simp add: from_file_unreadable)
next
  case False
  then obtain bytes where "file = Some bytes" "0 \<le> sint offset" "unat offset + 24 \<le> length bytes"
    by (cases "file") auto
  then show ?thesis by (simp add: from_file_readable)
qed

section \<open>Worked files\<close>

lemma header_only_file:
  "compute_graph_stats_from_file
     (Some [24,0,0,0,0,0,0,0, 0,0,0,0, 5,0,0,0, 2,0,0,0,0,0,0,0]) 0
   = Some \<lparr>total_nodes = 0, active_nodes = 0, frozen_nodes = 2, total_edges = 0,
           degree_min = 0, degree_avg = 0, degree_max = 0, weak_count = 0, entry_point = 5\<rparr>"
proof -
  let ?H = "[24,0,0,0,0,0,0,0, 0,0,0,0, 5,0,0,0, 2,0,0,0,0,0,0,0 :: byte]"
  have "compute_graph_stats_from_file (Some ?H) 0 = Some (scanned_stats ?H (unat (0 :: u64)))"
    by (rule from_file_readable) simp_all
  moreover have "header_expected_total_size ?H 0 = 24"
    by (simp add: header_expected_total_size_def)
  ultimately show ?thesis
    by (simp add: scanned_stats_def degree_fields_stop stats_of_degrees_def
          header_frozen_count_def header_entry_point_def)
qed

lemma two_node_graph:
  "compute_graph_stats [[1], [0]] 1 1 5 2
     = Inr \<lparr>total_nodes = 2, active_nodes = 1, frozen_nodes = 1, total_edges = 2,
            degree_min = 1, degree_avg = 1, degree_max = 1, weak_count = 2, entry_point = 5\<rparr>"
  by (simp add: compute_graph_stats_scan graph_scan_def graph_loop.simps accum_add_def
        accum_init_def size_t_max_def final_degree_min_def double_eval GraphStats_default_def
        word_less_nat_alt word_le_nat_alt unsigned_minus_1_eq_mask mask_eq_exp_minus_1)

lemma one_record_three_frozen:
  "compute_graph_stats_from_file
     (Some [28,0,0,0,0,0,0,0, 0,0,0,0, 0,0,0,0, 3,0,0,0,0,0,0,0, 0,0,0,0]) 0
   = Some \<lparr>total_nodes = 1, active_nodes = 0, frozen_nodes = 3, total_edges = 0,
           degree_min = 0, degree_avg = 0, degree_max = 0, weak_count = 1, entry_point = 0\<rparr>"
proof -
  let ?H = "[28,0,0,0,0,0,0,0, 0,0,0,0, 0,0,0,0, 3,0,0,0,0,0,0,0, 0,0,0,0 :: byte]"
  have "compute_graph_stats_from_file (Some ?H) 0 = Some (scanned_stats ?H (unat (0 :: u64)))"
    by (rule from_file_readable) simp_all
  moreover have "header_expected_total_size ?H 0 = 28"
    by (simp add: header_expected_total_size_def)
  moreover have "degree_fields 28 24 [0,0,0,0] = [0]"
    by (simp add: degree_fields_step degree_fields_stop)
  ultimately show ?thesis
    by (simp add: scanned_stats_def stats_of_degrees_def graph_body_def double_eval
          header_frozen_count_def header_entry_point_def word_le_nat_alt word_less_nat_alt)
qed

lemma three_records_one_frozen:
  "compute_graph_stats_from_file
     (Some [40,0,0,0,0,0,0,0, 0,0,0,0, 2,0,0,0, 1,0,0,0,0,0,0,0,
            1,0,0,0, 1,0,0,0, 0,0,0,0, 0,0,0,0]) 0
   = Some \<lparr>total_nodes = 3, active_nodes = 2, frozen_nodes = 1, total_edges = 1,
           degree_min = 0, degree_avg = 6004799503160661 / 18014398509481984, degree_max = 1, weak_count = 3, entry_point = 2\<rparr>"
proof -
  let ?H = "[40,0,0,0,0,0,0,0, 0,0,0,0, 2,0,0,0, 1,0,0,0,0,0,0,0,
             1,0,0,0, 1,0,0,0, 0,0,0,0, 0,0,0,0 :: byte]"
  have "compute_graph_stats_from_file (Some ?H) 0 = Some (scanned_stats ?H (unat (0 :: u64)))"
    by (rule from_file_readable) simp_all
  moreover have "header_expected_total_size ?H 0 = 40"
    by (simp add: header_expected_total_size_def)
  moreover have "degree_fields 40 24 [1,0,0,0, 1,0,0,0, 0,0,0,0, 0,0,0,0] = [1, 0, 0]"
    by (simp add: degree_fields_step degree_fields_stop)
  ultimately show ?thesis
    by (simp add: scanned_stats_def stats_of_degrees_def graph_body_def double_eval
          header_frozen_count_def header_entry_point_def word_le_nat_alt word_less_nat_alt)
qed

lemma seven_node_index:
  "compute_graph_stats_from_disk_index
        (Some [5,0,0,0, 0,0,0,0, 7,0,0,0,0,0,0,0, 0,0,0,0,0,0,0,0, 3,0,0,0,0,0,0,0,
               4,0,0,0,0,0,0,0, 0,0,0,0,0,0,0,0]) kFloat
      = Inr \<lparr>total_nodes = 7, active_nodes = 7, frozen_nodes = 0, total_edges = 0,
             degree_min = 0, degree_avg = 0, degree_max = 0, weak_count = 0, entry_point = 3\<rparr>"
proof -
  let ?B = "[5,0,0,0, 0,0,0,0, 7,0,0,0,0,0,0,0, 0,0,0,0,0,0,0,0, 3,0,0,0,0,0,0,0,
             4,0,0,0,0,0,0,0, 0,0,0,0,0,0,0,0 :: byte]"
  have t: "tagged_layout ?B" by (simp add: tagged_layout_def)
  then have o: "geometry_offset ?B = 8" by (simp add: geometry_offset_def)
  have g: "geometry_at ?B 8 = \<lparr>disk_nnodes = 7, disk_ndims = 0, medoid_id_on_file = 3,
             max_node_len = 4, nnodes_per_sector = 0\<rparr>"
    by (simp add: geometry_at_def)
  have "geometry_offset ?B + 40 \<le> length ?B" by (simp add: o)
  then have "disk_index_scan (Some ?B) kFloat =
      Inr (\<lparr>total_nodes = 7, active_nodes = 7, frozen_nodes = 0, total_edges = 0,
             degree_min = 0, degree_avg = 0, degree_max = 0, weak_count = 0, entry_point = 3\<rparr>,
           [], 0)"
    by (simp add: disk_index_scan_readable o g geometry_rejected_def GraphStats_default_def)
  then show ?thesis
    by (simp add: compute_graph_stats_from_disk_index_def)
qed

section \<open>The loops of the paged reader\<close>

lemma unat_add_u64:
  fixes a b :: u64
  shows "unat a + unat b < 2 ^ 64 \<Longrightarrow> unat (a + b) = unat a + unat b"
  using unat_add_lem [of a b] by simp

lemma unat_mult_u64:
  fixes a b :: u64
  shows "unat a * unat b < 2 ^ 64 \<Longrightarrow> unat (a * b) = unat a * unat b"
  using unat_mult_lem [of a b] by simp

lemma unat_mult_add_u64:
  fixes a b c :: u64
  assumes "unat a * unat b + unat c < 2 ^ 64"
  shows "unat (a * b + c) = unat a * unat b + unat c"
proof -
  have "unat (a * b) = unat a * unat b"
    using assms by (intro unat_mult_u64) simp
  then show ?thesis
    using assms by (simp add: unat_add_u64)
qed

lemma unat_4096: "unat (4096 :: u64) = 4096"
  by simp

lemma unat_4: "unat (4 :: u64) = 4"
  by simp

text \<open>The address of the degree field of slot \<open>j\<close> and the test that guards it.\<close>

lemma slot_address:
  fixes j mnl ndims esz :: u64
  assumes "unat j * unat mnl + unat ndims * unat esz + 4 \<le> 4096"
  shows "unat (j * mnl + ndims * esz) = unat j * unat mnl + unat ndims * unat esz"
    and "\<not> j * mnl + ndims * esz + 4 > 4096"
proof -
  have a: "unat (j * mnl) = unat j * unat mnl"
    using assms by (intro unat_mult_u64) simp
  have b: "unat (ndims * esz) = unat ndims * unat esz"
    using assms by (intro unat_mult_u64) simp
  show c: "unat (j * mnl + ndims * esz) = unat j * unat mnl + unat ndims * unat esz"
    using assms a b by (simp add: unat_add_u64)
  have "unat (j * mnl + ndims * esz + 4) = unat j * unat mnl + unat ndims * unat esz + 4"
    using assms c by (simp add: unat_add_u64)
  then show "\<not> j * mnl + ndims * esz + 4 > 4096"
    using assms by (simp add: word_less_nat_alt)
qed

lemma sector_loop_slots:
  fixes h :: disk_header and esz sec j :: u64
  defines "nps \<equiv> unat (nnodes_per_sector h)"
  defines "n \<equiv> unat (disk_nnodes h)"
  defines "mnl \<equiv> unat (max_node_len h)"
  defines "dd \<equiv> unat (disk_ndims h) * unat esz"
  defines "m \<equiv> min nps (n - unat sec * nps)"
  assumes nowrap: "unat sec * nps + nps < 2 ^ 64"
    and fit: "(nps - 1) * mnl + dd + 4 \<le> 4096"
    and len: "length sector = 4096"
    and j: "unat j \<le> m"
  shows "sector_loop sector h esz sec j (a, seen) =
           Inr (fold (accum_add 2)
                  (map (\<lambda>i. ucast (le_word (take 4 (drop (i * mnl + dd) sector)) :: u32))
                     [unat j ..< m]) a,
                seen @ map (\<lambda>i. of_nat (unat sec * nps + i)) [unat j ..< m])"
  using j
proof (induction "m - unat j" arbitrary: j a seen)
  case 0
  then have jm: "unat j = m" by simp
  have "sector_loop sector h esz sec j (a, seen) = Inr (a, seen)"
  proof (cases "j < nnodes_per_sector h")
    case False
    then show ?thesis by (subst sector_loop.simps) simp
  next
    case True
    then have "unat j < nps" by (simp add: nps_def word_less_nat_alt)
    with jm have mn: "m = n - unat sec * nps" by (simp add: m_def min_def split: if_splits)
    have "unat (sec * nnodes_per_sector h + j) = unat sec * nps + unat j"
      unfolding nps_def using nowrap \<open>unat j < nps\<close>
      by (intro unat_mult_add_u64) (simp add: nps_def)
    then have "unat (disk_nnodes h) \<le> unat (sec * nnodes_per_sector h + j)"
      using jm mn by (simp add: n_def)
    then have "disk_nnodes h \<le> sec * nnodes_per_sector h + j"
      by (simp add: word_le_nat_alt)
    then show ?thesis
      using True by (subst sector_loop.simps) (simp add: Let_def)
  qed
  then show ?case by (simp add: jm)
next
  case (Suc d)
  then have lt: "unat j < m" by simp
  then have jn: "unat j < nps" and jr: "unat j < n - unat sec * nps" by (simp_all add: m_def)
  have jw: "j < nnodes_per_sector h" using jn by (simp add: nps_def word_less_nat_alt)
  have suc: "unat (j + 1) = Suc (unat j)" using jw by (rule word_succ_unat)
  have id: "unat (sec * nnodes_per_sector h + j) = unat sec * nps + unat j"
    unfolding nps_def using nowrap jn
    by (intro unat_mult_add_u64) (simp add: nps_def)
  then have "unat (sec * nnodes_per_sector h + j) < unat (disk_nnodes h)"
    using jr by (simp add: n_def)
  then have nid: "\<not> disk_nnodes h \<le> sec * nnodes_per_sector h + j"
    by (simp add: word_le_nat_alt)
  have "unat j * mnl \<le> (nps - 1) * mnl"
    using jn by (intro mult_le_mono1) simp
  then have "unat j * mnl + dd + 4 \<le> 4096"
    using fit by linarith
  then have slot: "unat j * unat (max_node_len h) + unat (disk_ndims h) * unat esz + 4 \<le> 4096"
    by (simp only: mnl_def dd_def)
  have addr: "unat (j * max_node_len h + disk_ndims h * esz) = unat j * mnl + dd"
    using slot_address(1) [OF slot] by (simp add: mnl_def dd_def)
  have guard: "\<not> j * max_node_len h + disk_ndims h * esz + 4 > 4096"
    using slot_address(2) [OF slot] .
  have cp: "memcpy_u32 sector (j * max_node_len h + disk_ndims h * esz) =
              Some (le_word (take 4 (drop (unat j * mnl + dd) sector)))"
    using slot by (simp add: memcpy_u32_def addr len mnl_def dd_def)
  have nid_eq: "sec * nnodes_per_sector h + j = of_nat (unat sec * nps + unat j)"
    using id by (metis of_nat_unat ucast_id)
  have step: "sector_loop sector h esz sec j (a, seen) =
      sector_loop sector h esz sec (j + 1)
        (accum_add 2 (ucast (le_word (take 4 (drop (unat j * mnl + dd) sector)) :: u32)) a,
         seen @ [of_nat (unat sec * nps + unat j)])"
    using jw nid guard
    by (subst sector_loop.simps) (simp add: Let_def cp nid_eq)
  have ih: "sector_loop sector h esz sec (j + 1)
        (accum_add 2 (ucast (le_word (take 4 (drop (unat j * mnl + dd) sector)) :: u32)) a,
         seen @ [of_nat (unat sec * nps + unat j)]) =
      Inr (fold (accum_add 2)
             (map (\<lambda>i. ucast (le_word (take 4 (drop (i * mnl + dd) sector)) :: u32))
                [unat (j + 1) ..< m])
             (accum_add 2 (ucast (le_word (take 4 (drop (unat j * mnl + dd) sector)) :: u32)) a),
           (seen @ [of_nat (unat sec * nps + unat j)])
             @ map (\<lambda>i. of_nat (unat sec * nps + i)) [unat (j + 1) ..< m])"
    using Suc.hyps(2) lt by (intro Suc.hyps(1)) (simp_all add: suc)
  have u: "[unat j ..< m] = unat j # [Suc (unat j) ..< m]"
    using lt by (simp add: upt_conv_Cons)
  show ?case
    unfolding step ih by (simp add: suc u)
qed

lemma below_ceil_div:
  fixes n k s :: nat
  assumes "1 \<le> k" and "s < (n + k - 1) div k"
  shows "Suc s * k \<le> n + k - 1" and "s * k < n"
proof -
  have "Suc s \<le> (n + k - 1) div k" using assms(2) by simp
  then show a: "Suc s * k \<le> n + k - 1"
    using assms(1) by (simp add: less_eq_div_iff_mult_less_eq)
  then show "s * k < n" using assms(1) by simp
qed

lemma ceil_div_covers:
  fixes n k :: nat
  assumes "1 \<le> k"
  shows "n \<le> (n + k - 1) div k * k"
proof -
  have "n + k - 1 = (n + k - 1) div k * k + (n + k - 1) mod k" by simp
  moreover have "(n + k - 1) mod k < k" using assms by simp
  ultimately show ?thesis by linarith
qed

lemma take4_in_page:
  assumes "k + 4 \<le> N"
  shows "take 4 (drop k (take N (drop P xs))) = take 4 (drop (P + k) xs)"
proof -
  have "drop k (take N (drop P xs)) = take (N - k) (drop (P + k) xs)"
    by (simp add: drop_take add.commute)
  moreover have "min 4 (N - k) = 4" using assms by simp
  ultimately show ?thesis by simp
qed

lemma slot_is_degree_at:
  assumes "i < unat (nnodes_per_sector h)"
    and "i * unat (max_node_len h) + unat (disk_ndims h) * unat esz + 4 \<le> 4096"
  shows "le_word (take 4 (drop (i * unat (max_node_len h) + unat (disk_ndims h) * unat esz)
                            (take 4096 (drop (4096 + 4096 * s) bytes))))
         = degree_at bytes h esz (s * unat (nnodes_per_sector h) + i)"
proof -
  have "(s * unat (nnodes_per_sector h) + i) div unat (nnodes_per_sector h) = s"
    and "(s * unat (nnodes_per_sector h) + i) mod unat (nnodes_per_sector h) = i"
    using assms(1) by simp_all
  then show ?thesis
    using take4_in_page [of "i * unat (max_node_len h) + unat (disk_ndims h) * unat esz" 4096
        "4096 + 4096 * s" bytes] assms(2)
    by (simp add: degree_at_def ac_simps)
qed

lemma page_ids:
  fixes n nps s :: nat
  assumes "s * nps < n"
  defines "m \<equiv> min nps (n - s * nps)"
  shows "[s * nps ..< n] = map (\<lambda>i. s * nps + i) [0 ..< m] @ [Suc s * nps ..< n]"
proof -
  have a: "map (\<lambda>i. s * nps + i) [0 ..< m] = [s * nps ..< s * nps + m]"
    using map_add_upt [of "s * nps" m] by (simp add: add.commute)
  show ?thesis
  proof (cases "nps \<le> n - s * nps")
    case True
    then have mn: "m = nps" by (simp add: m_def)
    have le: "s * nps + nps \<le> n" using True assms(1) by simp
    have "[s * nps ..< n] = [s * nps ..< s * nps + nps] @ [s * nps + nps ..< n]"
      using upt_add_eq_append [of "s * nps" "s * nps + nps" "n - (s * nps + nps)"] le
      by simp
    also have "[s * nps ..< s * nps + nps] = map (\<lambda>i. s * nps + i) [0 ..< m]"
      using a by (simp add: mn)
    also have "s * nps + nps = Suc s * nps" by simp
    finally show ?thesis .
  next
    case False
    then have mn: "m = n - s * nps" by (simp add: m_def)
    have "s * nps + m = n" using assms(1) by (simp add: mn)
    then have "map (\<lambda>i. s * nps + i) [0 ..< m] = [s * nps ..< n]"
      using a by simp
    moreover have "[Suc s * nps ..< n] = []" using False by simp
    ultimately show ?thesis by simp
  qed
qed

lemma page_loop_pages:
  fixes h :: disk_header and esz n_sectors sec :: u64
  defines "nps \<equiv> unat (nnodes_per_sector h)"
  defines "n \<equiv> unat (disk_nnodes h)"
  defines "mnl \<equiv> unat (max_node_len h)"
  defines "dd \<equiv> unat (disk_ndims h) * unat esz"
  assumes nps1: "1 \<le> nps"
    and fit: "(nps - 1) * mnl + dd + 4 \<le> 4096"
    and S: "unat n_sectors = (n + nps - 1) div nps"
    and nowrap: "n + nps - 1 < 2 ^ 64"
    and readable: "4096 + 4096 * unat n_sectors \<le> length bytes"
    and s: "unat sec \<le> unat n_sectors"
  shows "\<exists>ins'. page_loop h esz n_sectors sec
                  (\<lparr>content = bytes, pos = 4096 + 4096 * unat sec, good = True\<rparr>, a, seen, pages) =
           Inr (ins',
                fold (accum_add 2) (map (\<lambda>i. ucast (degree_at bytes h esz i)) [unat sec * nps ..< n]) a,
                seen @ map of_nat [unat sec * nps ..< n],
                pages + (unat n_sectors - unat sec))"
  using s
proof (induction "unat n_sectors - unat sec" arbitrary: sec a seen pages)
  case 0
  then have eq: "unat sec = unat n_sectors" by simp
  then have "\<not> sec < n_sectors" by (simp add: word_less_nat_alt)
  moreover have "n \<le> unat sec * nps"
    using ceil_div_covers [OF nps1, of n] by (simp add: eq S)
  ultimately show ?case
    by (subst page_loop.simps) (simp add: eq)
next
  case (Suc d)
  let ?ins = "\<lparr>content = bytes, pos = 4096 + 4096 * unat sec, good = True\<rparr>"
  let ?sector = "take 4096 (drop (4096 + 4096 * unat sec) bytes)"
  let ?m = "min nps (n - unat sec * nps)"
  from Suc.hyps(2) have lt: "unat sec < unat n_sectors" by simp
  then have ltw: "sec < n_sectors" by (simp add: word_less_nat_alt)
  then have suc: "unat (sec + 1) = Suc (unat sec)" by (rule word_succ_unat)
  have bc: "Suc (unat sec) * nps \<le> n + nps - 1" "unat sec * nps < n"
    using below_ceil_div [OF nps1, of "unat sec" n] lt by (simp_all add: S)
  have rd: "read_bytes kSectorLen ?ins =
              (?sector, \<lparr>content = bytes, pos = 4096 + 4096 * unat (sec + 1), good = True\<rparr>)"
    using readable lt by (simp add: read_bytes_def kSectorLen_def suc)
  have sl: "length ?sector = 4096" using readable lt by simp
  have nw: "unat sec * nps + nps < 2 ^ 64" using bc(1) nowrap by simp
  define a' where "a' = fold (accum_add 2)
       (map (\<lambda>i. ucast (le_word (take 4 (drop (i * mnl + dd) ?sector)) :: u32)) [0 ..< ?m]) a"
  define seen' where "seen' = seen @ map (\<lambda>i. of_nat (unat sec * nps + i) :: u64) [0 ..< ?m]"
  have inner: "sector_loop ?sector h esz sec 0 (a, seen) = Inr (a', seen')"
    using sector_loop_slots [of sec h, where j = 0 and sector = ?sector and esz = esz and a = a and seen = seen]
      nw fit sl
    by (simp add: a'_def seen'_def nps_def n_def mnl_def dd_def)
  have step: "page_loop h esz n_sectors sec (?ins, a, seen, pages) =
                page_loop h esz n_sectors (sec + 1)
                  (\<lparr>content = bytes, pos = 4096 + 4096 * unat (sec + 1), good = True\<rparr>,
                   a', seen', pages + 1)"
    using ltw by (subst page_loop.simps) (simp add: rd inner)
  have "d = unat n_sectors - unat (sec + 1)" using Suc.hyps(2) by (simp add: suc)
  moreover have "unat (sec + 1) \<le> unat n_sectors" using lt by (simp add: suc)
  ultimately obtain ins' where ih:
    "page_loop h esz n_sectors (sec + 1)
       (\<lparr>content = bytes, pos = 4096 + 4096 * unat (sec + 1), good = True\<rparr>, a', seen', pages + 1) =
     Inr (ins',
          fold (accum_add 2)
            (map (\<lambda>i. ucast (degree_at bytes h esz i)) [unat (sec + 1) * nps ..< n]) a',
          seen' @ map of_nat [unat (sec + 1) * nps ..< n],
          pages + 1 + (unat n_sectors - unat (sec + 1)))"
    using Suc.hyps(1) [of "sec + 1" a' seen' "pages + 1"] by blast
  have slots: "map (\<lambda>i. ucast (le_word (take 4 (drop (i * mnl + dd) ?sector)) :: u32) :: u64) [0 ..< ?m]
             = map (\<lambda>i. ucast (degree_at bytes h esz i)) (map (\<lambda>i. unat sec * nps + i) [0 ..< ?m])"
  proof -
    have "le_word (take 4 (drop (i * mnl + dd) ?sector)) = degree_at bytes h esz (unat sec * nps + i)"
      if "i < ?m" for i
    proof -
      from that have i: "i < nps" by simp
      then have "i * mnl \<le> (nps - 1) * mnl" by (intro mult_le_mono1) simp
      then have "i * mnl + dd + 4 \<le> 4096" using fit by linarith
      then show ?thesis
        using slot_is_degree_at [of i h esz "unat sec" bytes] i
        by (simp add: nps_def mnl_def dd_def)
    qed
    then show ?thesis by simp
  qed
  have ids: "[unat sec * nps ..< n] = map (\<lambda>i. unat sec * nps + i) [0 ..< ?m] @ [Suc (unat sec) * nps ..< n]"
    using bc(2) by (rule page_ids)
  have acc: "fold (accum_add 2) (map (\<lambda>i. ucast (degree_at bytes h esz i)) [unat sec * nps ..< n]) a
           = fold (accum_add 2) (map (\<lambda>i. ucast (degree_at bytes h esz i)) [Suc (unat sec) * nps ..< n]) a'"
    by (subst ids) (simp add: a'_def slots del: upt_Suc mult_Suc)
  have sn: "seen @ map of_nat [unat sec * nps ..< n]
          = seen' @ map of_nat [Suc (unat sec) * nps ..< n]"
    by (subst ids) (simp add: seen'_def comp_def del: upt_Suc mult_Suc)
  have pg: "pages + (unat n_sectors - unat sec) = pages + 1 + (unat n_sectors - unat (sec + 1))"
    using lt by (simp add: suc)
  show ?case
    unfolding step ih acc sn pg by (simp add: suc)
qed

lemma ceil_sectors_word:
  fixes nn npsw :: u64
  assumes "1 \<le> unat npsw" and "unat nn + unat npsw < 2 ^ 64"
  shows "unat ((nn + npsw - 1) div npsw) = (unat nn + unat npsw - 1) div unat npsw"
proof -
  have a: "unat (nn + npsw) = unat nn + unat npsw"
    using assms(2) by (rule unat_add_u64)
  have "nn + npsw \<noteq> 0" using a assms(1) by (metis add_is_0 not_one_le_zero unat_0)
  then have "unat (nn + npsw - 1) = unat nn + unat npsw - 1"
    using a by (simp add: unat_minus_one)
  then show ?thesis by (simp add: unat_div)
qed

section \<open>The worked index files\<close>

lemma wide_record_index_geometry:
  "geometry_offset wide_record_index = 0"
  "geometry_at wide_record_index 0 =
     \<lparr>disk_nnodes = 2, disk_ndims = 0, medoid_id_on_file = 0, max_node_len = 4096,
      nnodes_per_sector = 2\<rparr>"
  "length wide_record_index = 8192"
  by (simp_all add: wide_record_index_def geometry_offset_def tagged_layout_def geometry_at_def)

lemma wide_record_index_page:
  "read_bytes kSectorLen \<lparr>content = wide_record_index, pos = 4096, good = True\<rparr> =
     (5 # 0 # 0 # 0 # replicate 4092 0, \<lparr>content = wide_record_index, pos = 8192, good = True\<rparr>)"
  by (simp add: read_bytes_def kSectorLen_def wide_record_index_geometry(3))
     (simp add: wide_record_index_def)

lemma wide_record_index_scan:
  "disk_index_scan (Some wide_record_index) kUint8 =
     Inr (\<lparr>total_nodes = 2, active_nodes = 2, frozen_nodes = 0, total_edges = 5,
            degree_min = 5, degree_avg = 5 / 2, degree_max = 5, weak_count = 0,
            entry_point = 0\<rparr>, [0], 1)"
proof -
  let ?h = "\<lparr>disk_nnodes = 2, disk_ndims = 0, medoid_id_on_file = 0, max_node_len = 4096,
      nnodes_per_sector = 2\<rparr>"
  let ?a = "accum_add 2 5 accum_init"
  have s1: "sector_loop (5 # 0 # 0 # 0 # replicate 4092 0) ?h 1 0 1 (?a, [0]) = Inr (?a, [0])"
    by (subst sector_loop.simps) (simp add: Let_def word_less_nat_alt word_le_nat_alt)
  have s0: "sector_loop (5 # 0 # 0 # 0 # replicate 4092 0) ?h 1 0 0 (accum_init, []) = Inr (?a, [0])"
    by (subst sector_loop.simps)
       (simp add: Let_def word_less_nat_alt word_le_nat_alt memcpy_u32_def s1)
  have p1: "page_loop ?h 1 1 1 (\<lparr>content = wide_record_index, pos = 8192, good = True\<rparr>, ?a, [0], Suc 0)
              = Inr (\<lparr>content = wide_record_index, pos = 8192, good = True\<rparr>, ?a, [0], Suc 0)"
    by (subst page_loop.simps) simp
  have p0: "page_loop ?h 1 1 0 (\<lparr>content = wide_record_index, pos = 4096, good = True\<rparr>, accum_init, [], 0)
              = Inr (\<lparr>content = wide_record_index, pos = 8192, good = True\<rparr>, ?a, [0], 1)"
    by (subst page_loop.simps) (simp add: wide_record_index_page s0 p1)
  have "disk_index_scan (Some wide_record_index) kUint8 =
          Inr (GraphStats_default\<lparr>total_nodes := 2, active_nodes := 2, frozen_nodes := 0,
                 entry_point := 0, total_edges := acc_total_edges ?a,
                 degree_min := final_degree_min ?a,
                 degree_avg := avg_of (acc_total_edges ?a) 2,
                 degree_max := acc_degree_max ?a, weak_count := acc_weak_count ?a\<rparr>, [0], 1)"
    by (simp add: disk_index_scan_readable wide_record_index_geometry geometry_rejected_def
          word_less_nat_alt p0)
  then show ?thesis
    by (simp add: GraphStats_default_def accum_add_def accum_init_def
          final_degree_min_def size_t_max_def double_eval word_less_nat_alt
          unsigned_minus_1_eq_mask mask_eq_exp_minus_1)
qed

lemma three_slot_page_length: "length three_slot_page = 4096"
  by (simp add: three_slot_page_def)

lemma ten_node_index_geometry:
  "geometry_offset ten_node_index = 8"
  "geometry_at ten_node_index 8 =
     \<lparr>disk_nnodes = 10, disk_ndims = 1, medoid_id_on_file = 4, max_node_len = 12,
      nnodes_per_sector = 3\<rparr>"
  "length ten_node_index = 20480"
  by (simp_all add: ten_node_index_def geometry_offset_def tagged_layout_def geometry_at_def
        three_slot_page_length)

lemma ten_node_index_pages:
  "drop 4096 ten_node_index = three_slot_page @ three_slot_page @ three_slot_page @ three_slot_page"
  "drop 8192 ten_node_index = three_slot_page @ three_slot_page @ three_slot_page"
  "drop 12288 ten_node_index = three_slot_page @ three_slot_page"
  "drop 16384 ten_node_index = three_slot_page"
  by (simp_all add: ten_node_index_def three_slot_page_length)

lemma take_in_first_page:
  assumes "drop a xs = page @ rest" and "k + 4 \<le> length page"
  shows "take 4 (drop (a + k) xs) = take 4 (drop k page)"
proof -
  have "drop (a + k) xs = drop k (drop a xs)" by (simp add: add.commute)
  also have "\<dots> = drop k page @ rest" using assms by simp
  finally show ?thesis using assms(2) by simp
qed

lemma ten_node_index_take:
  assumes "p < 4" and "k + 4 \<le> 4096"
  shows "take 4 (drop (4096 + 4096 * p + k) ten_node_index) = take 4 (drop k three_slot_page)"
proof -
  have k: "k + 4 \<le> length three_slot_page" using assms(2) by (simp add: three_slot_page_length)
  have "p = 0 \<or> p = 1 \<or> p = 2 \<or> p = 3" using assms(1) by auto
  then show ?thesis
  proof (elim disjE)
    assume "p = 0"
    then show ?thesis
      using take_in_first_page [OF ten_node_index_pages(1) k] by simp
  next
    assume "p = 1"
    then show ?thesis
      using take_in_first_page [OF ten_node_index_pages(2) k] by simp
  next
    assume "p = 2"
    then show ?thesis
      using take_in_first_page [OF ten_node_index_pages(3) k] by simp
  next
    assume "p = 3"
    then show ?thesis
      using take_in_first_page [OF _ k, of 16384 ten_node_index "[]"] ten_node_index_pages(4)
      by simp
  qed
qed

lemma ten_node_index_degree:
  assumes "p < 4" "s < 3"
  shows "degree_at ten_node_index
           \<lparr>disk_nnodes = 10, disk_ndims = 1, medoid_id_on_file = 4, max_node_len = 12,
            nnodes_per_sector = 3\<rparr> 1 (p * 3 + s) = of_nat (Suc s)"
proof -
  have "take 4 (drop (4096 + 4096 * p + (s * 12 + 1)) ten_node_index)
          = take 4 (drop (s * 12 + 1) three_slot_page)"
    using assms by (intro ten_node_index_take) simp_all
  then have t: "take 4 (drop (4096 + p * 4096 + s * 12 + 1) ten_node_index)
          = take 4 (drop (s * 12 + 1) three_slot_page)"
    by (simp add: ac_simps)
  have "s = 0 \<or> s = 1 \<or> s = 2" using assms(2) by auto
  then have "le_word (take 4 (drop (s * 12 + 1) three_slot_page)) = (of_nat (Suc s) :: u32)"
    by (auto simp: three_slot_page_def)
  then show ?thesis
    using t assms(2) by (simp add: degree_at_def)
qed

lemma ten_node_index_degrees:
  "map (degree_at ten_node_index
          \<lparr>disk_nnodes = 10, disk_ndims = 1, medoid_id_on_file = 4, max_node_len = 12,
           nnodes_per_sector = 3\<rparr> 1) [0 ..< 10]
   = [1, 2, 3, 1, 2, 3, 1, 2, 3, 1]"
proof -
  let ?d = "degree_at ten_node_index
          \<lparr>disk_nnodes = 10, disk_ndims = 1, medoid_id_on_file = 4, max_node_len = 12,
           nnodes_per_sector = 3\<rparr> 1"
  have "?d 0 = 1" using ten_node_index_degree [of 0 0] by (simp add: numeral_2_eq_2)
  moreover have "?d 1 = 2" using ten_node_index_degree [of 0 1] by (simp add: numeral_2_eq_2)
  moreover have "?d 2 = 3" using ten_node_index_degree [of 0 2] by (simp add: numeral_2_eq_2)
  moreover have "?d 3 = 1" using ten_node_index_degree [of 1 0] by (simp add: numeral_2_eq_2)
  moreover have "?d 4 = 2" using ten_node_index_degree [of 1 1] by (simp add: numeral_2_eq_2)
  moreover have "?d 5 = 3" using ten_node_index_degree [of 1 2] by (simp add: numeral_2_eq_2)
  moreover have "?d 6 = 1" using ten_node_index_degree [of 2 0] by (simp add: numeral_2_eq_2)
  moreover have "?d 7 = 2" using ten_node_index_degree [of 2 1] by (simp add: numeral_2_eq_2)
  moreover have "?d 8 = 3" using ten_node_index_degree [of 2 2] by (simp add: numeral_2_eq_2)
  moreover have "?d 9 = 1" using ten_node_index_degree [of 3 0] by (simp add: numeral_2_eq_2)
  moreover have "[0 ..< 10] = [0, 1, 2, 3, 4, 5, 6, 7, 8, 9 :: nat]" by (simp add: upt_rec)
  ultimately show ?thesis by simp
qed

section \<open>A graph of lists of one length\<close>

lemma fold_accum_replicate:
  "0 < n \<Longrightarrow>
   fold (accum_add t) (replicate n d) a
     = \<lparr>acc_total_edges = acc_total_edges a + of_nat n * d,
        acc_degree_min = (if d < acc_degree_min a then d else acc_degree_min a),
        acc_degree_max = (if acc_degree_max a < d then d else acc_degree_max a),
        acc_weak_count = (if d < t then acc_weak_count a + of_nat n else acc_weak_count a)\<rparr>"
proof (induction n arbitrary: a)
  case 0
  then show ?case by simp
next
  case (Suc n)
  have step: "fold (accum_add t) (replicate (Suc n) d) a
                = fold (accum_add t) (replicate n d) (accum_add t d a)"
    by (simp del: fold_replicate)
  show ?case
  proof (cases "n = 0")
    case True
    then show ?thesis
      unfolding step by (simp add: accum_add_def del: fold_replicate)
  next
    case False
    then have "0 < n" by simp
    note ih = Suc.IH [OF this, of "accum_add t d a"]
    show ?thesis
      unfolding step ih by (simp add: accum_add_def algebra_simps)
  qed
qed

lemma uniform_graph_stats:
  assumes pos: "n \<noteq> 0" and wt: "ucast wt \<le> (3 :: u64)"
  shows "compute_graph_stats (replicate (unat n) [x, y, z]) n 0 ep wt
     = Inr \<lparr>total_nodes = n, active_nodes = n, frozen_nodes = 0, total_edges = n * 3,
            degree_min = 3, degree_avg = avg_of (n * 3) n, degree_max = 3,
            weak_count = 0, entry_point = ep\<rparr>"
proof -
  have npos: "0 < unat n" using pos by (simp add: unat_gt_0)
  have "unat (n + 0) \<le> length (replicate (unat n) [x, y, z])" by simp
  from graph_scan_in_range [OF this, of wt]
  have "graph_scan (replicate (unat n) [x, y, z]) n 0 wt
          = Inr (fold (accum_add (ucast wt)) (replicate (unat n) 3) accum_init, [0 ..< unat n])"
    by (simp del: fold_replicate)
  also have "fold (accum_add (ucast wt)) (replicate (unat n) 3) accum_init
     = \<lparr>acc_total_edges = n * 3, acc_degree_min = 3, acc_degree_max = 3, acc_weak_count = 0\<rparr>"
    using wt unfolding fold_accum_replicate [OF npos]
    by (simp add: accum_init_def size_t_max_def mult.commute
          word_less_nat_alt word_le_nat_alt unsigned_minus_1_eq_mask mask_eq_exp_minus_1)
  finally show ?thesis
    using pos
    by (simp add: compute_graph_stats_scan GraphStats_default_def final_degree_min_def
          size_t_max_def)
qed

section \<open>Vectors that can be built\<close>

lemma new_vector_granted:
  assumes "\<forall>c n. heap c n" and "n \<le> (2 ^ 63 - 1) div sz"
  shows "new_vector heap c sz n = Inr (if n = 0 then c else Suc c)"
  using assms by (simp add: new_vector_def allocate_def)

lemma push_back_result:
  "push_back heap c xs x = Inr (c', l) \<Longrightarrow> l = xs @ [x]"
  by (auto simp: push_back_def split: if_splits sum.splits)

lemma push_back_granted:
  assumes "\<forall>c n. heap c n"
  shows "\<exists>c'. push_back heap c xs x = Inr (c', xs @ [x])"
  using assms by (simp add: push_back_def allocate_def)

section \<open>Reverse edges of a sample\<close>

lemma add_reverse_edges_result:
  assumes "add_reverse_edges heap num_nodes src nbrs (c, in_nbrs) = Inr (c', in_nbrs')"
    and "unat num_nodes = length in_nbrs"
  shows "length in_nbrs' = length in_nbrs
         \<and> (\<forall>i < length in_nbrs.
               in_nbrs' ! i = in_nbrs ! i @ map (\<lambda>v. src) (filter (\<lambda>v. unat v = i) nbrs))"
  using assms
proof (induction nbrs arbitrary: c in_nbrs)
  case Nil
  then show ?case by simp
next
  case (Cons v nbrs)
  show ?case
  proof (cases "ucast v < num_nodes")
    case True
    then have v: "unat v < length in_nbrs"
      using Cons.prems(2) by (simp add: word_less_nat_alt unat_ucast_u32)
    from Cons.prems(1) True obtain c1 l where
      pb: "push_back heap c (in_nbrs ! unat v) src = Inr (c1, l)"
      and rest: "add_reverse_edges heap num_nodes src nbrs (c1, in_nbrs[unat v := l])
                   = Inr (c', in_nbrs')"
      by (auto split: sum.splits)
    have l: "l = in_nbrs ! unat v @ [src]" using pb by (rule push_back_result)
    have ih: "length in_nbrs' = length (in_nbrs[unat v := l])
         \<and> (\<forall>i < length (in_nbrs[unat v := l]).
               in_nbrs' ! i = in_nbrs[unat v := l] ! i
                                @ map (\<lambda>v. src) (filter (\<lambda>v. unat v = i) nbrs))"
      using rest Cons.prems(2) by (intro Cons.IH) simp_all
    show ?thesis
    proof (intro conjI allI impI)
      show "length in_nbrs' = length in_nbrs" using ih by simp
      fix i assume i: "i < length in_nbrs"
      then have "in_nbrs' ! i = in_nbrs[unat v := l] ! i
                                @ map (\<lambda>v. src) (filter (\<lambda>v. unat v = i) nbrs)"
        using ih by simp
      then show "in_nbrs' ! i = in_nbrs ! i
                   @ map (\<lambda>v. src) (filter (\<lambda>v. unat v = i) (v # nbrs))"
        using i v by (cases "unat v = i") (simp_all add: l)
    qed
  next
    case False
    then have ne: "unat v \<noteq> i" if "i < length in_nbrs" for i
      using that Cons.prems(2) by (auto simp: word_less_nat_alt unat_ucast_u32)
    from Cons.prems(1) False have
      rest: "add_reverse_edges heap num_nodes src nbrs (c, in_nbrs) = Inr (c', in_nbrs')"
      by simp
    have ih: "length in_nbrs' = length in_nbrs
         \<and> (\<forall>i < length in_nbrs.
               in_nbrs' ! i = in_nbrs ! i @ map (\<lambda>v. src) (filter (\<lambda>v. unat v = i) nbrs))"
      using rest Cons.prems(2) by (rule Cons.IH)
    then show ?thesis using ne by simp
  qed
qed

lemma add_reverse_edges_granted:
  assumes "\<forall>c n. heap c n"
  shows "\<exists>c' in_nbrs'. add_reverse_edges heap num_nodes src nbrs (c, in_nbrs) = Inr (c', in_nbrs')"
proof (induction nbrs arbitrary: c in_nbrs)
  case Nil
  show ?case by simp
next
  case (Cons v nbrs)
  show ?case
  proof (cases "ucast v < num_nodes")
    case True
    obtain c1 where "push_back heap c (in_nbrs ! unat v) src = Inr (c1, in_nbrs ! unat v @ [src])"
      using push_back_granted [OF assms] by blast
    then show ?thesis using True Cons.IH by simp
  next
    case False
    then show ?thesis using Cons.IH by simp
  qed
qed

lemma referrers_0: "referrers out_nbrs 0 i = []"
  by (simp add: referrers_def)

lemma referrers_Suc:
  "referrers out_nbrs (Suc m) i =
     referrers out_nbrs m i @ map (\<lambda>v. of_nat m) (filter (\<lambda>v. unat v = i) (out_nbrs ! m))"
  by (simp add: referrers_def)

lemma referrers_cong:
  assumes "\<And>j. j < m \<Longrightarrow> xs ! j = ys ! j"
  shows "referrers xs m i = referrers ys m i"
proof -
  have "map (\<lambda>j. map (\<lambda>v. of_nat j :: u32) (filter (\<lambda>v. unat v = i) (xs ! j))) [0 ..< m]
      = map (\<lambda>j. map (\<lambda>v. of_nat j) (filter (\<lambda>v. unat v = i) (ys ! j))) [0 ..< m]"
    by (rule map_cong [OF refl]) (simp add: assms)
  then show ?thesis by (simp only: referrers_def)
qed

lemma set_referrers:
  "set (referrers out_nbrs m i) = of_nat ` {j \<in> {..< m}. \<exists>v \<in> set (out_nbrs ! j). unat v = i}"
  by (auto simp: referrers_def)

lemma sample_invariant_start:
  "sample_invariant n 0 (replicate n []) (replicate n [])"
  by (simp add: sample_invariant_def referrers_0)

lemma sample_invariant_step:
  assumes inv: "sample_invariant (unat num_nodes) (unat nodes_read) out_nbrs in_nbrs"
    and lt: "nodes_read < num_nodes"
    and run: "add_reverse_edges heap num_nodes (ucast nodes_read) nbrs (c, in_nbrs)
                = Inr (c', in_nbrs')"
  shows "sample_invariant (unat num_nodes) (unat (nodes_read + 1))
           (out_nbrs[unat nodes_read := nbrs]) in_nbrs'"
proof -
  let ?n = "unat num_nodes" and ?m = "unat nodes_read"
  have suc: "unat (nodes_read + 1) = Suc ?m" using lt by (rule word_succ_unat)
  have m: "?m < ?n" using lt by (simp add: word_less_nat_alt)
  from inv have len: "length out_nbrs = ?n" "length in_nbrs = ?n"
    and rev: "\<And>i. i < ?n \<Longrightarrow> in_nbrs ! i = referrers out_nbrs ?m i"
    by (simp_all add: sample_invariant_def)
  have src: "(ucast nodes_read :: u32) = of_nat ?m" by simp
  have res: "length in_nbrs' = length in_nbrs"
    "\<And>i. i < length in_nbrs \<Longrightarrow>
       in_nbrs' ! i = in_nbrs ! i @ map (\<lambda>v. ucast nodes_read) (filter (\<lambda>v. unat v = i) nbrs)"
    using add_reverse_edges_result [OF run] len by simp_all
  have "in_nbrs' ! i = referrers (out_nbrs[?m := nbrs]) (Suc ?m) i" if i: "i < ?n" for i
  proof -
    have "referrers (out_nbrs[?m := nbrs]) ?m i = referrers out_nbrs ?m i"
      by (rule referrers_cong) simp
    moreover have "out_nbrs[?m := nbrs] ! ?m = nbrs" using m len by simp
    ultimately show ?thesis
      using res(2) [of i] i len rev [OF i] by (simp add: referrers_Suc)
  qed
  then show ?thesis
    using m len res(1) by (simp add: sample_invariant_def suc)
qed

lemma sample_invariant_finish:
  assumes "sample_invariant (unat num_nodes) (unat nodes_read) out_nbrs in_nbrs"
  shows "finish_sample num_nodes nodes_read ep out_nbrs in_nbrs
           = sample_of ep (take (unat nodes_read) out_nbrs)"
proof -
  let ?n = "unat num_nodes" and ?m = "unat nodes_read"
  from assms have le: "?m \<le> ?n" and len: "length out_nbrs = ?n" "length in_nbrs = ?n"
    and rev: "\<And>i. i < ?n \<Longrightarrow> in_nbrs ! i = referrers out_nbrs ?m i"
    by (simp_all add: sample_invariant_def)
  have lt: "length (take ?m out_nbrs) = ?m" using le len by simp
  have ins: "take ?m in_nbrs = map (referrers (take ?m out_nbrs) ?m) [0 ..< ?m]"
  proof (rule nth_equalityI)
    show "length (take ?m in_nbrs) = length (map (referrers (take ?m out_nbrs) ?m) [0 ..< ?m])"
      using le len by simp
    fix i assume "i < length (take ?m in_nbrs)"
    then have i: "i < ?m" by simp
    have "referrers (take ?m out_nbrs) ?m i = referrers out_nbrs ?m i"
      by (rule referrers_cong) simp
    then show "take ?m in_nbrs ! i = map (referrers (take ?m out_nbrs) ?m) [0 ..< ?m] ! i"
      using i le rev [of i] by simp
  qed
  have num: "(of_nat ?m :: u64) = nodes_read" by simp
  show ?thesis
  proof (cases "nodes_read < num_nodes")
    case True
    then show ?thesis
      unfolding sample_of_def lt by (simp add: finish_sample_def ins num)
  next
    case False
    then have eq: "?m = ?n" using le by (simp add: word_less_nat_alt)
    then have "nodes_read = num_nodes" by (simp add: word_unat_eq_iff)
    moreover have "take ?m out_nbrs = out_nbrs" "take ?m in_nbrs = in_nbrs"
      using eq len by simp_all
    ultimately show ?thesis
      using False ins unfolding sample_of_def lt by (simp add: finish_sample_def num)
  qed
qed

lemma sample_of_exact:
  assumes "length out_nbrs < 2 ^ 64"
  shows "referenced_by_exact (sample_of ep out_nbrs)"
    and "unat (sg_num_nodes (sample_of ep out_nbrs)) = length out_nbrs"
proof -
  show n: "unat (sg_num_nodes (sample_of ep out_nbrs)) = length out_nbrs"
    using assms by (simp add: sample_of_def unat_of_nat)
  show "referenced_by_exact (sample_of ep out_nbrs)"
    unfolding referenced_by_exact_def n
    by (simp add: sample_of_def set_referrers)
qed

section \<open>The records a sample reads\<close>

lemma decode_u32s_length: "length (decode_u32s bs) = length bs div 4"
  by (induction bs rule: decode_u32s.induct) simp_all

lemma sampled_records_stop:
  "counter = e \<or> n = 0 \<or> length bs < 4 \<Longrightarrow> sampled_records e counter n bs = []"
  by (subst sampled_records.simps) auto

lemma sampled_records_cut:
  "length bs < 4 + 4 * unat (le_word (take 4 bs) :: u32) \<Longrightarrow> sampled_records e counter n bs = []"
  by (subst sampled_records.simps) (simp add: Let_def)

lemma sampled_records_step:
  "counter \<noteq> e \<Longrightarrow> 0 < n \<Longrightarrow> 4 + 4 * unat (le_word (take 4 bs) :: u32) \<le> length bs \<Longrightarrow>
   sampled_records e counter n bs =
     decode_u32s (take (4 * unat (le_word (take 4 bs) :: u32)) (drop 4 bs))
     # sampled_records e (counter + (4 + ucast (le_word (take 4 bs) :: u32) * 4)) (n - 1)
         (drop (4 + 4 * unat (le_word (take 4 bs) :: u32)) bs)"
  by (subst sampled_records.simps) (simp add: Let_def)

lemma sampled_records_length: "length (sampled_records e counter n bs) \<le> n"
proof (induction n arbitrary: counter bs)
  case 0
  show ?case by (simp add: sampled_records_stop)
next
  case (Suc n)
  show ?case
  proof (cases "counter \<noteq> e \<and> 4 + 4 * unat (le_word (take 4 bs) :: u32) \<le> length bs")
    case True
    then show ?thesis
      using Suc.IH by (subst sampled_records_step) simp_all
  next
    case False
    then have "sampled_records e counter (Suc n) bs = []"
      by (subst sampled_records.simps) (auto simp: Let_def)
    then show ?thesis by simp
  qed
qed

text \<open>One round of the loop, with the reads of the record resolved.\<close>

lemma small_file_loop_round:
  fixes ins :: ifstream
  defines "bs \<equiv> drop (pos ins) (content ins)"
  defines "k \<equiv> (le_word (take 4 bs) :: u32)"
  defines "nbrs \<equiv> decode_u32s (take (4 * unat k) (drop 4 bs))"
  assumes go: "counter \<noteq> e" "node_id < num_nodes" "good ins"
  shows "small_file_loop heap e num_nodes (c, ins, counter, node_id, out_nbrs, in_nbrs) =
     (if length bs < 4
      then Inr (c, snd (read_u32 ins), counter, node_id, out_nbrs, in_nbrs)
      else case new_vector heap c 4 (unat k) of
             Inl x \<Rightarrow> Inl x
           | Inr c1 \<Rightarrow>
               if length bs < 4 + 4 * unat k
               then Inr (c1, snd (read_bytes (4 * unat k) (ins\<lparr>pos := pos ins + 4\<rparr>)),
                         counter, node_id, out_nbrs, in_nbrs)
               else case add_reverse_edges heap num_nodes (ucast node_id) nbrs (c1, in_nbrs) of
                      Inl x \<Rightarrow> Inl x
                    | Inr (c2, in_nbrs') \<Rightarrow>
                        small_file_loop heap e num_nodes
                          (c2, ins\<lparr>pos := pos ins + (4 + 4 * unat k)\<rparr>,
                           counter + (4 + ucast k * 4), node_id + 1,
                           out_nbrs[unat node_id := nbrs], in_nbrs'))"
proof (cases "length bs < 4")
  case True
  then have "\<not> good (snd (read_u32 ins))"
    using go(3) by (intro read_u32_short) (simp_all add: bs_def)
  then show ?thesis
    using go True by (subst small_file_loop.simps) (simp add: split_beta)
next
  case False
  then have rd: "read_u32 ins = (k, ins\<lparr>pos := pos ins + 4\<rparr>)"
    using go(3) by (simp add: read_u32_enough bs_def k_def)
  show ?thesis
  proof (cases "length bs < 4 + 4 * unat k")
    case True
    then have kpos: "k > 0" using False by (cases "k = 0") (auto simp: word_greater_zero_iff)
    have "\<not> good (snd (read_bytes (4 * unat k) (ins\<lparr>pos := pos ins + 4\<rparr>)))"
      using True go(3) by (intro read_bytes_short) (simp_all add: bs_def)
    then show ?thesis
      using go False True kpos
      by (subst small_file_loop.simps) (simp add: rd unat_skip split_beta split: sum.splits)
  next
    case full: False
    have ln: "length nbrs = unat k"
      using full by (simp add: nbrs_def decode_u32s_length)
    have b: "(if k > 0 then read_bytes (unat (ucast k * 4 :: u64)) (ins\<lparr>pos := pos ins + 4\<rparr>)
              else ([], ins\<lparr>pos := pos ins + 4\<rparr>))
             = (take (4 * unat k) (drop 4 bs), ins\<lparr>pos := pos ins + (4 + 4 * unat k)\<rparr>)"
    proof (cases "k > 0")
      case True
      then show ?thesis
        using go(3) full by (simp add: unat_skip read_bytes_enough bs_def add.commute)
    next
      case False
      then have "k = 0" by (simp add: word_greater_zero_iff)
      then show ?thesis by simp
    qed
    show ?thesis
      using go False full
      by (subst small_file_loop.simps)
         (simp add: rd b Let_def ln flip: nbrs_def cong: sum.case_cong)
  qed
qed

lemma small_file_loop_sample:
  assumes "good ins"
    and "sample_invariant (unat num_nodes) (unat node_id) out_nbrs in_nbrs"
    and "small_file_loop heap e num_nodes (c, ins, counter, node_id, out_nbrs, in_nbrs)
           = Inr (c', ins', counter', node_id', out_nbrs', in_nbrs')"
  shows "sample_invariant (unat num_nodes) (unat node_id') out_nbrs' in_nbrs'
         \<and> take (unat node_id') out_nbrs' =
             take (unat node_id) out_nbrs
             @ sampled_records e counter (unat num_nodes - unat node_id)
                 (drop (pos ins) (content ins))"
  using assms
proof (induction "unat num_nodes - unat node_id" arbitrary: c ins counter node_id out_nbrs in_nbrs
        rule: less_induct)
  case less
  let ?bs = "drop (pos ins) (content ins)"
  let ?n = "unat num_nodes - unat node_id"
  let ?k = "le_word (take 4 ?bs) :: u32"
  let ?nbrs = "decode_u32s (take (4 * unat ?k) (drop 4 ?bs))"
  note good = less.prems(1) and inv = less.prems(2) and run = less.prems(3)
  have le: "unat node_id \<le> unat num_nodes" and lo: "length out_nbrs = unat num_nodes"
    using inv by (simp_all add: sample_invariant_def)
  show ?case
  proof (cases "counter \<noteq> e \<and> node_id < num_nodes")
    case False
    then have "counter = e \<or> ?n = 0" by (auto simp: word_less_nat_alt)
    then have "sampled_records e counter ?n ?bs = []" by (auto simp: sampled_records_stop)
    moreover have "small_file_loop heap e num_nodes (c, ins, counter, node_id, out_nbrs, in_nbrs)
                     = Inr (c, ins, counter, node_id, out_nbrs, in_nbrs)"
      using False by (subst small_file_loop.simps) auto
    ultimately show ?thesis using run inv by simp
  next
    case True
    then have ne: "counter \<noteq> e" and lt: "node_id < num_nodes" by simp_all
    have npos: "0 < ?n" using lt by (simp add: word_less_nat_alt)
    note round = small_file_loop_round [OF ne lt good, of heap c out_nbrs in_nbrs]
    show ?thesis
    proof (cases "length ?bs < 4")
      case True
      then have "sampled_records e counter ?n ?bs = []"
        by (intro sampled_records_stop) blast
      then show ?thesis using run inv True by (simp add: round)
    next
      case four: False
      from run four obtain c1 where nv: "new_vector heap c 4 (unat ?k) = Inr c1"
        by (auto simp: round split: sum.splits)
      show ?thesis
      proof (cases "length ?bs < 4 + 4 * unat ?k")
        case True
        then have "sampled_records e counter ?n ?bs = []"
          by (intro sampled_records_cut)
        then show ?thesis using run inv four True by (simp add: round nv)
      next
        case full: False
        from run four full obtain c2 inn2 where
          are: "add_reverse_edges heap num_nodes (ucast node_id) ?nbrs (c1, in_nbrs)
                  = Inr (c2, inn2)"
          and rec: "small_file_loop heap e num_nodes
                      (c2, ins\<lparr>pos := pos ins + (4 + 4 * unat ?k)\<rparr>,
                       counter + (4 + ucast ?k * 4), node_id + 1,
                       out_nbrs[unat node_id := ?nbrs], inn2)
                    = Inr (c', ins', counter', node_id', out_nbrs', in_nbrs')"
          by (auto simp: round nv split: sum.splits)
        have suc: "unat (node_id + 1) = Suc (unat node_id)" using lt by (rule word_succ_unat)
        have m: "unat node_id < unat num_nodes" using lt by (simp add: word_less_nat_alt)
        have dec: "unat num_nodes - unat (node_id + 1) < unat num_nodes - unat node_id"
          using m by (simp add: suc)
        have inv2: "sample_invariant (unat num_nodes) (unat (node_id + 1))
                      (out_nbrs[unat node_id := ?nbrs]) inn2"
          using inv lt are by (rule sample_invariant_step)
        have g2: "good (ins\<lparr>pos := pos ins + (4 + 4 * unat ?k)\<rparr>)" using good by simp
        note ih = less.hyps [OF dec g2 inv2 rec]
        have step: "sampled_records e counter ?n ?bs =
                      ?nbrs # sampled_records e (counter + (4 + ucast ?k * 4))
                               (unat num_nodes - unat (node_id + 1))
                               (drop (pos (ins\<lparr>pos := pos ins + (4 + 4 * unat ?k)\<rparr>))
                                  (content (ins\<lparr>pos := pos ins + (4 + 4 * unat ?k)\<rparr>)))"
          using sampled_records_step [OF ne npos, of ?bs] full
          by (simp add: suc add.commute [where 'a = nat])
        have tk: "take (unat (node_id + 1)) (out_nbrs[unat node_id := ?nbrs])
                    = take (unat node_id) out_nbrs @ [?nbrs]"
          using m lo by (simp add: suc take_Suc_conv_app_nth)
        show ?thesis
          unfolding step using ih unfolding tk by simp
      qed
    qed
  qed
qed

lemma small_file_loop_granted:
  assumes "\<forall>c n. heap c n"
  shows "\<exists>c' ins' counter' node_id' out_nbrs' in_nbrs'.
           small_file_loop heap e num_nodes (c, ins, counter, node_id, out_nbrs, in_nbrs)
             = Inr (c', ins', counter', node_id', out_nbrs', in_nbrs')"
proof (induction "unat num_nodes - unat node_id" arbitrary: c ins counter node_id out_nbrs in_nbrs
        rule: less_induct)
  case less
  let ?bs = "drop (pos ins) (content ins)"
  let ?k = "le_word (take 4 ?bs) :: u32"
  let ?nbrs = "decode_u32s (take (4 * unat ?k) (drop 4 ?bs))"
  show ?case
  proof (cases "counter \<noteq> e \<and> node_id < num_nodes \<and> good ins")
    case False
    then show ?thesis by (subst small_file_loop.simps) auto
  next
    case True
    then have ne: "counter \<noteq> e" and lt: "node_id < num_nodes" and good: "good ins"
      by simp_all
    note round = small_file_loop_round [OF ne lt good, of heap c out_nbrs in_nbrs]
    define c1 where "c1 = (if unat ?k = 0 then c else Suc c)"
    have "unat ?k \<le> (2 ^ 63 - 1) div 4" using unat_u32_bound [of ?k] by simp
    then have nv: "new_vector heap c 4 (unat ?k) = Inr c1"
      unfolding c1_def using assms by (intro new_vector_granted)
    obtain c2 inn2 where
      are: "add_reverse_edges heap num_nodes (ucast node_id) ?nbrs (c1, in_nbrs) = Inr (c2, inn2)"
      using add_reverse_edges_granted [OF assms] by blast
    have suc: "unat (node_id + 1) = Suc (unat node_id)" using lt by (rule word_succ_unat)
    have m: "unat node_id < unat num_nodes" using lt by (simp add: word_less_nat_alt)
    have dec: "unat num_nodes - unat (node_id + 1) < unat num_nodes - unat node_id"
      using m by (simp add: suc)
    obtain r1 r2 r3 r4 r5 r6 where ih: "small_file_loop heap e num_nodes
        (c2, ins\<lparr>pos := pos ins + (4 + 4 * unat ?k)\<rparr>, counter + (4 + ucast ?k * 4),
         node_id + 1, out_nbrs[unat node_id := ?nbrs], inn2) = Inr (r1, r2, r3, r4, r5, r6)"
      using less.hyps [OF dec] by blast
    show ?thesis
      unfolding round nv sum.case are prod.case ih by simp
  qed
qed

lemma small_graph_from_file_sample:
  assumes "small_graph_from_file heap (Some bytes) offset num_nodes = Inr (Some g)"
  shows "0 \<le> sint offset \<and> unat offset + 24 \<le> length bytes
         \<and> g = sample_of (ucast (header_entry_point bytes (unat offset)))
                 (sampled_records (header_expected_total_size bytes (unat offset)) 24
                    (unat num_nodes) (graph_body bytes (unat offset)))"
proof -
  have off: "0 \<le> sint offset"
  proof (rule ccontr)
    assume "\<not> 0 \<le> sint offset"
    then have "\<not> good (seekg_beg offset (open_stream bytes))" by (simp add: seekg_beg_open)
    with assms show False by (simp add: small_graph_from_file_def)
  qed
  define s where "s = \<lparr>content = bytes, pos = unat offset, good = True\<rparr>"
  define r1 where "r1 = read_u64 s"
  define r2 where "r2 = read_u32 (snd r1)"
  define r3 where "r3 = read_u32 (snd r2)"
  define r4 where "r4 = read_u64 (snd r3)"
  have seek: "seekg_beg offset (open_stream bytes) = s"
    using off by (simp add: seekg_beg_open s_def)
  have gs: "good s" by (simp add: s_def)
  define run where "run = (case new_vector heap 0 24 (unat num_nodes) of
       Inl e \<Rightarrow> Inl e
     | Inr c1 \<Rightarrow>
         (case new_vector heap c1 24 (unat num_nodes) of
            Inl e \<Rightarrow> Inl e
          | Inr c2 \<Rightarrow>
              (case small_file_loop heap (fst r1) num_nodes
                      (c2, snd r4, 24, 0, replicate (unat num_nodes) [],
                       replicate (unat num_nodes) []) of
                 Inl e \<Rightarrow> Inl e
               | Inr (c3, ins, counter, node_id, out_nbrs, in_nbrs) \<Rightarrow>
                   Inr (Some (finish_sample num_nodes node_id (ucast (fst r3))
                                out_nbrs in_nbrs)))))"
  have whole: "small_graph_from_file heap (Some bytes) offset num_nodes
                 = (if \<not> good (snd r4) then Inr None else run)"
    using gs
    by (simp add: small_graph_from_file_def seek split_beta Let_def run_def
          flip: r1_def r2_def r3_def r4_def cong: sum.case_cong)
  have g4: "good (snd r4)"
    using assms by (auto simp: whole split: if_splits)
  then have len: "unat offset + 24 \<le> length bytes"
    using graph_header_reads(1) [of s] by (simp add: r4_def r3_def r2_def r1_def s_def)
  have h: "content (snd r4) = bytes" "pos (snd r4) = unat offset + 24"
    "fst r1 = header_expected_total_size bytes (unat offset)"
    "fst r3 = header_entry_point bytes (unat offset)"
    using graph_header_reads(2) [of s] g4
    by (simp_all add: r4_def r3_def r2_def r1_def s_def header_expected_total_size_def
          header_entry_point_def)
  from assms g4 have "run = Inr (Some g)" by (simp add: whole)
  then obtain c2 c3 ins' cnt' nid' o' i' where
    loop: "small_file_loop heap (fst r1) num_nodes
             (c2, snd r4, 24, 0, replicate (unat num_nodes) [], replicate (unat num_nodes) [])
           = Inr (c3, ins', cnt', nid', o', i')"
    and g: "g = finish_sample num_nodes nid' (ucast (fst r3)) o' i'"
    by (auto simp: run_def split: sum.splits)
  have inv0: "sample_invariant (unat num_nodes) (unat (0 :: u64))
                (replicate (unat num_nodes) []) (replicate (unat num_nodes) [])"
    by (simp add: sample_invariant_start)
  note res = small_file_loop_sample [OF g4 inv0 loop]
  have inv: "sample_invariant (unat num_nodes) (unat nid') o' i'"
    using res by (rule conjunct1)
  have "take (unat nid') o' = take (unat (0 :: u64)) (replicate (unat num_nodes) [])
          @ sampled_records (fst r1) 24 (unat num_nodes - unat (0 :: u64))
              (drop (pos (snd r4)) (content (snd r4)))"
    using res by (rule conjunct2)
  then have rec: "take (unat nid') o' =
      sampled_records (header_expected_total_size bytes (unat offset)) 24 (unat num_nodes)
        (graph_body bytes (unat offset))"
    by (simp add: h graph_body_def)
  have "g = sample_of (ucast (fst r3)) (take (unat nid') o')"
    unfolding g using inv by (rule sample_invariant_finish)
  then show ?thesis
    using off len by (simp add: rec h)
qed

lemma small_graph_from_file_granted:
  assumes "\<forall>c n. heap c n" and "0 \<le> sint offset" and "unat offset + 24 \<le> length bytes"
    and "unat num_nodes \<le> (2 ^ 63 - 1) div 24"
  shows "\<exists>g. small_graph_from_file heap (Some bytes) offset num_nodes = Inr (Some g)"
proof -
  define s where "s = \<lparr>content = bytes, pos = unat offset, good = True\<rparr>"
  define r1 where "r1 = read_u64 s"
  define r2 where "r2 = read_u32 (snd r1)"
  define r3 where "r3 = read_u32 (snd r2)"
  define r4 where "r4 = read_u64 (snd r3)"
  have seek: "seekg_beg offset (open_stream bytes) = s"
    using assms(2) by (simp add: seekg_beg_open s_def)
  have gs: "good s" by (simp add: s_def)
  have g4: "good (snd r4)"
    using graph_header_reads(1) [of s] assms(3) by (simp add: r4_def r3_def r2_def r1_def s_def)
  define c1 where "c1 = (if unat num_nodes = 0 then 0 else Suc 0)"
  define c2 where "c2 = (if unat num_nodes = 0 then c1 else Suc c1)"
  have nv1: "new_vector heap 0 24 (unat num_nodes) = Inr c1"
    unfolding c1_def using assms(1,4) by (rule new_vector_granted)
  have nv2: "new_vector heap c1 24 (unat num_nodes) = Inr c2"
    unfolding c2_def using assms(1,4) by (rule new_vector_granted)
  obtain c3 ins' cnt' nid' o' i' where
    loop: "small_file_loop heap (fst r1) num_nodes
             (c2, snd r4, 24, 0, replicate (unat num_nodes) [], replicate (unat num_nodes) [])
           = Inr (c3, ins', cnt', nid', o', i')"
    using small_file_loop_granted [OF assms(1)] by blast
  show ?thesis
    using gs g4
    by (simp add: small_graph_from_file_def seek split_beta Let_def nv1 nv2 loop
          flip: r1_def r2_def r3_def r4_def cong: sum.case_cong)
qed

section \<open>Reverse edges of a paged sample\<close>

text \<open>One round of the inner loop.\<close>

lemma small_sector_loop_round:
  fixes h :: disk_header and j nh sec :: u64
  defines "off \<equiv> j * max_node_len h"
  defines "cap \<equiv> \<lambda>nnbrs :: u32. if off + nh + 4 + ucast nnbrs * 4 > 4096
                                 then (4096 - (off + nh + 4)) div 4 else (ucast nnbrs :: u64)"
  assumes "j < nnodes_per_sector h" and "nodes_read < num_nodes"
  shows "small_sector_loop heap sector h nh num_nodes sec j (c, nodes_read, out_nbrs, in_nbrs) =
        (if sec * nnodes_per_sector h + j \<ge> disk_nnodes h \<or> off + nh + 4 > 4096
         then Inr (c, nodes_read, out_nbrs, in_nbrs)
         else case memcpy_u32 sector (off + nh) of
                None \<Rightarrow> Inl BufferOverrun
              | Some nnbrs \<Rightarrow>
                  (case new_vector heap c 4 (unat (cap nnbrs)) of
                     Inl e \<Rightarrow> Inl e
                   | Inr c1 \<Rightarrow>
                       (case memcpy_u32s sector (off + nh + 4) (cap nnbrs) of
                          None \<Rightarrow> Inl BufferOverrun
                        | Some nbrs \<Rightarrow>
                            (case add_reverse_edges heap num_nodes (ucast nodes_read) nbrs
                                    (c1, in_nbrs) of
                               Inl e \<Rightarrow> Inl e
                             | Inr (c2, in_nbrs') \<Rightarrow>
                                 small_sector_loop heap sector h nh num_nodes sec (j + 1)
                                   (c2, nodes_read + 1, out_nbrs[unat nodes_read := nbrs],
                                    in_nbrs')))))"
  using assms(3,4) unfolding off_def cap_def
  by (subst small_sector_loop.simps)
     (simp add: Let_def cong: option.case_cong sum.case_cong)

lemma small_sector_loop_invariant:
  assumes "sample_invariant (unat num_nodes) (unat nodes_read) out_nbrs in_nbrs"
    and "small_sector_loop heap sector h nh num_nodes sec j (c, nodes_read, out_nbrs, in_nbrs)
           = Inr (c', nodes_read', out_nbrs', in_nbrs')"
  shows "sample_invariant (unat num_nodes) (unat nodes_read') out_nbrs' in_nbrs'"
  using assms
proof (induction "unat (nnodes_per_sector h) - unat j" arbitrary: j c nodes_read out_nbrs in_nbrs
        rule: less_induct)
  case less
  show ?case
  proof (cases "j < nnodes_per_sector h \<and> nodes_read < num_nodes")
    case False
    then have "small_sector_loop heap sector h nh num_nodes sec j (c, nodes_read, out_nbrs, in_nbrs)
                 = Inr (c, nodes_read, out_nbrs, in_nbrs)"
      by (subst small_sector_loop.simps) auto
    with less.prems show ?thesis by simp
  next
    case True
    then have jl: "j < nnodes_per_sector h" and lt: "nodes_read < num_nodes" by simp_all
    note round = small_sector_loop_round [OF jl lt, of heap sector nh sec c out_nbrs in_nbrs]
    show ?thesis
    proof (cases "sec * nnodes_per_sector h + j \<ge> disk_nnodes h
                  \<or> j * max_node_len h + nh + 4 > 4096")
      case True
      with less.prems show ?thesis by (simp add: round)
    next
      case False
      with less.prems(2) obtain nbrs c1 c2 inn2 where
        are: "add_reverse_edges heap num_nodes (ucast nodes_read) nbrs (c1, in_nbrs)
                = Inr (c2, inn2)"
        and rec: "small_sector_loop heap sector h nh num_nodes sec (j + 1)
                (c2, nodes_read + 1, out_nbrs[unat nodes_read := nbrs], inn2)
              = Inr (c', nodes_read', out_nbrs', in_nbrs')"
        by (auto simp: round split: option.splits sum.splits)
      have "unat (j + 1) = Suc (unat j)" using jl by (rule word_succ_unat)
      moreover have "unat j < unat (nnodes_per_sector h)" using jl by (simp add: word_less_nat_alt)
      ultimately have dec: "unat (nnodes_per_sector h) - unat (j + 1) < unat (nnodes_per_sector h) - unat j"
        by simp
      have inv: "sample_invariant (unat num_nodes) (unat (nodes_read + 1))
                   (out_nbrs[unat nodes_read := nbrs]) inn2"
        using less.prems(1) lt are by (rule sample_invariant_step)
      show ?thesis
        using less.hyps [OF dec inv rec] .
    qed
  qed
qed

lemma small_page_loop_invariant:
  assumes "sample_invariant (unat num_nodes) (unat nodes_read) out_nbrs in_nbrs"
    and "small_page_loop heap h nh num_nodes n_sectors sec (c, ins, nodes_read, out_nbrs, in_nbrs)
           = Inr (c', ins', nodes_read', out_nbrs', in_nbrs')"
  shows "sample_invariant (unat num_nodes) (unat nodes_read') out_nbrs' in_nbrs'"
  using assms
proof (induction "unat n_sectors - unat sec" arbitrary: sec c ins nodes_read out_nbrs in_nbrs
        rule: less_induct)
  case less
  show ?case
  proof (cases "sec < n_sectors \<and> nodes_read < num_nodes \<and> good ins")
    case False
    then have "small_page_loop heap h nh num_nodes n_sectors sec (c, ins, nodes_read, out_nbrs, in_nbrs)
                 = Inr (c, ins, nodes_read, out_nbrs, in_nbrs)"
      by (subst small_page_loop.simps) auto
    with less.prems show ?thesis by simp
  next
    case True
    then have sl: "sec < n_sectors" by simp
    define sector where "sector = fst (read_bytes kSectorLen ins)"
    define in1 where "in1 = snd (read_bytes kSectorLen ins)"
    have unfold: "small_page_loop heap h nh num_nodes n_sectors sec (c, ins, nodes_read, out_nbrs, in_nbrs) =
        (if \<not> good in1 then Inr (c, in1, nodes_read, out_nbrs, in_nbrs)
         else case small_sector_loop heap sector h nh num_nodes sec 0 (c, nodes_read, out_nbrs, in_nbrs) of
                Inl e \<Rightarrow> Inl e
              | Inr (c', nodes_read', out_nbrs', in_nbrs') \<Rightarrow>
                  small_page_loop heap h nh num_nodes n_sectors (sec + 1)
                    (c', in1, nodes_read', out_nbrs', in_nbrs'))"
      unfolding sector_def in1_def using True
      by (subst small_page_loop.simps) (simp add: split_beta)
    show ?thesis
    proof (cases "good in1")
      case False
      with less.prems show ?thesis by (simp add: unfold)
    next
      case True
      with less.prems(2) obtain c1 nr1 out1 inn1 where
        inner: "small_sector_loop heap sector h nh num_nodes sec 0 (c, nodes_read, out_nbrs, in_nbrs)
                  = Inr (c1, nr1, out1, inn1)"
        and rec: "small_page_loop heap h nh num_nodes n_sectors (sec + 1) (c1, in1, nr1, out1, inn1)
                  = Inr (c', ins', nodes_read', out_nbrs', in_nbrs')"
        by (auto simp: unfold split: sum.splits)
      have "unat (sec + 1) = Suc (unat sec)" using sl by (rule word_succ_unat)
      moreover have "unat sec < unat n_sectors" using sl by (simp add: word_less_nat_alt)
      ultimately have dec: "unat n_sectors - unat (sec + 1) < unat n_sectors - unat sec"
        by simp
      have inv: "sample_invariant (unat num_nodes) (unat nr1) out1 inn1"
        using less.prems(1) inner by (rule small_sector_loop_invariant)
      show ?thesis
        using less.hyps [OF dec inv rec] .
    qed
  qed
qed

text \<open>The paged sampler, with the header resolved.\<close>

lemma small_graph_from_disk_index_readable:
  fixes bytes :: "byte list"
  defines "h \<equiv> geometry_at bytes (geometry_offset bytes)"
  defines "num_nodes \<equiv> \<lambda>requested. if requested > disk_nnodes h then disk_nnodes h else requested"
  shows "small_graph_from_disk_index heap (Some bytes) data_type requested =
     (if \<not> geometry_offset bytes + 40 \<le> length bytes \<or> nnodes_per_sector h = 0
         \<or> geometry_rejected h data_type
      then Inr None
      else case new_vector heap 0 24 (unat (num_nodes requested)) of
             Inl e \<Rightarrow> Inl e
           | Inr c1 \<Rightarrow>
               (case new_vector heap c1 24 (unat (num_nodes requested)) of
                  Inl e \<Rightarrow> Inl e
                | Inr c2 \<Rightarrow>
                    (case new_vector heap c2 1 4096 of
                       Inl e \<Rightarrow> Inl e
                     | Inr c3 \<Rightarrow>
                         (case small_page_loop heap h (disk_ndims h * elem_size data_type)
                                 (num_nodes requested)
                                 ((disk_nnodes h + nnodes_per_sector h - 1) div nnodes_per_sector h) 0
                                 (c3, \<lparr>content = bytes, pos = 4096, good = True\<rparr>, 0,
                                  replicate (unat (num_nodes requested)) [],
                                  replicate (unat (num_nodes requested)) []) of
                            Inl e \<Rightarrow> Inl e
                          | Inr (c4, in3, nodes_read, out_nbrs, in_nbrs) \<Rightarrow>
                              Inr (Some (finish_sample (num_nodes requested) nodes_read
                                           (medoid_id_on_file h) out_nbrs in_nbrs))))))"
proof -
  define r where "r = read_disk_header (open_stream bytes)"
  note res = read_disk_header_resolved [of bytes, folded r_def]
  obtain h' d in1 where r: "r = (h', d, in1)" by (metis prod_cases3)
  have d: "d = 4096" using res(2) by (simp add: r)
  have c: "content in1 = bytes" using res(4) by (simp add: r)
  have g: "good in1 \<longleftrightarrow> geometry_offset bytes + 40 \<le> length bytes" using res(1) by (simp add: r)
  show ?thesis
  proof (cases "good in1")
    case False
    then show ?thesis
      using g by (simp add: small_graph_from_disk_index_def r [unfolded r_def])
  next
    case True
    then have hh: "h' = h" using res(3) by (simp add: r h_def)
    have seek: "seekg_beg 4096 in1 = \<lparr>content = bytes, pos = 4096, good = True\<rparr>"
      using True c by (cases in1) (simp add: seekg_beg_def)
    show ?thesis
      using True g
      by (simp add: small_graph_from_disk_index_def r [unfolded r_def] d hh seek Let_def
            geometry_rejected_def num_nodes_def cong: sum.case_cong)
  qed
qed

lemma small_graph_from_disk_index_sample:
  assumes "small_graph_from_disk_index heap file data_type requested = Inr (Some g)"
  shows "\<exists>out_nbrs. g = sample_of (sg_entry_point g) out_nbrs \<and> length out_nbrs \<le> unat requested"
proof -
  from assms obtain bytes where f: "file = Some bytes"
    by (cases "file") (simp_all add: small_graph_from_disk_index_def)
  define h where "h = geometry_at bytes (geometry_offset bytes)"
  define num_nodes where "num_nodes = (if requested > disk_nnodes h then disk_nnodes h else requested)"
  from assms obtain c3 c4 in3 nodes_read out_nbrs in_nbrs where
    loop: "small_page_loop heap h (disk_ndims h * elem_size data_type) num_nodes
             ((disk_nnodes h + nnodes_per_sector h - 1) div nnodes_per_sector h) 0
             (c3, \<lparr>content = bytes, pos = 4096, good = True\<rparr>, 0,
              replicate (unat num_nodes) [], replicate (unat num_nodes) [])
           = Inr (c4, in3, nodes_read, out_nbrs, in_nbrs)"
    and g: "g = finish_sample num_nodes nodes_read (medoid_id_on_file h) out_nbrs in_nbrs"
    unfolding f small_graph_from_disk_index_readable h_def num_nodes_def
    by (auto split: if_splits sum.splits)
  have "sample_invariant (unat num_nodes) (unat (0 :: u64))
          (replicate (unat num_nodes) []) (replicate (unat num_nodes) [])"
    by (simp add: sample_invariant_start)
  then have inv: "sample_invariant (unat num_nodes) (unat nodes_read) out_nbrs in_nbrs"
    using loop by (rule small_page_loop_invariant)
  have eq: "g = sample_of (medoid_id_on_file h) (take (unat nodes_read) out_nbrs)"
    unfolding g using inv by (rule sample_invariant_finish)
  have "unat num_nodes \<le> unat requested"
    by (simp add: num_nodes_def word_less_nat_alt)
  moreover have "length (take (unat nodes_read) out_nbrs) \<le> unat num_nodes"
    using inv by (simp add: sample_invariant_def)
  moreover have "sg_entry_point g = medoid_id_on_file h"
    by (simp add: eq sample_of_def)
  ultimately show ?thesis using eq by auto
qed

section \<open>The pages a sample reads\<close>

lemma unat_4096_minus:
  fixes w :: u64
  assumes "unat w \<le> 4096"
  shows "unat (4096 - w) = 4096 - unat w"
proof -
  have "w \<le> 4096" using assms by (simp add: word_le_nat_alt)
  then show ?thesis by (simp add: unat_sub)
qed

text \<open>The number of neighbour ids copied from a slot.\<close>

lemma neighbour_cap:
  fixes w :: u64 and deg :: u32
  assumes "unat w \<le> 4096"
  shows "unat (if w + ucast deg * 4 > 4096 then (4096 - w) div 4 else ucast deg)
           = min (unat deg) ((4096 - unat w) div 4)"
proof -
  have d: "unat (ucast deg * 4 :: u64) = 4 * unat deg" by (rule unat_skip)
  have "unat w + unat (ucast deg * 4 :: u64) < 2 ^ 64"
    using assms unat_u32_bound [of deg] by (simp add: d)
  then have s: "unat (w + ucast deg * 4) = unat w + 4 * unat deg"
    using unat_add_u64 [of w "ucast deg * 4"] by (simp add: d)
  show ?thesis
  proof (cases "w + ucast deg * 4 > 4096")
    case True
    then have "4096 < unat w + 4 * unat deg" by (simp add: word_less_nat_alt s)
    then have "4096 - unat w < unat deg * 4" using assms by linarith
    then have "(4096 - unat w) div 4 < unat deg" by (simp add: div_less_iff_less_mult)
    moreover have "unat ((4096 - w) div 4) = (4096 - unat w) div 4"
      using assms by (simp add: unat_div unat_4096_minus)
    ultimately show ?thesis using True by (simp add: min_def)
  next
    case False
    then have "unat w + 4 * unat deg \<le> 4096" by (simp add: word_less_nat_alt s)
    then show ?thesis using False by (simp add: min_def unat_ucast_u32)
  qed
qed

lemma small_sector_loop_slots:
  fixes h :: disk_header and esz sec j num_nodes :: u64
  defines "nps \<equiv> unat (nnodes_per_sector h)"
  defines "mnl \<equiv> unat (max_node_len h)"
  defines "dd \<equiv> unat (disk_ndims h) * unat esz"
  defines "m \<equiv> min nps (unat num_nodes - unat sec * nps)"
  assumes heap: "\<forall>c n. heap c n"
    and nowrap: "unat sec * nps + nps < 2 ^ 64"
    and fit: "(nps - 1) * mnl + dd + 4 \<le> 4096"
    and len: "length sector = 4096"
    and Nn: "unat num_nodes \<le> unat (disk_nnodes h)"
    and j: "unat j \<le> m"
    and nr: "unat nodes_read = unat sec * nps + unat j"
    and lo: "length out_nbrs = unat num_nodes"
  shows "\<exists>c' nodes_read' out_nbrs' in_nbrs'.
           small_sector_loop heap sector h (disk_ndims h * esz) num_nodes sec j
             (c, nodes_read, out_nbrs, in_nbrs) = Inr (c', nodes_read', out_nbrs', in_nbrs')
           \<and> unat nodes_read' = unat sec * nps + m
           \<and> length out_nbrs' = unat num_nodes
           \<and> take (unat sec * nps + m) out_nbrs' =
               take (unat sec * nps + unat j) out_nbrs
               @ map (slot_neighbors sector h esz) [unat j ..< m]"
  using j nr lo
proof (induction "m - unat j" arbitrary: j c nodes_read out_nbrs in_nbrs)
  case 0
  then have jm: "unat j = m" by simp
  have "\<not> (j < nnodes_per_sector h \<and> nodes_read < num_nodes)"
  proof (cases "unat j < nps")
    case False
    then show ?thesis by (simp add: nps_def word_less_nat_alt)
  next
    case True
    with jm have "m = unat num_nodes - unat sec * nps" by (simp add: m_def min_def split: if_splits)
    then have "unat num_nodes \<le> unat nodes_read" using 0(3) jm by simp
    then show ?thesis by (simp add: word_less_nat_alt)
  qed
  then have "small_sector_loop heap sector h (disk_ndims h * esz) num_nodes sec j
               (c, nodes_read, out_nbrs, in_nbrs) = Inr (c, nodes_read, out_nbrs, in_nbrs)"
    by (subst small_sector_loop.simps) auto
  then show ?case using 0(3,4) jm by simp
next
  case (Suc d)
  then have lt: "unat j < m" by simp
  then have jn: "unat j < nps" and jr: "unat j < unat num_nodes - unat sec * nps"
    by (simp_all add: m_def)
  have jw: "j < nnodes_per_sector h" using jn by (simp add: nps_def word_less_nat_alt)
  have nrN: "unat nodes_read < unat num_nodes" using jr Suc.prems(2) by simp
  then have nrw: "nodes_read < num_nodes" by (simp add: word_less_nat_alt)
  have suc: "unat (j + 1) = Suc (unat j)" using jw by (rule word_succ_unat)
  have nsuc: "unat (nodes_read + 1) = Suc (unat nodes_read)" using nrw by (rule word_succ_unat)
  have id: "unat (sec * nnodes_per_sector h + j) = unat sec * nps + unat j"
    unfolding nps_def using nowrap jn
    by (intro unat_mult_add_u64) (simp add: nps_def)
  then have "unat (sec * nnodes_per_sector h + j) < unat (disk_nnodes h)"
    using nrN Nn Suc.prems(2) by simp
  then have nid: "\<not> disk_nnodes h \<le> sec * nnodes_per_sector h + j"
    by (simp add: word_le_nat_alt)
  have "unat j * mnl \<le> (nps - 1) * mnl"
    using jn by (intro mult_le_mono1) simp
  then have slot': "unat j * mnl + dd + 4 \<le> 4096"
    using fit by linarith
  then have slot: "unat j * unat (max_node_len h) + unat (disk_ndims h) * unat esz + 4 \<le> 4096"
    by (simp only: mnl_def dd_def)
  have addr: "unat (j * max_node_len h + disk_ndims h * esz) = unat j * mnl + dd"
    using slot_address(1) [OF slot] by (simp add: mnl_def dd_def)
  have guard: "\<not> j * max_node_len h + disk_ndims h * esz + 4 > 4096"
    using slot_address(2) [OF slot] .
  define deg :: u32 where "deg = le_word (take 4 (drop (unat j * mnl + dd) sector))"
  have cp: "memcpy_u32 sector (j * max_node_len h + disk_ndims h * esz) = Some deg"
    using slot by (simp add: memcpy_u32_def addr len mnl_def dd_def deg_def)
  define w where "w = j * max_node_len h + disk_ndims h * esz + 4"
  have uw: "unat w = unat j * mnl + dd + 4"
    unfolding w_def using slot' addr unat_add_u64 [of "j * max_node_len h + disk_ndims h * esz" 4]
    by simp
  define cap where "cap = (if w + ucast deg * 4 > 4096 then (4096 - w) div 4 else (ucast deg :: u64))"
  have ucap: "unat cap = min (unat deg) ((4096 - (unat j * mnl + dd + 4)) div 4)"
    unfolding cap_def using neighbour_cap [of w deg] slot' by (simp add: uw)
  define nbrs where "nbrs = slot_neighbors sector h esz (unat j)"
  have nb: "nbrs = decode_u32s (take (4 * unat cap) (drop (unat j * mnl + dd + 4) sector))"
    by (simp add: nbrs_def slot_neighbors_def Let_def ucap deg_def flip: mnl_def dd_def)
  have "unat cap \<le> 1024" using ucap by simp
  then have "unat cap \<le> (2 ^ 63 - 1) div 4" by simp
  then obtain c1 where nv: "new_vector heap c 4 (unat cap) = Inr c1"
    using new_vector_granted [OF heap] by blast
  have "unat w + 4 * unat cap \<le> length sector"
    using ucap slot' by (simp add: uw len)
  then have mc: "memcpy_u32s sector w cap = Some nbrs"
    by (cases "cap = 0") (simp_all add: memcpy_u32s_def nb uw)
  obtain c2 inn2 where
    are: "add_reverse_edges heap num_nodes (ucast nodes_read) nbrs (c1, in_nbrs) = Inr (c2, inn2)"
    using add_reverse_edges_granted [OF heap] by blast
  have step: "small_sector_loop heap sector h (disk_ndims h * esz) num_nodes sec j
                (c, nodes_read, out_nbrs, in_nbrs) =
              small_sector_loop heap sector h (disk_ndims h * esz) num_nodes sec (j + 1)
                (c2, nodes_read + 1, out_nbrs[unat nodes_read := nbrs], inn2)"
  proof -
    have "small_sector_loop heap sector h (disk_ndims h * esz) num_nodes sec j
                (c, nodes_read, out_nbrs, in_nbrs) =
          (case memcpy_u32 sector (j * max_node_len h + disk_ndims h * esz) of
                None \<Rightarrow> Inl BufferOverrun
              | Some nnbrs \<Rightarrow>
                  (case new_vector heap c 4
                          (unat (if j * max_node_len h + disk_ndims h * esz + 4 + ucast nnbrs * 4 > 4096
                                 then (4096 - (j * max_node_len h + disk_ndims h * esz + 4)) div 4
                                 else (ucast nnbrs :: u64))) of
                     Inl e \<Rightarrow> Inl e
                   | Inr c1 \<Rightarrow>
                       (case memcpy_u32s sector (j * max_node_len h + disk_ndims h * esz + 4)
                               (if j * max_node_len h + disk_ndims h * esz + 4 + ucast nnbrs * 4 > 4096
                                 then (4096 - (j * max_node_len h + disk_ndims h * esz + 4)) div 4
                                 else (ucast nnbrs :: u64)) of
                          None \<Rightarrow> Inl BufferOverrun
                        | Some nbrs \<Rightarrow>
                            (case add_reverse_edges heap num_nodes (ucast nodes_read) nbrs
                                    (c1, in_nbrs) of
                               Inl e \<Rightarrow> Inl e
                             | Inr (c2, in_nbrs') \<Rightarrow>
                                 small_sector_loop heap sector h (disk_ndims h * esz) num_nodes sec (j + 1)
                                   (c2, nodes_read + 1, out_nbrs[unat nodes_read := nbrs],
                                    in_nbrs')))))"
      using nid guard by (simp add: small_sector_loop_round [OF jw nrw])
    then show ?thesis
      unfolding cp option.case w_def [symmetric] cap_def [symmetric] nv sum.case mc are prod.case .
  qed
  have "d = m - unat (j + 1)" using Suc.hyps(2) by (simp add: suc)
  moreover have "unat (j + 1) \<le> m" using lt by (simp add: suc)
  moreover have "unat (nodes_read + 1) = unat sec * nps + unat (j + 1)"
    using Suc.prems(2) by (simp add: suc nsuc)
  moreover have "length (out_nbrs[unat nodes_read := nbrs]) = unat num_nodes"
    using Suc.prems(3) by simp
  ultimately obtain c' nr' o' i' where
    ih1: "small_sector_loop heap sector h (disk_ndims h * esz) num_nodes sec (j + 1)
            (c2, nodes_read + 1, out_nbrs[unat nodes_read := nbrs], inn2) = Inr (c', nr', o', i')"
    and ih2: "unat nr' = unat sec * nps + m" "length o' = unat num_nodes"
    and ih3: "take (unat sec * nps + m) o' =
               take (unat sec * nps + unat (j + 1)) (out_nbrs[unat nodes_read := nbrs])
               @ map (slot_neighbors sector h esz) [unat (j + 1) ..< m]"
    using Suc.hyps(1) [of "j + 1" "nodes_read + 1" "out_nbrs[unat nodes_read := nbrs]" c2 inn2]
    by blast
  have tk: "take (unat sec * nps + unat (j + 1)) (out_nbrs[unat nodes_read := nbrs])
              = take (unat sec * nps + unat j) out_nbrs @ [nbrs]"
    using nrN Suc.prems(2,3) by (simp add: suc take_Suc_conv_app_nth)
  have u: "[unat j ..< m] = unat j # [Suc (unat j) ..< m]"
    using lt by (simp add: upt_conv_Cons)
  have "take (unat sec * nps + m) o' =
          take (unat sec * nps + unat j) out_nbrs @ map (slot_neighbors sector h esz) [unat j ..< m]"
    unfolding ih3 tk u by (simp add: suc nbrs_def)
  then show ?case
    unfolding step ih1 using ih2 by simp
qed

lemma below_ceil:
  fixes n k s :: nat
  assumes "1 \<le> k" and "s * k < n"
  shows "s < (n + k - 1) div k"
proof (rule ccontr)
  define C where "C = (n + k - 1) div k"
  assume "\<not> s < (n + k - 1) div k"
  then have "C \<le> s" by (simp add: C_def)
  then have "C * k \<le> s * k" by (rule mult_le_mono1)
  moreover have "n \<le> C * k" unfolding C_def using assms(1) by (rule ceil_div_covers)
  ultimately show False using assms(2) by linarith
qed

lemma page_end:
  fixes a k N :: nat
  assumes "a < N"
  shows "a + min k (N - a) = min (a + k) N"
  using assms by linarith

lemma slot_is_neighbors_at:
  assumes "i < unat (nnodes_per_sector h)"
  shows "neighbors_at bytes h esz (s * unat (nnodes_per_sector h) + i)
           = slot_neighbors (index_page bytes s) h esz i"
  using assms by (simp add: neighbors_at_def)

lemma small_page_loop_pages:
  fixes h :: disk_header and esz n_sectors sec num_nodes :: u64
  defines "nps \<equiv> unat (nnodes_per_sector h)"
  defines "n \<equiv> unat (disk_nnodes h)"
  defines "mnl \<equiv> unat (max_node_len h)"
  defines "dd \<equiv> unat (disk_ndims h) * unat esz"
  defines "N \<equiv> unat num_nodes"
  assumes heap: "\<forall>c n. heap c n"
    and nps1: "1 \<le> nps"
    and fit: "(nps - 1) * mnl + dd + 4 \<le> 4096"
    and S: "unat n_sectors = (n + nps - 1) div nps"
    and nowrap: "n + nps < 2 ^ 64"
    and Nn: "N \<le> n"
    and readable: "4096 + 4096 * ((N + nps - 1) div nps) \<le> length bytes"
    and nr: "unat nodes_read = min (unat sec * nps) N"
    and lo: "length out_nbrs = N"
  shows "\<exists>c' ins' out_nbrs' in_nbrs'.
           small_page_loop heap h (disk_ndims h * esz) num_nodes n_sectors sec
             (c, \<lparr>content = bytes, pos = 4096 + 4096 * unat sec, good = True\<rparr>,
              nodes_read, out_nbrs, in_nbrs)
             = Inr (c', ins', num_nodes, out_nbrs', in_nbrs')
           \<and> out_nbrs' = take (unat nodes_read) out_nbrs
                           @ map (neighbors_at bytes h esz) [unat nodes_read ..< N]"
  using nr lo
proof (induction "N - unat nodes_read" arbitrary: sec c nodes_read out_nbrs in_nbrs
        rule: less_induct)
  case less
  let ?ins = "\<lparr>content = bytes, pos = 4096 + 4096 * unat sec, good = True\<rparr>"
  note nr = less.prems(1) and lo = less.prems(2)
  show ?case
  proof (cases "nodes_read < num_nodes")
    case False
    then have "N \<le> unat nodes_read" by (simp add: N_def word_less_nat_alt)
    with nr have eq: "unat nodes_read = N" by simp
    then have w: "nodes_read = num_nodes" by (simp add: N_def word_unat_eq_iff)
    have "small_page_loop heap h (disk_ndims h * esz) num_nodes n_sectors sec
            (c, ?ins, nodes_read, out_nbrs, in_nbrs) = Inr (c, ?ins, nodes_read, out_nbrs, in_nbrs)"
      using False by (subst small_page_loop.simps) simp
    then show ?thesis using lo eq w by simp
  next
    case True
    then have lt: "unat nodes_read < N" by (simp add: N_def word_less_nat_alt)
    with nr have sN: "unat sec * nps < N" and nrs: "unat nodes_read = unat sec * nps"
      by (simp_all add: min_def split: if_splits)
    let ?sector = "index_page bytes (unat sec)"
    let ?m = "min nps (N - unat sec * nps)"
    have mpos: "0 < ?m" using nps1 sN by simp
    have "unat sec * nps < n" using sN Nn by simp
    then have "unat sec < (n + nps - 1) div nps" using nps1 by (intro below_ceil)
    then have ltw: "sec < n_sectors" by (simp add: word_less_nat_alt S)
    then have suc: "unat (sec + 1) = Suc (unat sec)" by (rule word_succ_unat)
    have "unat sec < (N + nps - 1) div nps" using nps1 sN by (intro below_ceil)
    then have "Suc (unat sec) \<le> (N + nps - 1) div nps" by simp
    then have "4096 * Suc (unat sec) \<le> 4096 * ((N + nps - 1) div nps)"
      by (rule mult_le_mono2)
    then have page: "4096 + 4096 * Suc (unat sec) \<le> length bytes"
      using readable by linarith
    have rd: "read_bytes kSectorLen ?ins =
                (?sector, \<lparr>content = bytes, pos = 4096 + 4096 * unat (sec + 1), good = True\<rparr>)"
      using page by (simp add: read_bytes_def kSectorLen_def suc index_page_def)
    have sl: "length ?sector = 4096" using page by (simp add: index_page_def)
    have nw: "unat sec * nps + nps < 2 ^ 64"
      using \<open>unat sec * nps < n\<close> nowrap by simp
    have j0: "unat (0 :: u64) \<le> min nps (unat num_nodes - unat sec * nps)" by simp
    have nr0: "unat nodes_read = unat sec * nps + unat (0 :: u64)" using nrs by simp
    obtain c1 nr1 o1 i1 where
      inner: "small_sector_loop heap ?sector h (disk_ndims h * esz) num_nodes sec 0
                (c, nodes_read, out_nbrs, in_nbrs) = Inr (c1, nr1, o1, i1)"
      and nr1: "unat nr1 = unat sec * nps + ?m"
      and lo1: "length o1 = N"
      and tk1: "take (unat sec * nps + ?m) o1 =
                  take (unat sec * nps + unat (0 :: u64)) out_nbrs
                  @ map (slot_neighbors ?sector h esz) [unat (0 :: u64) ..< ?m]"
      using small_sector_loop_slots [OF heap, of sec h esz ?sector num_nodes 0 nodes_read
          out_nbrs c in_nbrs] nw fit sl Nn j0 nr0 lo
      unfolding nps_def n_def mnl_def dd_def N_def by blast
    have step: "small_page_loop heap h (disk_ndims h * esz) num_nodes n_sectors sec
                  (c, ?ins, nodes_read, out_nbrs, in_nbrs) =
                small_page_loop heap h (disk_ndims h * esz) num_nodes n_sectors (sec + 1)
                  (c1, \<lparr>content = bytes, pos = 4096 + 4096 * unat (sec + 1), good = True\<rparr>,
                   nr1, o1, i1)"
      using ltw True by (subst small_page_loop.simps) (simp add: rd inner)
    have e: "unat (sec + 1) * nps = unat sec * nps + nps" by (simp add: suc)
    have nr1': "unat nr1 = min (unat (sec + 1) * nps) N"
      unfolding nr1 e using sN by (rule page_end)
    have "unat nodes_read < unat nr1" using mpos by (simp add: nr1 nrs)
    moreover have "unat nr1 \<le> N" using nr1' by simp
    ultimately have dec: "N - unat nr1 < N - unat nodes_read"
      by linarith
    obtain c' ins' o' i' where
      ih: "small_page_loop heap h (disk_ndims h * esz) num_nodes n_sectors (sec + 1)
             (c1, \<lparr>content = bytes, pos = 4096 + 4096 * unat (sec + 1), good = True\<rparr>,
              nr1, o1, i1) = Inr (c', ins', num_nodes, o', i')"
      and o': "o' = take (unat nr1) o1 @ map (neighbors_at bytes h esz) [unat nr1 ..< N]"
      using less.hyps [OF dec nr1' lo1] by blast
    have slots: "map (slot_neighbors ?sector h esz) [0 ..< ?m]
                   = map (neighbors_at bytes h esz) (map (\<lambda>i. unat sec * nps + i) [0 ..< ?m])"
      using slot_is_neighbors_at [of _ h bytes esz "unat sec"]
      by (simp add: nps_def)
    have "unat sec * nps + ?m \<le> N" using sN by simp
    then have "[unat sec * nps ..< N]
                 = [unat sec * nps ..< unat sec * nps + ?m] @ [unat sec * nps + ?m ..< N]"
      using upt_add_eq_append [of "unat sec * nps" "unat sec * nps + ?m"
          "N - (unat sec * nps + ?m)"] by simp
    moreover have "[unat sec * nps ..< unat sec * nps + ?m] = map (\<lambda>i. unat sec * nps + i) [0 ..< ?m]"
      using map_add_upt [of "unat sec * nps" ?m] by (simp add: add.commute)
    ultimately have ids: "[unat sec * nps ..< N]
        = map (\<lambda>i. unat sec * nps + i) [0 ..< ?m] @ [unat sec * nps + ?m ..< N]"
      by simp
    have "o' = (take (unat sec * nps) out_nbrs @ map (slot_neighbors ?sector h esz) [0 ..< ?m])
               @ map (neighbors_at bytes h esz) [unat sec * nps + ?m ..< N]"
      unfolding o' nr1 using tk1 by simp
    also have "\<dots> = take (unat sec * nps) out_nbrs
                     @ map (neighbors_at bytes h esz) [unat sec * nps ..< N]"
      unfolding slots by (simp only: ids map_append append_assoc)
    finally have "o' = take (unat nodes_read) out_nbrs
                       @ map (neighbors_at bytes h esz) [unat nodes_read ..< N]"
      by (simp only: nrs)
    then show ?thesis
      unfolding step ih by simp
  qed
qed

lemma small_graph_from_disk_index_pages:
  fixes bytes :: "byte list" and data_type :: DiskIndexDataType and requested :: u64
  defines "h \<equiv> geometry_at bytes (geometry_offset bytes)"
  defines "esz \<equiv> elem_size data_type"
  defines "n \<equiv> unat (disk_nnodes h)"
  defines "nps \<equiv> unat (nnodes_per_sector h)"
  defines "N \<equiv> min (unat requested) n"
  assumes heap: "\<forall>c n. heap c n"
    and hdr: "geometry_offset bytes + 40 \<le> length bytes"
    and nps1: "1 \<le> nps"
    and geo1: "unat (disk_ndims h) * unat esz + 4 \<le> unat (max_node_len h)"
    and geo2: "unat (max_node_len h) \<le> 4096"
    and fit: "(nps - 1) * unat (max_node_len h) + unat (disk_ndims h) * unat esz + 4 \<le> 4096"
    and nowrap: "n + nps < 2 ^ 64"
    and size: "N \<le> (2 ^ 63 - 1) div 24"
    and readable: "4096 + 4096 * ((N + nps - 1) div nps) \<le> length bytes"
  shows "small_graph_from_disk_index heap (Some bytes) data_type requested =
           Inr (Some (sample_of (medoid_id_on_file h)
                        (map (neighbors_at bytes h esz) [0 ..< N])))"
proof -
  define num_nodes where
    "num_nodes = (if requested > disk_nnodes h then disk_nnodes h else requested)"
  have uN: "unat num_nodes = N"
    by (simp add: num_nodes_def N_def n_def word_less_nat_alt min_def)
  have Sw: "unat ((disk_nnodes h + nnodes_per_sector h - 1) div nnodes_per_sector h)
              = (n + nps - 1) div nps"
    using ceil_sectors_word [of "nnodes_per_sector h" "disk_nnodes h"] nps1 nowrap
    by (simp add: n_def nps_def)
  have ddw: "unat (disk_ndims h * esz + 4) = unat (disk_ndims h) * unat esz + 4"
  proof -
    have "unat (disk_ndims h) * unat esz + unat (4 :: u64) < 2 ^ 64" using geo1 geo2 by simp
    then show ?thesis using unat_mult_add_u64 [of "disk_ndims h" esz 4] by simp
  qed
  have ok: "\<not> geometry_rejected h data_type"
    using geo1 geo2 ddw
    by (simp add: geometry_rejected_def word_less_nat_alt esz_def)
  have nz: "nnodes_per_sector h \<noteq> 0" using nps1 by (auto simp: nps_def)
  define c1 where "c1 = (if unat num_nodes = 0 then 0 else Suc 0)"
  define c2 where "c2 = (if unat num_nodes = 0 then c1 else Suc c1)"
  have sz: "unat num_nodes \<le> (2 ^ 63 - 1) div 24" using size by (simp add: uN)
  have nv1: "new_vector heap 0 24 (unat num_nodes) = Inr c1"
    unfolding c1_def using heap sz by (rule new_vector_granted)
  have nv2: "new_vector heap c1 24 (unat num_nodes) = Inr c2"
    unfolding c2_def using heap sz by (rule new_vector_granted)
  have nv3: "new_vector heap c2 (Suc 0) 4096 = Inr (Suc c2)"
    using new_vector_granted [OF heap, of 4096 1 c2] by simp
  have nr0: "unat (0 :: u64) = min (unat (0 :: u64) * unat (nnodes_per_sector h)) (unat num_nodes)"
    by simp
  have lo0: "length (replicate (unat num_nodes) [] :: u32 list list) = unat num_nodes"
    by simp
  have Nn: "unat num_nodes \<le> unat (disk_nnodes h)"
    by (simp add: uN N_def n_def)
  have rdb: "4096 + 4096 * ((unat num_nodes + unat (nnodes_per_sector h) - 1)
                              div unat (nnodes_per_sector h)) \<le> length bytes"
    using readable by (simp add: uN nps_def)
  note pages = small_page_loop_pages [where h = h and esz = esz and num_nodes = num_nodes
      and n_sectors = "(disk_nnodes h + nnodes_per_sector h - 1) div nnodes_per_sector h"
      and bytes = bytes and sec = 0 and nodes_read = 0 and c = "Suc c2"
      and out_nbrs = "replicate (unat num_nodes) []" and in_nbrs = "replicate (unat num_nodes) []",
      OF heap nps1 [unfolded nps_def] fit [unfolded nps_def] Sw [unfolded n_def nps_def]
        nowrap [unfolded n_def nps_def] Nn rdb nr0 lo0]
  obtain c' ins' o' i' where
    loop: "small_page_loop heap h (disk_ndims h * esz) num_nodes
             ((disk_nnodes h + nnodes_per_sector h - 1) div nnodes_per_sector h) 0
             (Suc c2, \<lparr>content = bytes, pos = 4096 + 4096 * unat (0 :: u64), good = True\<rparr>, 0,
              replicate (unat num_nodes) [], replicate (unat num_nodes) [])
           = Inr (c', ins', num_nodes, o', i')"
    and o': "o' = take (unat (0 :: u64)) (replicate (unat num_nodes) [])
                   @ map (neighbors_at bytes h esz) [unat (0 :: u64) ..< unat num_nodes]"
    using pages by blast
  have loop': "small_page_loop heap h (disk_ndims h * elem_size data_type) num_nodes
             ((disk_nnodes h + nnodes_per_sector h - 1) div nnodes_per_sector h) 0
             (Suc c2, \<lparr>content = bytes, pos = 4096, good = True\<rparr>, 0,
              replicate (unat num_nodes) [], replicate (unat num_nodes) [])
           = Inr (c', ins', num_nodes, o', i')"
    using loop by (simp add: esz_def)
  have outs: "o' = map (neighbors_at bytes h esz) [0 ..< N]"
    using o' by (simp add: uN)
  have "sample_invariant (unat num_nodes) (unat (0 :: u64))
          (replicate (unat num_nodes) []) (replicate (unat num_nodes) [])"
    by (simp add: sample_invariant_start)
  then have inv: "sample_invariant (unat num_nodes) (unat num_nodes) o' i'"
    using loop' by (rule small_page_loop_invariant)
  have fin: "finish_sample num_nodes num_nodes (medoid_id_on_file h) o' i'
               = sample_of (medoid_id_on_file h) (take (unat num_nodes) o')"
    using inv by (rule sample_invariant_finish)
  have "take (unat num_nodes) o' = o'" using outs by (simp add: uN)
  then have fin': "finish_sample num_nodes num_nodes (medoid_id_on_file h) o' i'
               = sample_of (medoid_id_on_file h) (map (neighbors_at bytes h esz) [0 ..< N])"
    using fin outs by simp
  note rd = small_graph_from_disk_index_readable [of heap bytes data_type requested,
      folded h_def, folded num_nodes_def]
  show ?thesis
    unfolding rd using hdr nz ok
    by (simp add: nv1 nv2 nv3 loop' fin')
qed

section \<open>The samples of the three-node graph\<close>

lemma three_node_graph_records:
  "header_expected_total_size three_node_graph_file 0 = 52"
  "header_entry_point three_node_graph_file 0 = 1"
  "sampled_records 52 24 5 (graph_body three_node_graph_file 0)
     = [[1, 5], [2], [0]]"
proof -
  show "header_expected_total_size three_node_graph_file 0 = 52"
    by (simp add: header_expected_total_size_def three_node_graph_file_def)
  show "header_entry_point three_node_graph_file 0 = 1"
    by (simp add: header_entry_point_def three_node_graph_file_def)
  have b: "graph_body three_node_graph_file 0
             = [2,0,0,0, 1,0,0,0, 5,0,0,0, 1,0,0,0, 2,0,0,0, 1,0,0,0, 0,0,0,0]"
    by (simp add: graph_body_def three_node_graph_file_def)
  have s1: "sampled_records 52 24 5 [2,0,0,0, 1,0,0,0, 5,0,0,0, 1,0,0,0, 2,0,0,0, 1,0,0,0, 0,0,0,0]
              = [1, 5] # sampled_records 52 36 4 [1,0,0,0, 2,0,0,0, 1,0,0,0, 0,0,0,0]"
    by (subst sampled_records_step) simp_all
  have s2: "sampled_records 52 36 4 [1,0,0,0, 2,0,0,0, 1,0,0,0, 0,0,0,0]
              = [2] # sampled_records 52 44 3 [1,0,0,0, 0,0,0,0]"
    by (subst sampled_records_step) simp_all
  have s3: "sampled_records 52 44 3 [1,0,0,0, 0,0,0,0] = [0] # sampled_records 52 52 2 []"
    by (subst sampled_records_step) simp_all
  have s4: "sampled_records 52 52 2 [] = []"
    by (rule sampled_records_stop) simp
  show "sampled_records 52 24 5 (graph_body three_node_graph_file 0)
     = [[1, 5], [2], [0]]"
    by (simp add: b s1 s2 s3 s4)
qed

lemma three_node_sample:
  "sample_of 1 [[1, 5], [2], [0]] =
     \<lparr>sg_num_nodes = 3, sg_entry_point = 1,
      sg_out_nbrs = [[1, 5], [2], [0]], sg_in_nbrs = [[2], [0], [1]]\<rparr>"
  by (simp add: sample_of_def referrers_def upt_rec)

lemma three_node_index_geometry:
  "geometry_offset three_node_index = 0"
  "geometry_at three_node_index 0 =
     \<lparr>disk_nnodes = 3, disk_ndims = 1, medoid_id_on_file = 1, max_node_len = 16,
      nnodes_per_sector = 2\<rparr>"
  "length three_node_index = 12288"
  by (simp_all add: three_node_index_def geometry_offset_def tagged_layout_def geometry_at_def)

lemma three_node_index_pages:
  "index_page three_node_index 0 =
     [7, 2,0,0,0, 1,0,0,0, 5,0,0,0, 0,0,0,  7, 1,0,0,0, 2,0,0,0, 0,0,0,0, 0,0,0]
     @ replicate 4064 0"
  "index_page three_node_index (Suc 0) =
     [7, 1,0,0,0, 0,0,0,0, 0,0,0,0, 0,0,0] @ replicate 4080 0"
  by (simp_all add: three_node_index_def index_page_def)

lemma three_node_index_neighbors:
  "map (neighbors_at three_node_index
          \<lparr>disk_nnodes = 3, disk_ndims = 1, medoid_id_on_file = 1, max_node_len = 16,
           nnodes_per_sector = 2\<rparr> 1) [0 ..< 3]
   = [[1, 5], [2], [0]]"
proof -
  let ?h = "\<lparr>disk_nnodes = 3, disk_ndims = 1, medoid_id_on_file = 1, max_node_len = 16,
           nnodes_per_sector = 2\<rparr>"
  have "neighbors_at three_node_index ?h 1 0 = [1, 5]"
    by (simp add: neighbors_at_def three_node_index_pages slot_neighbors_def)
  moreover have "neighbors_at three_node_index ?h 1 1 = [2]"
    by (simp add: neighbors_at_def three_node_index_pages slot_neighbors_def)
  moreover have "neighbors_at three_node_index ?h 1 2 = [0]"
    by (simp add: neighbors_at_def three_node_index_pages slot_neighbors_def)
  moreover have "[0 ..< 3] = [0, 1, 2 :: nat]" by (simp add: upt_rec)
  ultimately show ?thesis by simp
qed

section \<open>Vectors that cannot be built\<close>

lemma small_graph_from_file_no_vector:
  assumes "0 \<le> sint offset" and "unat offset + 24 \<le> length bytes"
  shows "(2 ^ 63 - 1) div 24 < unat num_nodes \<Longrightarrow>
           small_graph_from_file heap (Some bytes) offset num_nodes = Inl LengthError"
    and "0 < unat num_nodes \<Longrightarrow> unat num_nodes \<le> (2 ^ 63 - 1) div 24 \<Longrightarrow>
         \<not> heap 0 (unat num_nodes * 24) \<Longrightarrow>
           small_graph_from_file heap (Some bytes) offset num_nodes = Inl BadAlloc"
proof -
  define s where "s = \<lparr>content = bytes, pos = unat offset, good = True\<rparr>"
  define r1 where "r1 = read_u64 s"
  define r2 where "r2 = read_u32 (snd r1)"
  define r3 where "r3 = read_u32 (snd r2)"
  define r4 where "r4 = read_u64 (snd r3)"
  have seek: "seekg_beg offset (open_stream bytes) = s"
    using assms(1) by (simp add: seekg_beg_open s_def)
  have gs: "good s" by (simp add: s_def)
  have g4: "good (snd r4)"
    using graph_header_reads(1) [of s] assms(2) by (simp add: r4_def r3_def r2_def r1_def s_def)
  have whole: "small_graph_from_file heap (Some bytes) offset num_nodes =
      (case new_vector heap 0 24 (unat num_nodes) of
         Inl e \<Rightarrow> Inl e
       | Inr c1 \<Rightarrow>
           (case new_vector heap c1 24 (unat num_nodes) of
              Inl e \<Rightarrow> Inl e
            | Inr c2 \<Rightarrow>
                (case small_file_loop heap (fst r1) num_nodes
                        (c2, snd r4, 24, 0, replicate (unat num_nodes) [],
                         replicate (unat num_nodes) []) of
                   Inl e \<Rightarrow> Inl e
                 | Inr (c3, ins, counter, node_id, out_nbrs, in_nbrs) \<Rightarrow>
                     Inr (Some (finish_sample num_nodes node_id (ucast (fst r3))
                                  out_nbrs in_nbrs)))))"
    using gs g4
    by (simp add: small_graph_from_file_def seek split_beta Let_def
          flip: r1_def r2_def r3_def r4_def cong: sum.case_cong)
  show "(2 ^ 63 - 1) div 24 < unat num_nodes \<Longrightarrow>
           small_graph_from_file heap (Some bytes) offset num_nodes = Inl LengthError"
    unfolding whole by (simp add: new_vector_def)
  show "0 < unat num_nodes \<Longrightarrow> unat num_nodes \<le> (2 ^ 63 - 1) div 24 \<Longrightarrow>
         \<not> heap 0 (unat num_nodes * 24) \<Longrightarrow>
           small_graph_from_file heap (Some bytes) offset num_nodes = Inl BadAlloc"
    unfolding whole by (simp add: new_vector_def allocate_def)
qed

(*CLAIMS*)
section \<open>Statistics of an adjacency list in memory\<close>

text \<open>
  Claim C8, as the code has it. Let the adjacency list hold at least
  \<open>nd + num_frozen_pts\<close> lists, let that number be positive, and let the neighbour ids of
  these lists, four bytes each, fit into the 64-bit address space (which every
  \<^verbatim>\<open>std::vector\<close> of the source satisfies). Then \<open>compute_graph_stats\<close> returns
  statistics whose \<open>total_edges\<close> is the sum of the lengths of the first
  \<open>nd + num_frozen_pts\<close> lists, whose \<open>degree_min\<close> and \<open>degree_max\<close> are the least and
  the greatest of these lengths, whose \<open>weak_count\<close> is the number of these lists shorter
  than \<open>weak_threshold\<close>, and whose \<open>degree_avg\<close> is the quotient of that sum and of
  \<open>nd + num_frozen_pts\<close>, both converted to \<^verbatim>\<open>double\<close>, in \<^verbatim>\<open>double\<close> arithmetic.
  When the sum and the number of lists are below \<open>2^53\<close>, so that their conversions are
  exact, \<open>degree_avg\<close> lies between \<open>degree_min\<close> and \<open>degree_max\<close>.
\<close>

theorem compute_graph_stats_degrees:
  fixes graph :: "u32 list list"
  defines "ls \<equiv> \<lambda>graph nd nf. map length (take (unat (nd + nf :: u64)) graph)"
  assumes holds: "unat (nd + nf) \<le> length graph"
    and pos: "nd + nf \<noteq> 0"
    and fits: "4 * sum_list (ls graph nd nf) < 2 ^ 64"
  shows "\<exists>s. compute_graph_stats graph nd nf ep wt = Inr s
           \<and> unat (total_edges s) = sum_list (ls graph nd nf)
           \<and> unat (degree_min s) = Min (set (ls graph nd nf))
           \<and> unat (degree_max s) = Max (set (ls graph nd nf))
           \<and> degree_avg s
               = double_div (to_double (sum_list (ls graph nd nf))) (to_double (unat (nd + nf)))
           \<and> (unat (nd + nf) < 2 ^ 53 \<and> sum_list (ls graph nd nf) < 2 ^ 53
                \<longrightarrow> of_nat (unat (degree_min s)) \<le> degree_avg s
                  \<and> degree_avg s \<le> of_nat (unat (degree_max s)))
           \<and> unat (weak_count s) = length (filter (\<lambda>l. l < unat wt) (ls graph nd nf))"
proof -
  define n where "n = unat (nd + nf)"
  define lens where "lens = ls graph nd nf"
  define ds :: "u64 list" where "ds = map (\<lambda>l. of_nat (length l)) (take n graph)"
  define a where "a = fold (accum_add (ucast wt)) ds accum_init"
  have npos: "0 < n" using pos by (simp add: n_def unat_gt_0)
  have len: "length lens = n" using holds by (simp add: lens_def ls_def n_def)
  have ne: "lens \<noteq> []" using npos len by auto
  have sum: "4 * sum_list lens < 2 ^ 64" using fits by (simp add: lens_def)
  have small: "x < 2 ^ 64 - 1" if "x \<in> set lens" for x
    using elem_le_sum_list_nat [OF that] sum by simp
  have un: "map unat ds = lens"
  proof -
    have "unat (of_nat (length l) :: u64) = length l" if "l \<in> set (take n graph)" for l
    proof -
      from that have "length l \<in> set lens" by (auto simp: lens_def ls_def n_def)
      then have "length l < 2 ^ 64" using small by fastforce
      then show ?thesis by (simp add: unat_of_nat)
    qed
    then show ?thesis by (simp add: ds_def lens_def ls_def n_def)
  qed
  have dne: "ds \<noteq> []" using ne un by auto
  have scan: "graph_scan graph nd nf wt = Inr (a, [0 ..< n])"
    using graph_scan_in_range [OF holds] by (simp add: a_def ds_def n_def)
  define s where "s = GraphStats_default\<lparr>total_nodes := nd + nf, active_nodes := nd,
                frozen_nodes := nf, entry_point := ep, total_edges := acc_total_edges a,
                degree_min := final_degree_min a,
                degree_avg := avg_of (acc_total_edges a) (nd + nf),
                degree_max := acc_degree_max a,
                weak_count := acc_weak_count a\<rparr>"
  have res: "compute_graph_stats graph nd nf ep wt = Inr s"
    using pos by (simp add: compute_graph_stats_scan scan s_def)
  have e: "unat (total_edges s) = sum_list lens"
    using accum_fold_edges_nat [of ds "ucast wt"] sum by (simp add: s_def a_def un)
  have "\<exists>d \<in> set ds. d \<noteq> size_t_max"
  proof -
    from dne obtain d where d: "d \<in> set ds" by (cases ds) auto
    then have "unat d \<in> set lens" using un by (metis image_eqI set_map)
    then have "unat d < 2 ^ 64 - 1" by (rule small)
    then have "d \<noteq> size_t_max" by (auto simp: size_t_max_def unsigned_minus_1_eq_mask mask_eq_exp_minus_1)
    with d show ?thesis by blast
  qed
  then have mn: "unat (degree_min s) = Min (set lens)"
    using accum_fold_min_nat [OF dne, of "ucast wt"] by (simp add: s_def a_def un)
  have mx: "unat (degree_max s) = Max (set lens)"
    using accum_fold_max_nat [OF dne, of "ucast wt"] by (simp add: s_def a_def un)
  have "length ds < 2 ^ 64"
    using len un unat_u64_bound [of "nd + nf"] by (metis length_map n_def)
  then have wk: "unat (weak_count s) = length (filter (\<lambda>l. l < unat wt) lens)"
    using accum_fold_weak_nat [of ds "ucast wt"]
    by (simp add: s_def a_def un unat_ucast_u32)
  have "degree_avg s = avg_of (total_edges s) (nd + nf)"
    by (simp add: s_def)
  then have av: "degree_avg s = double_div (to_double (sum_list lens)) (to_double n)"
    by (simp only: avg_of_def e n_def)
  have bounds: "of_nat (unat (degree_min s)) \<le> degree_avg s
                \<and> degree_avg s \<le> of_nat (unat (degree_max s))"
    if exact: "n < 2 ^ 53" "sum_list lens < 2 ^ 53"
  proof -
    have q: "degree_avg s = double_div (sum_list lens) n"
      using exact by (simp only: av to_double_exact)
    have lo: "Min (set lens) * n \<le> sum_list lens"
      using sum_list_ge_Min [OF ne] len by (simp add: mult.commute)
    have hi: "sum_list lens \<le> Max (set lens) * n"
      using sum_list_le_Max [of lens] len by (simp add: mult.commute)
    show ?thesis
      using double_div_bounds [OF exact(2) npos lo hi] by (simp only: q mn mx)
  qed
  show ?thesis
    using res e mn mx av bounds wk unfolding lens_def n_def by blast
qed

text \<open>
  The hand-built graph with degrees 0, 1, 2, 3, 1 and the default threshold 2 has three
  weak nodes; its average degree is the \<^verbatim>\<open>double\<close> nearest to \<open>7 / 5\<close>.
\<close>

theorem compute_graph_stats_degrees_witness:
  "unat (5 + 0 :: u64) \<le> length [[], [0], [0, 1], [0, 1, 2], [3 :: u32]]
   \<and> (5 + 0 :: u64) \<noteq> 0
   \<and> (\<exists>s. compute_graph_stats [[], [0], [0, 1], [0, 1, 2], [3]] 5 0 0 2 = Inr s
          \<and> unat (total_edges s) = 7 \<and> unat (degree_min s) = 0 \<and> unat (degree_max s) = 3
          \<and> degree_avg s = 3152519739159347 / 2251799813685248
          \<and> of_nat (unat (degree_min s)) \<le> degree_avg s
          \<and> degree_avg s \<le> of_nat (unat (degree_max s))
          \<and> unat (weak_count s) = 3)"
proof -
  let ?g = "[[], [0], [0, 1], [0, 1, 2], [3 :: u32]]"
  let ?ls = "map length (take (unat (5 + 0 :: u64)) ?g)"
  have h1: "unat (5 + 0 :: u64) \<le> length ?g" by simp
  have h2: "(5 + 0 :: u64) \<noteq> 0" by simp
  have h3: "4 * sum_list ?ls < 2 ^ 64" by simp
  have h4: "unat (5 + 0 :: u64) < 2 ^ 53 \<and> sum_list ?ls < 2 ^ 53" by simp
  have q: "double_div (to_double (sum_list ?ls)) (to_double (unat (5 + 0 :: u64)))
             = 3152519739159347 / 2251799813685248"
    by (simp add: double_eval)
  from compute_graph_stats_degrees [OF h1 h2 h3, of 0 2]
  obtain s where s: "compute_graph_stats ?g 5 0 0 2 = Inr s"
    "unat (total_edges s) = sum_list ?ls"
    "unat (degree_min s) = Min (set ?ls)"
    "unat (degree_max s) = Max (set ?ls)"
    "degree_avg s = double_div (to_double (sum_list ?ls)) (to_double (unat (5 + 0 :: u64)))"
    "unat (5 + 0 :: u64) < 2 ^ 53 \<and> sum_list ?ls < 2 ^ 53
       \<longrightarrow> of_nat (unat (degree_min s)) \<le> degree_avg s
         \<and> degree_avg s \<le> of_nat (unat (degree_max s))"
    "unat (weak_count s) = length (filter (\<lambda>l. l < unat (2 :: u32)) ?ls)"
    by blast
  from s(6) h4 have b: "of_nat (unat (degree_min s)) \<le> degree_avg s
         \<and> degree_avg s \<le> of_nat (unat (degree_max s))"
    by (rule mp)
  have "unat (total_edges s) = 7" using s(2) by simp
  moreover have "unat (degree_min s) = 0" using s(3) by simp
  moreover have "unat (degree_max s) = 3" using s(4) by simp
  moreover have "degree_avg s = 3152519739159347 / 2251799813685248" using s(5) q by (simp only:)
  moreover have "unat (weak_count s) = 3" using s(7) by simp
  ultimately show ?thesis
    using h1 h2 s(1) b by blast
qed

text \<open>
  The claim as written fails beyond the range in which \<^verbatim>\<open>double\<close> holds every integer:
  for \<open>2^53 + 1\<close> lists of three neighbours each, the number of lists is converted to
  \<open>2^53\<close> and the number of edges to \<open>3 * 2^53 + 4\<close>, and the average degree
  \<open>3 + 2^-51\<close> exceeds the maximal degree 3.
\<close>

theorem compute_graph_stats_average_above_max:
  "compute_graph_stats (replicate 9007199254740993 [0, 0, 0]) 9007199254740993 0 0 2
     = Inr \<lparr>total_nodes = 9007199254740993, active_nodes = 9007199254740993,
            frozen_nodes = 0, total_edges = 27021597764222979, degree_min = 3,
            degree_avg = 6755399441055745 / 2251799813685248, degree_max = 3,
            weak_count = 0, entry_point = 0\<rparr>
   \<and> (3 :: rat) < 6755399441055745 / 2251799813685248"
proof -
  have n: "unat (9007199254740993 :: u64) = 9007199254740993" by simp
  have "compute_graph_stats (replicate (unat (9007199254740993 :: u64)) [0, 0, 0])
          9007199254740993 0 0 2
     = Inr \<lparr>total_nodes = 9007199254740993, active_nodes = 9007199254740993,
            frozen_nodes = 0, total_edges = 9007199254740993 * 3, degree_min = 3,
            degree_avg = avg_of (9007199254740993 * 3) 9007199254740993, degree_max = 3,
            weak_count = 0, entry_point = 0\<rparr>"
    by (rule uniform_graph_stats) (simp_all add: word_less_nat_alt word_le_nat_alt)
  moreover have "avg_of (9007199254740993 * 3) 9007199254740993
                   = 6755399441055745 / 2251799813685248"
    by (simp add: double_eval)
  moreover have "(9007199254740993 * 3 :: u64) = 27021597764222979" by simp
  ultimately show ?thesis
    by (simp only: n) simp
qed

text \<open>
  Claim C9. When the adjacency list holds at least \<open>nd + num_frozen_pts\<close> lists,
  \<open>compute_graph_stats\<close> reads \<^verbatim>\<open>graph\<close> at exactly the indices
  \<open>0, \<dots>, nd + num_frozen_pts - 1\<close>, in this order and each once, every one of them in
  bounds, and returns statistics: the out-of-range branch is not taken.
\<close>

theorem compute_graph_stats_accesses_in_bounds:
  assumes "unat (nd + num_frozen_pts) \<le> length graph"
  shows "\<exists>s. compute_graph_stats_traced graph nd num_frozen_pts ep weak_threshold
               = Inr (s, [0 ..< unat (nd + num_frozen_pts)])
            \<and> compute_graph_stats graph nd num_frozen_pts ep weak_threshold = Inr s"
proof (cases "nd + num_frozen_pts = 0")
  case True
  then show ?thesis
    by (simp add: compute_graph_stats_def compute_graph_stats_traced_def)
next
  case False
  then show ?thesis
    using graph_scan_in_range [OF assms, of weak_threshold]
    by (simp add: compute_graph_stats_def compute_graph_stats_traced_def)
qed

theorem compute_graph_stats_accesses_in_bounds_witness:
  "unat (2 + 1 :: u64) \<le> length [[1], [0, 2], [], [7 :: u32]]
   \<and> (\<exists>s. compute_graph_stats_traced [[1], [0, 2], [], [7]] 2 1 0 2 = Inr (s, [0, 1, 2])
          \<and> compute_graph_stats [[1], [0, 2], [], [7]] 2 1 0 2 = Inr s)"
proof -
  have h: "unat (2 + 1 :: u64) \<le> length [[1], [0, 2], [], [7 :: u32]]" by simp
  have "[0 ..< unat (2 + 1 :: u64)] = [0, 1, 2]" by (simp add: upt_rec)
  with compute_graph_stats_accesses_in_bounds [OF h, of 0 2] h show ?thesis by simp
qed

text \<open>Without that precondition the first index beyond the list is reached.\<close>

lemma compute_graph_stats_short_graph:
  assumes "length graph < unat (nd + num_frozen_pts)"
  shows "compute_graph_stats graph nd num_frozen_pts ep weak_threshold = Inl OutOfRange"
proof -
  have "nd + num_frozen_pts \<noteq> 0" using assms by auto
  moreover have "graph_scan graph nd num_frozen_pts weak_threshold = Inl OutOfRange"
    using graph_loop_out_of_range [OF assms, of 0] by (simp add: graph_scan_def)
  ultimately show ?thesis by (simp add: compute_graph_stats_scan GraphStats_default_def)
qed

section \<open>The sequential scanner\<close>

text \<open>
  Claim C1, as the code has it. Let the stream hold the 24-byte header at \<open>offset\<close>.
  Then \<open>compute_graph_stats_from_file\<close> returns the statistics of the degree fields it
  reads before the running byte counter equals the expected size or the read of a degree
  field fails: \<open>total_nodes\<close> is their number, \<open>total_edges\<close> their sum, \<open>degree_min\<close>,
  \<open>degree_max\<close>, \<open>degree_avg\<close> and \<open>weak_count\<close> are taken over them, and \<open>entry_point\<close>
  and \<open>frozen_nodes\<close> are the header's. The neighbour ids are skipped by a seek, so a
  record counts as soon as its degree field is read. In particular, when the header
  announces the size of \<open>N\<close> well-formed records and the body consists of the first
  \<open>k \<le> N\<close> of them (followed by anything if \<open>k = N\<close>, by fewer than four bytes if
  \<open>k < N\<close>), the statistics are those of exactly these \<open>k\<close> records.
\<close>

theorem from_file_degree_fields:
  assumes "0 \<le> sint offset" and "unat offset + 24 \<le> length bytes"
  shows "compute_graph_stats_from_file (Some bytes) offset = Some (scanned_stats bytes (unat offset))
         \<and> (\<forall>recs k tail.
               (\<forall>r \<in> set recs. record_ok r)
               \<and> unat (header_expected_total_size bytes (unat offset)) = stream_size recs
               \<and> k \<le> length recs
               \<and> graph_body bytes (unat offset) = record_stream (take k recs) @ tail
               \<and> (k < length recs \<longrightarrow> length tail < 4)
               \<longrightarrow> compute_graph_stats_from_file (Some bytes) offset =
                     Some (stats_of_degrees (map record_degree (take k recs)) (of_nat k)
                            (if header_frozen_count bytes (unat offset) \<le> of_nat k
                             then of_nat k - header_frozen_count bytes (unat offset) else 0)
                            (header_frozen_count bytes (unat offset))
                            (header_entry_point bytes (unat offset))))"
proof (intro conjI allI impI)
  show r: "compute_graph_stats_from_file (Some bytes) offset = Some (scanned_stats bytes (unat offset))"
    using assms by (rule from_file_readable)
  fix recs :: "record_bytes list" and k tail
  assume a: "(\<forall>r \<in> set recs. record_ok r)
               \<and> unat (header_expected_total_size bytes (unat offset)) = stream_size recs
               \<and> k \<le> length recs
               \<and> graph_body bytes (unat offset) = record_stream (take k recs) @ tail
               \<and> (k < length recs \<longrightarrow> length tail < 4)"
  then have "degree_fields (header_expected_total_size bytes (unat offset)) 24
               (record_stream (take k recs) @ tail) = map record_degree (take k recs)"
    by (intro degree_fields_prefix_of_records) simp_all
  then show "compute_graph_stats_from_file (Some bytes) offset =
                     Some (stats_of_degrees (map record_degree (take k recs)) (of_nat k)
                            (if header_frozen_count bytes (unat offset) \<le> of_nat k
                             then of_nat k - header_frozen_count bytes (unat offset) else 0)
                            (header_frozen_count bytes (unat offset))
                            (header_entry_point bytes (unat offset)))"
    using a by (simp add: r scanned_stats_def Let_def min_absorb2)
qed

text \<open>
  A file that announces two records, of degrees 2 and 0, and is cut after the first.
\<close>

theorem from_file_degree_fields_witness:
  "0 \<le> sint (0 :: u64)
   \<and> unat (0 :: u64) + 24 \<le> length [40,0,0,0,0,0,0,0, 3,0,0,0, 1,0,0,0, 1,0,0,0,0,0,0,0,
                                        2,0,0,0, 1,0,0,0, 0,0,0,0 :: byte]
   \<and> compute_graph_stats_from_file
        (Some [40,0,0,0,0,0,0,0, 3,0,0,0, 1,0,0,0, 1,0,0,0,0,0,0,0, 2,0,0,0, 1,0,0,0, 0,0,0,0]) 0
      = Some \<lparr>total_nodes = 1, active_nodes = 0, frozen_nodes = 1, total_edges = 2,
              degree_min = 2, degree_avg = 2, degree_max = 2, weak_count = 0, entry_point = 1\<rparr>"
proof -
  let ?F = "[40,0,0,0,0,0,0,0, 3,0,0,0, 1,0,0,0, 1,0,0,0,0,0,0,0, 2,0,0,0, 1,0,0,0, 0,0,0,0 :: byte]"
  let ?recs = "[([2,0,0,0], [1,0,0,0, 0,0,0,0]), ([0,0,0,0], [])] :: record_bytes list"
  have h1: "0 \<le> sint (0 :: u64)" by simp
  have h2: "unat (0 :: u64) + 24 \<le> length ?F" by simp
  have e: "header_expected_total_size ?F 0 = 40" by (simp add: header_expected_total_size_def)
  have f: "header_frozen_count ?F 0 = 1" by (simp add: header_frozen_count_def)
  have p: "header_entry_point ?F 0 = 1" by (simp add: header_entry_point_def)
  have d: "map record_degree ?recs = [2, 0]" by (simp add: record_degree_def)
  have ok: "\<forall>r \<in> set ?recs. record_ok r" by (simp add: record_ok_def record_degree_def)
  have sz: "unat (header_expected_total_size ?F (unat (0 :: u64))) = stream_size ?recs"
    by (simp add: e stream_size_def record_degree_def)
  have b: "graph_body ?F (unat (0 :: u64)) = record_stream (take 1 ?recs) @ []"
    by (simp add: graph_body_def record_stream_def)
  from from_file_degree_fields [OF h1 h2, THEN conjunct2, rule_format, of ?recs 1 "[]"] ok sz b
  have "compute_graph_stats_from_file (Some ?F) 0 =
          Some (stats_of_degrees (map record_degree (take 1 ?recs)) (of_nat 1)
                            (if header_frozen_count ?F (unat (0 :: u64)) \<le> of_nat 1
                             then of_nat 1 - header_frozen_count ?F (unat (0 :: u64)) else 0)
                            (header_frozen_count ?F (unat (0 :: u64)))
                            (header_entry_point ?F (unat (0 :: u64))))"
    by simp
  also have "\<dots> = Some \<lparr>total_nodes = 1, active_nodes = 0, frozen_nodes = 1, total_edges = 2,
              degree_min = 2, degree_avg = 2, degree_max = 2, weak_count = 0, entry_point = 1\<rparr>"
    using e f p by (simp add: stats_of_degrees_def record_degree_def double_eval)
  finally show ?thesis using h2 by simp
qed

text \<open>
  Claim C1 as it is worded speaks of complete records. A header followed by a degree
  field 1 and no neighbour id holds no complete record, yet one node and one edge are
  reported.
\<close>

theorem from_file_counts_cut_record:
  "map_option total_nodes
     (compute_graph_stats_from_file
        (Some [32,0,0,0,0,0,0,0, 0,0,0,0, 0,0,0,0, 0,0,0,0,0,0,0,0, 1,0,0,0]) 0) = Some 1
   \<and> map_option total_edges
     (compute_graph_stats_from_file
        (Some [32,0,0,0,0,0,0,0, 0,0,0,0, 0,0,0,0, 0,0,0,0,0,0,0,0, 1,0,0,0]) 0) = Some 1
   \<and> length (complete_records
        (header_expected_total_size [32,0,0,0,0,0,0,0, 0,0,0,0, 0,0,0,0, 0,0,0,0,0,0,0,0, 1,0,0,0] 0) 24
        (graph_body [32,0,0,0,0,0,0,0, 0,0,0,0, 0,0,0,0, 0,0,0,0,0,0,0,0, 1,0,0,0] 0)) = 0"
proof -
  let ?F = "[32,0,0,0,0,0,0,0, 0,0,0,0, 0,0,0,0, 0,0,0,0,0,0,0,0, 1,0,0,0 :: byte]"
  have e: "header_expected_total_size ?F 0 = 32" by (simp add: header_expected_total_size_def)
  have b: "graph_body ?F 0 = [1,0,0,0]" by (simp add: graph_body_def)
  have "degree_fields 32 24 [1,0,0,0] = [1]"
    by (simp add: degree_fields_step degree_fields_stop)
  then have s: "scanned_stats ?F 0 = stats_of_degrees [1] 1 1 0 0"
    by (simp add: scanned_stats_def e b header_frozen_count_def header_entry_point_def)
  have "compute_graph_stats_from_file (Some ?F) 0 = Some (scanned_stats ?F (unat (0 :: u64)))"
    by (rule from_file_readable) simp_all
  then have r: "compute_graph_stats_from_file (Some ?F) 0 = Some (stats_of_degrees [1] 1 1 0 0)"
    by (simp add: s)
  have c: "complete_records 32 24 [1,0,0,0] = []"
    by (rule complete_records_cut) simp
  show ?thesis
    by (simp add: r e b c stats_of_degrees_def)
qed

text \<open>
  Claim C10. \<open>compute_graph_stats_from_file\<close> returns on every file and every offset,
  and so does its scan loop from every state and for every expected size, although the
  loop compares the byte counter by inequality only: a round of the loop on a good
  stream either continues with the position advanced by at least four bytes, or leaves
  the stream failed, which ends the loop.
\<close>

theorem from_file_returns:
  "(\<exists>s. compute_graph_stats_from_file file offset = Some s)
   \<and> (\<exists>st'. scan_loop e st = Some st')
   \<and> (good (scan_in st) \<longrightarrow>
        (case scan_body st of
           (continue, st1) \<Rightarrow>
             if continue then good (scan_in st1) \<and> pos (scan_in st) + 4 \<le> pos (scan_in st1)
             else \<not> good (scan_in st1)))"
proof (intro conjI impI)
  show "\<exists>s. compute_graph_stats_from_file file offset = Some s"
  proof (cases "file = None \<or> (\<exists>bytes. file = Some bytes \<and> (sint offset < 0 \<or> length bytes < unat offset + 24))")
    case True
    then show ?thesis by (simp add: from_file_unreadable)
  next
    case False
    then obtain bytes where "file = Some bytes" "0 \<le> sint offset" "unat offset + 24 \<le> length bytes"
      by (cases "file") auto
    then show ?thesis by (simp add: from_file_readable)
  qed
  show "\<exists>st'. scan_loop e st = Some st'" by (rule scan_loop_returns)
  assume g: "good (scan_in st)"
  show "case scan_body st of
           (continue, st1) \<Rightarrow>
             if continue then good (scan_in st1) \<and> pos (scan_in st) + 4 \<le> pos (scan_in st1)
             else \<not> good (scan_in st1)"
  proof (cases "pos (scan_in st) + 4 \<le> length (content (scan_in st))")
    case True
    then show ?thesis
      using g by (simp add: scan_body_def read_u32_enough seekg_cur_skip Let_def)
  next
    case False
    then show ?thesis
      using g read_u32_short [of "scan_in st"] by (simp add: scan_body_def split_beta)
  qed
qed

text \<open>
  The header announces 28 bytes; the one record moves the counter from 24 to 32,
  strictly past it, and the loop goes on until the next read fails.
\<close>

theorem from_file_returns_witness:
  "good (scan_in \<lparr>scan_in = \<lparr>content = [28,0,0,0,0,0,0,0, 0,0,0,0, 0,0,0,0, 0,0,0,0,0,0,0,0,
                                           1,0,0,0, 9,0,0,0],
                               pos = 24, good = True\<rparr>,
                   bytes_read = 24, scan_acc = accum_init, nodes = 0\<rparr>)
   \<and> (\<exists>s. compute_graph_stats_from_file
             (Some [28,0,0,0,0,0,0,0, 0,0,0,0, 0,0,0,0, 0,0,0,0,0,0,0,0, 1,0,0,0, 9,0,0,0]) 0 = Some s)
   \<and> (\<exists>st'. scan_loop 28
               \<lparr>scan_in = \<lparr>content = [28,0,0,0,0,0,0,0, 0,0,0,0, 0,0,0,0, 0,0,0,0,0,0,0,0,
                                       1,0,0,0, 9,0,0,0],
                           pos = 24, good = True\<rparr>,
                bytes_read = 24, scan_acc = accum_init, nodes = 0\<rparr> = Some st')
   \<and> (case scan_body \<lparr>scan_in = \<lparr>content = [28,0,0,0,0,0,0,0, 0,0,0,0, 0,0,0,0, 0,0,0,0,0,0,0,0,
                                               1,0,0,0, 9,0,0,0],
                                   pos = 24, good = True\<rparr>,
                       bytes_read = 24, scan_acc = accum_init, nodes = 0\<rparr> of
         (continue, st1) \<Rightarrow> continue \<and> bytes_read st1 = 32 \<and> pos (scan_in st1) = 32
                               \<and> good (scan_in st1))"
proof -
  let ?F = "[28,0,0,0,0,0,0,0, 0,0,0,0, 0,0,0,0, 0,0,0,0,0,0,0,0, 1,0,0,0, 9,0,0,0 :: byte]"
  let ?st = "\<lparr>scan_in = \<lparr>content = ?F, pos = 24, good = True\<rparr>,
              bytes_read = 24, scan_acc = accum_init, nodes = 0\<rparr>"
  have b: "scan_body ?st =
             (True, \<lparr>scan_in = \<lparr>content = ?F, pos = 32, good = True\<rparr>, bytes_read = 32,
                     scan_acc = accum_add 2 1 accum_init, nodes = 1\<rparr>)"
    by (simp add: scan_body_def read_u32_enough seekg_cur_def Let_def)
  show ?thesis
    using from_file_returns [of "Some ?F" 0 28 ?st] by (simp add: b)
qed

section \<open>The header of a disk-paged index\<close>

text \<open>
  Claim C6. The header block commits to the tagged reading exactly when the first eight
  bytes can be read and the first four, as a signed 32-bit integer, are at least 5
  (\<open>tagged_layout\<close>). It then reads the five geometry fields right behind the tag, at
  offset 8, and needs 48 bytes; otherwise it rewinds and reads the same five fields at
  offset 0, and needs 40 bytes. In both cases the body offset is 4096. When the bytes
  needed are not there the stream has failed and the statistics routine returns the
  all-zero result: no second reading is tried after a short read.
\<close>

theorem disk_header_resolution:
  "(case read_disk_header (open_stream bytes) of
      (h, data_offset, ins) \<Rightarrow>
        data_offset = 4096
        \<and> (good ins \<longleftrightarrow> (if tagged_layout bytes then 48 else 40) \<le> length bytes)
        \<and> (good ins \<longrightarrow> h = geometry_at bytes (if tagged_layout bytes then 8 else 0))
        \<and> (\<not> good ins \<longrightarrow>
              compute_graph_stats_from_disk_index (Some bytes) data_type = Inr GraphStats_default))"
proof -
  define r where "r = read_disk_header (open_stream bytes)"
  have 1: "fst (snd r) = 4096"
    using read_disk_header_resolved(2) [of bytes] by (simp add: r_def)
  have 2: "good (snd (snd r)) \<longleftrightarrow> (if tagged_layout bytes then 48 else 40) \<le> length bytes"
    using read_disk_header_resolved(1) [of bytes] by (simp add: r_def geometry_offset_def)
  have 3: "good (snd (snd r)) \<longrightarrow> fst r = geometry_at bytes (if tagged_layout bytes then 8 else 0)"
    using read_disk_header_resolved(3) [of bytes] by (simp add: r_def geometry_offset_def)
  have 4: "\<not> good (snd (snd r)) \<longrightarrow>
             compute_graph_stats_from_disk_index (Some bytes) data_type = Inr GraphStats_default"
  proof
    assume "\<not> good (snd (snd r))"
    then have "length bytes < geometry_offset bytes + 40"
      using read_disk_header_resolved(1) [of bytes] by (simp add: r_def)
    then show "compute_graph_stats_from_disk_index (Some bytes) data_type = Inr GraphStats_default"
      by (simp add: compute_graph_stats_from_disk_index_def disk_index_scan_unreadable)
  qed
  show ?thesis
    using 1 2 3 4 by (simp add: split_beta flip: r_def)
qed

text \<open>A tagged header of 48 bytes, and a file of 12 bytes that is too short for either reading.\<close>

theorem disk_header_resolution_witness:
  "tagged_layout [7,0,0,0, 2,0,0,0, 1,0,0,0,0,0,0,0, 0,0,0,0,0,0,0,0, 3,0,0,0,0,0,0,0,
                  8,0,0,0,0,0,0,0, 1,0,0,0,0,0,0,0]
   \<and> (case read_disk_header (open_stream
          [7,0,0,0, 2,0,0,0, 1,0,0,0,0,0,0,0, 0,0,0,0,0,0,0,0, 3,0,0,0,0,0,0,0,
           8,0,0,0,0,0,0,0, 1,0,0,0,0,0,0,0]) of
        (h, data_offset, ins) \<Rightarrow>
          good ins \<and> data_offset = 4096
          \<and> h = \<lparr>disk_nnodes = 1, disk_ndims = 0, medoid_id_on_file = 3, max_node_len = 8,
                   nnodes_per_sector = 1\<rparr>)
   \<and> \<not> tagged_layout [4,0,0,0, 2,0,0,0, 1,0,0,0]
   \<and> compute_graph_stats_from_disk_index (Some [4,0,0,0, 2,0,0,0, 1,0,0,0]) kFloat
       = Inr GraphStats_default"
proof -
  let ?B = "[7,0,0,0, 2,0,0,0, 1,0,0,0,0,0,0,0, 0,0,0,0,0,0,0,0, 3,0,0,0,0,0,0,0,
             8,0,0,0,0,0,0,0, 1,0,0,0,0,0,0,0 :: byte]"
  let ?C = "[4,0,0,0, 2,0,0,0, 1,0,0,0 :: byte]"
  have t: "tagged_layout ?B" by (simp add: tagged_layout_def)
  have g: "geometry_at ?B 8 = \<lparr>disk_nnodes = 1, disk_ndims = 0, medoid_id_on_file = 3,
             max_node_len = 8, nnodes_per_sector = 1\<rparr>"
    by (simp add: geometry_at_def)
  have u: "\<not> tagged_layout ?C" by (simp add: tagged_layout_def)
  show ?thesis
    using disk_header_resolution [of ?B kFloat] disk_header_resolution [of ?C kFloat] t g u
    by (simp add: split_beta)
qed

section \<open>A paged index without records per page\<close>

text \<open>
  Claim C3, as the code has it. When the resolved geometry has \<open>records_per_page = 0\<close>,
  the statistics routine returns zero edge statistics (\<open>total_edges\<close>, \<open>degree_min\<close>,
  \<open>degree_avg\<close>, \<open>degree_max\<close>, \<open>weak_count\<close> and \<open>frozen_nodes\<close> are 0). If the geometry
  fails the sanity test, as it does when a record is longer than a page, the result is
  all zero; otherwise \<open>total_nodes\<close> and \<open>active_nodes\<close> are the node count of the header
  and \<open>entry_point\<close> is the low 32 bits of its medoid id.
\<close>

theorem disk_index_no_records_per_page:
  assumes "geometry_offset bytes + 40 \<le> length bytes"
    and "nnodes_per_sector (geometry_at bytes (geometry_offset bytes)) = 0"
  shows "compute_graph_stats_from_disk_index (Some bytes) data_type =
           Inr (if geometry_rejected (geometry_at bytes (geometry_offset bytes)) data_type
                then GraphStats_default
                else GraphStats_default
                       \<lparr>total_nodes := disk_nnodes (geometry_at bytes (geometry_offset bytes)),
                        active_nodes := disk_nnodes (geometry_at bytes (geometry_offset bytes)),
                        entry_point :=
                          ucast (medoid_id_on_file (geometry_at bytes (geometry_offset bytes)))\<rparr>)"
  using assms
  by (simp add: compute_graph_stats_from_disk_index_def disk_index_scan_readable
        GraphStats_default_def)

text \<open>Records of 8192 bytes, longer than a page: the result is all zero.\<close>

theorem disk_index_no_records_per_page_witness:
  "geometry_offset [0,0,0,0,0,0,0,0, 0,0,0,0,0,0,0,0, 3,0,0,0,0,0,0,0, 0,32,0,0,0,0,0,0,
                    0,0,0,0,0,0,0,0] + 40
     \<le> length [0,0,0,0,0,0,0,0, 0,0,0,0,0,0,0,0, 3,0,0,0,0,0,0,0, 0,32,0,0,0,0,0,0,
                0,0,0,0,0,0,0,0 :: byte]
   \<and> nnodes_per_sector (geometry_at
         [0,0,0,0,0,0,0,0, 0,0,0,0,0,0,0,0, 3,0,0,0,0,0,0,0, 0,32,0,0,0,0,0,0, 0,0,0,0,0,0,0,0]
         0) = 0
   \<and> compute_graph_stats_from_disk_index
         (Some [0,0,0,0,0,0,0,0, 0,0,0,0,0,0,0,0, 3,0,0,0,0,0,0,0, 0,32,0,0,0,0,0,0,
                0,0,0,0,0,0,0,0]) kFloat
       = Inr GraphStats_default"
proof -
  let ?B = "[0,0,0,0,0,0,0,0, 0,0,0,0,0,0,0,0, 3,0,0,0,0,0,0,0, 0,32,0,0,0,0,0,0,
             0,0,0,0,0,0,0,0 :: byte]"
  have o: "geometry_offset ?B = 0" by (simp add: geometry_offset_def tagged_layout_def)
  have g: "geometry_at ?B 0 = \<lparr>disk_nnodes = 0, disk_ndims = 0, medoid_id_on_file = 3,
             max_node_len = 8192, nnodes_per_sector = 0\<rparr>"
    by (simp add: geometry_at_def)
  have h1: "geometry_offset ?B + 40 \<le> length ?B" by (simp add: o)
  have h2: "nnodes_per_sector (geometry_at ?B (geometry_offset ?B)) = 0" by (simp add: o g)
  have r: "geometry_rejected (geometry_at ?B (geometry_offset ?B)) kFloat"
    by (simp add: o g geometry_rejected_def)
  show ?thesis
    using disk_index_no_records_per_page [OF h1 h2, of kFloat] h1 h2 r by (simp add: o)
qed

text \<open>
  Claim C3 as it is worded asks for \<open>total_nodes = 0\<close>. A tagged header with seven
  nodes, records of four bytes and no records per page passes the sanity test, and the
  seven nodes are reported.
\<close>

theorem disk_index_no_records_per_page_nodes:
  "nnodes_per_sector (geometry_at
      [5,0,0,0, 0,0,0,0, 7,0,0,0,0,0,0,0, 0,0,0,0,0,0,0,0, 3,0,0,0,0,0,0,0, 4,0,0,0,0,0,0,0,
       0,0,0,0,0,0,0,0] 8) = 0
   \<and> tagged_layout
      [5,0,0,0, 0,0,0,0, 7,0,0,0,0,0,0,0, 0,0,0,0,0,0,0,0, 3,0,0,0,0,0,0,0, 4,0,0,0,0,0,0,0,
       0,0,0,0,0,0,0,0]
   \<and> compute_graph_stats_from_disk_index
        (Some [5,0,0,0, 0,0,0,0, 7,0,0,0,0,0,0,0, 0,0,0,0,0,0,0,0, 3,0,0,0,0,0,0,0,
               4,0,0,0,0,0,0,0, 0,0,0,0,0,0,0,0]) kFloat
      = Inr \<lparr>total_nodes = 7, active_nodes = 7, frozen_nodes = 0, total_edges = 0,
             degree_min = 0, degree_avg = 0, degree_max = 0, weak_count = 0, entry_point = 3\<rparr>"
  by (simp add: seven_node_index tagged_layout_def geometry_at_def)

section \<open>Results without nodes\<close>

text \<open>
  Claim C2, as the code has it. \<open>compute_graph_stats\<close> with \<open>nd + num_frozen_pts = 0\<close>
  returns, without using the adjacency list, the all-zero statistics except that
  \<open>active_nodes\<close>, \<open>frozen_nodes\<close> and \<open>entry_point\<close> are the arguments \<open>nd\<close>,
  \<open>num_frozen_pts\<close> and \<open>ep\<close>. \<open>compute_graph_stats_from_file\<close> returns the all-zero
  statistics when the file is absent or the header cannot be read at the offset; and
  whenever it returns \<open>total_nodes = 0\<close> on a file shorter than \<open>2^64\<close> bytes, the
  fields \<open>active_nodes\<close>, \<open>total_edges\<close>, \<open>degree_min\<close>, \<open>degree_avg\<close>, \<open>degree_max\<close> and
  \<open>weak_count\<close> are zero. Nothing is said of \<open>entry_point\<close> and \<open>frozen_nodes\<close> there:
  they are the header's.
\<close>

theorem zero_nodes_zero_stats:
  "(nd + num_frozen_pts = 0 \<longrightarrow>
      compute_graph_stats graph nd num_frozen_pts ep weak_threshold =
        Inr (GraphStats_default\<lparr>active_nodes := nd, frozen_nodes := num_frozen_pts,
                                   entry_point := ep\<rparr>))
   \<and> (file = None \<or> (\<exists>bytes. file = Some bytes \<and> (sint offset < 0 \<or> length bytes < unat offset + 24))
        \<longrightarrow> compute_graph_stats_from_file file offset = Some GraphStats_default)
   \<and> (\<forall>bytes s. file = Some bytes \<and> length bytes < 2 ^ 64
          \<and> compute_graph_stats_from_file file offset = Some s \<and> total_nodes s = 0
        \<longrightarrow> active_nodes s = 0 \<and> total_edges s = 0 \<and> degree_min s = 0 \<and> degree_avg s = 0
            \<and> degree_max s = 0 \<and> weak_count s = 0)"
proof (intro conjI impI allI)
  assume "nd + num_frozen_pts = 0"
  then show "compute_graph_stats graph nd num_frozen_pts ep weak_threshold =
        Inr (GraphStats_default\<lparr>active_nodes := nd, frozen_nodes := num_frozen_pts,
                                   entry_point := ep\<rparr>)"
    by (simp add: compute_graph_stats_scan GraphStats_default_def)
next
  assume "file = None \<or> (\<exists>bytes. file = Some bytes \<and> (sint offset < 0 \<or> length bytes < unat offset + 24))"
  then show "compute_graph_stats_from_file file offset = Some GraphStats_default"
    by (rule from_file_unreadable)
next
  fix bytes s
  assume a: "file = Some bytes \<and> length bytes < 2 ^ 64
          \<and> compute_graph_stats_from_file file offset = Some s \<and> total_nodes s = 0"
  from from_file_cases [of "file" offset]
  have "s = GraphStats_default
        \<or> s = GraphStats_default\<lparr>frozen_nodes := header_frozen_count bytes (unat offset),
                                   entry_point := header_entry_point bytes (unat offset)\<rparr>"
  proof
    assume "compute_graph_stats_from_file file offset = Some GraphStats_default"
    with a show ?thesis by simp
  next
    assume "\<exists>bytes. file = Some bytes \<and> 0 \<le> sint offset \<and> unat offset + 24 \<le> length bytes
         \<and> compute_graph_stats_from_file file offset = Some (scanned_stats bytes (unat offset))"
    with a have s: "s = scanned_stats bytes (unat offset)" by auto
    with a have "total_nodes (scanned_stats bytes (unat offset)) = 0" by simp
    with a show ?thesis
      using scanned_stats_no_nodes [of bytes "unat offset"] by (simp add: s)
  qed
  then have z: "active_nodes s = 0 \<and> total_edges s = 0 \<and> degree_min s = 0 \<and> degree_avg s = 0
            \<and> degree_max s = 0 \<and> weak_count s = 0"
    by (auto simp: GraphStats_default_def)
  from z show "active_nodes s = 0" by simp
  from z show "total_edges s = 0" by simp
  from z show "degree_min s = 0" by simp
  from z show "degree_avg s = 0" by simp
  from z show "degree_max s = 0" by simp
  from z show "weak_count s = 0" by simp
qed

theorem zero_nodes_zero_stats_witness:
  "compute_graph_stats [] 0 0 7 2 = Inr (GraphStats_default\<lparr>entry_point := 7\<rparr>)
   \<and> compute_graph_stats_from_file None 0 = Some GraphStats_default
   \<and> (\<exists>s. compute_graph_stats_from_file
              (Some [24,0,0,0,0,0,0,0, 0,0,0,0, 5,0,0,0, 2,0,0,0,0,0,0,0]) 0 = Some s
          \<and> total_nodes s = 0 \<and> active_nodes s = 0 \<and> total_edges s = 0 \<and> degree_min s = 0
          \<and> degree_avg s = 0 \<and> degree_max s = 0 \<and> weak_count s = 0)"
proof -
  let ?H = "[24,0,0,0,0,0,0,0, 0,0,0,0, 5,0,0,0, 2,0,0,0,0,0,0,0 :: byte]"
  let ?s = "\<lparr>total_nodes = 0, active_nodes = 0, frozen_nodes = 2, total_edges = 0,
           degree_min = 0, degree_avg = 0, degree_max = 0, weak_count = 0, entry_point = 5\<rparr>"
  have a: "compute_graph_stats [] 0 0 7 2 = Inr (GraphStats_default\<lparr>entry_point := 7\<rparr>)"
    using zero_nodes_zero_stats [of 0 0 "[]" 7 2 None 0]
    by (simp add: GraphStats_default_def)
  have b: "compute_graph_stats_from_file None 0 = Some GraphStats_default"
    using zero_nodes_zero_stats [of 0 0 "[]" 7 2 None 0] by simp
  have h: "Some ?H = Some ?H \<and> length ?H < 2 ^ 64
           \<and> compute_graph_stats_from_file (Some ?H) 0 = Some ?s \<and> total_nodes ?s = 0"
    by (simp add: header_only_file)
  have c: "active_nodes ?s = 0 \<and> total_edges ?s = 0 \<and> degree_min ?s = 0 \<and> degree_avg ?s = 0
            \<and> degree_max ?s = 0 \<and> weak_count ?s = 0"
    using zero_nodes_zero_stats [of 0 0 "[]" 7 2 "Some ?H" 0, THEN conjunct2, THEN conjunct2,
        rule_format, OF h] .
  show ?thesis
    using a b c header_only_file by simp
qed

text \<open>
  Claim C2 as it is worded asks for a zero entry point. The empty graph with entry
  point 7, and a file that is just a header with entry point 5 and two frozen nodes,
  give \<open>total_nodes = 0\<close> and keep these values.
\<close>

theorem zero_nodes_nonzero_entry_point:
  "compute_graph_stats [] 0 0 7 2
     = Inr \<lparr>total_nodes = 0, active_nodes = 0, frozen_nodes = 0, total_edges = 0,
            degree_min = 0, degree_avg = 0, degree_max = 0, weak_count = 0, entry_point = 7\<rparr>
   \<and> compute_graph_stats_from_file
       (Some [24,0,0,0,0,0,0,0, 0,0,0,0, 5,0,0,0, 2,0,0,0,0,0,0,0]) 0
     = Some \<lparr>total_nodes = 0, active_nodes = 0, frozen_nodes = 2, total_edges = 0,
             degree_min = 0, degree_avg = 0, degree_max = 0, weak_count = 0, entry_point = 5\<rparr>"
  by (simp add: header_only_file compute_graph_stats_scan GraphStats_default_def)

section \<open>Active, frozen and total nodes\<close>

text \<open>
  Claim C4, as the code has it. The statistics of \<open>compute_graph_stats\<close> and of
  \<open>compute_graph_stats_from_disk_index\<close> always satisfy
  \<open>active_nodes + frozen_nodes = total_nodes\<close> (in 64-bit arithmetic). Those of
  \<open>compute_graph_stats_from_file\<close> satisfy it when at least as many nodes were scanned
  as the header counts frozen; when fewer were scanned, \<open>active_nodes\<close> is 0 and
  \<open>frozen_nodes\<close> is still the header's count.
\<close>

theorem node_counts_add_up:
  "(compute_graph_stats graph nd num_frozen_pts ep weak_threshold = Inr s
      \<longrightarrow> active_nodes s + frozen_nodes s = total_nodes s)
   \<and> (compute_graph_stats_from_disk_index file data_type = Inr s
      \<longrightarrow> active_nodes s + frozen_nodes s = total_nodes s)
   \<and> (compute_graph_stats_from_file file offset = Some s
      \<longrightarrow> (if frozen_nodes s \<le> total_nodes s
           then active_nodes s + frozen_nodes s = total_nodes s
           else active_nodes s = 0))"
proof (intro conjI impI)
  assume "compute_graph_stats graph nd num_frozen_pts ep weak_threshold = Inr s"
  then show "active_nodes s + frozen_nodes s = total_nodes s"
    by (auto simp: compute_graph_stats_scan Let_def GraphStats_default_def
          split: if_splits sum.splits prod.splits)
next
  assume "compute_graph_stats_from_disk_index file data_type = Inr s"
  then show "active_nodes s + frozen_nodes s = total_nodes s"
    using disk_index_counts by simp
next
  assume a: "compute_graph_stats_from_file file offset = Some s"
  from from_file_cases [of "file" offset]
  show "if frozen_nodes s \<le> total_nodes s
           then active_nodes s + frozen_nodes s = total_nodes s
           else active_nodes s = 0"
  proof
    assume "compute_graph_stats_from_file file offset = Some GraphStats_default"
    with a show ?thesis by (auto simp: GraphStats_default_def)
  next
    assume "\<exists>bytes. file = Some bytes \<and> 0 \<le> sint offset \<and> unat offset + 24 \<le> length bytes
         \<and> compute_graph_stats_from_file file offset = Some (scanned_stats bytes (unat offset))"
    with a obtain bytes where "s = scanned_stats bytes (unat offset)" by auto
    then show ?thesis
      by (simp add: scanned_stats_def stats_of_degrees_def Let_def)
  qed
qed

theorem node_counts_add_up_witness:
  "compute_graph_stats [[1], [0]] 1 1 5 2
     = Inr \<lparr>total_nodes = 2, active_nodes = 1, frozen_nodes = 1, total_edges = 2,
            degree_min = 1, degree_avg = 1, degree_max = 1, weak_count = 2, entry_point = 5\<rparr>
   \<and> (1 :: u64) + 1 = 2
   \<and> compute_graph_stats_from_disk_index
        (Some [5,0,0,0, 0,0,0,0, 7,0,0,0,0,0,0,0, 0,0,0,0,0,0,0,0, 3,0,0,0,0,0,0,0,
               4,0,0,0,0,0,0,0, 0,0,0,0,0,0,0,0]) kFloat
      = Inr \<lparr>total_nodes = 7, active_nodes = 7, frozen_nodes = 0, total_edges = 0,
             degree_min = 0, degree_avg = 0, degree_max = 0, weak_count = 0, entry_point = 3\<rparr>
   \<and> (7 :: u64) + 0 = 7
   \<and> compute_graph_stats_from_file
       (Some [40,0,0,0,0,0,0,0, 0,0,0,0, 2,0,0,0, 1,0,0,0,0,0,0,0,
              1,0,0,0, 1,0,0,0, 0,0,0,0, 0,0,0,0]) 0
     = Some \<lparr>total_nodes = 3, active_nodes = 2, frozen_nodes = 1, total_edges = 1,
             degree_min = 0, degree_avg = 6004799503160661 / 18014398509481984, degree_max = 1, weak_count = 3, entry_point = 2\<rparr>
   \<and> (2 :: u64) + 1 = 3"
proof -
  let ?s1 = "\<lparr>total_nodes = 2, active_nodes = 1, frozen_nodes = 1, total_edges = 2,
            degree_min = 1, degree_avg = 1, degree_max = 1, weak_count = 2, entry_point = 5\<rparr>"
  let ?s2 = "\<lparr>total_nodes = 7, active_nodes = 7, frozen_nodes = 0, total_edges = 0,
             degree_min = 0, degree_avg = 0, degree_max = 0, weak_count = 0, entry_point = 3\<rparr>"
  let ?s3 = "\<lparr>total_nodes = 3, active_nodes = 2, frozen_nodes = 1, total_edges = 1,
             degree_min = 0, degree_avg = 6004799503160661 / 18014398509481984, degree_max = 1, weak_count = 3, entry_point = 2\<rparr>"
  have a: "active_nodes ?s1 + frozen_nodes ?s1 = total_nodes ?s1"
    using node_counts_add_up [of "[[1], [0]]" 1 1 5 2 ?s1, THEN conjunct1, rule_format,
        OF two_node_graph] .
  have b: "active_nodes ?s2 + frozen_nodes ?s2 = total_nodes ?s2"
    using node_counts_add_up [of _ _ _ _ _ ?s2, THEN conjunct2, THEN conjunct1, rule_format,
        OF seven_node_index] .
  have c: "if frozen_nodes ?s3 \<le> total_nodes ?s3
           then active_nodes ?s3 + frozen_nodes ?s3 = total_nodes ?s3
           else active_nodes ?s3 = 0"
    using node_counts_add_up [of _ _ _ _ _ ?s3, THEN conjunct2, THEN conjunct2, rule_format,
        OF three_records_one_frozen] .
  show ?thesis
    using a b c two_node_graph seven_node_index three_records_one_frozen by simp
qed

text \<open>
  Claim C4 as it is worded covers files cut short of the frozen count. A header with
  three frozen nodes followed by a single record gives one node in total, none active
  and three frozen.
\<close>

theorem node_counts_frozen_beyond_total:
  "compute_graph_stats_from_file
     (Some [28,0,0,0,0,0,0,0, 0,0,0,0, 0,0,0,0, 3,0,0,0,0,0,0,0, 0,0,0,0]) 0
   = Some \<lparr>total_nodes = 1, active_nodes = 0, frozen_nodes = 3, total_edges = 0,
           degree_min = 0, degree_avg = 0, degree_max = 0, weak_count = 1, entry_point = 0\<rparr>
   \<and> (0 :: u64) + 3 \<noteq> 1"
  by (simp add: one_record_three_frozen)

section \<open>The paged reader\<close>

text \<open>
  Claim C5, as the code has it. Let the header of a layout-C file resolve to a geometry
  with \<open>records_per_page \<ge> 1\<close>, \<open>n_dims * element_size + 4 \<le> max_record_len \<le> 4096\<close>,
  and let in addition the degree field of every slot of a page lie within the page:
  \<open>(records_per_page - 1) * max_record_len + n_dims * element_size + 4 \<le> 4096\<close>. Let the
  file, of fewer than \<open>2^64\<close> bytes, hold the header page and
  \<open>ceil(n_nodes / records_per_page)\<close> body pages. Then the reader reads exactly that many
  pages of 4096 bytes from offset 4096 on, adds the degree field of the node ids
  \<open>0, \<dots>, n_nodes - 1\<close> in this order, each once, and returns the statistics of these
  degree fields.
\<close>

theorem paged_reader_visits_every_node:
  fixes bytes :: "byte list" and data_type :: DiskIndexDataType
  defines "h \<equiv> geometry_at bytes (geometry_offset bytes)"
  defines "esz \<equiv> elem_size data_type"
  defines "n \<equiv> unat (disk_nnodes h)"
  defines "nps \<equiv> unat (nnodes_per_sector h)"
  assumes hdr: "geometry_offset bytes + 40 \<le> length bytes"
    and nps1: "1 \<le> nps"
    and geo1: "unat (disk_ndims h) * unat esz + 4 \<le> unat (max_node_len h)"
    and geo2: "unat (max_node_len h) \<le> 4096"
    and fit: "(nps - 1) * unat (max_node_len h) + unat (disk_ndims h) * unat esz + 4 \<le> 4096"
    and readable: "4096 + 4096 * ((n + nps - 1) div nps) \<le> length bytes"
    and size: "length bytes < 2 ^ 64"
  shows "disk_index_scan (Some bytes) data_type =
           Inr (stats_of_degrees (map (degree_at bytes h esz) [0 ..< n])
                  (disk_nnodes h) (disk_nnodes h) 0 (ucast (medoid_id_on_file h)),
                map of_nat [0 ..< n],
                (n + nps - 1) div nps)"
proof -
  define mnl where "mnl = unat (max_node_len h)"
  define dd where "dd = unat (disk_ndims h) * unat esz"
  define S where "S = (n + nps - 1) div nps"
  have mnl4: "4 \<le> mnl" using geo1 by (simp add: mnl_def)
  have "(nps - 1) * 4 \<le> (nps - 1) * mnl" using mnl4 by (intro mult_le_mono2)
  also have "\<dots> \<le> 4092" using fit by (simp add: mnl_def)
  finally have nps_le: "nps \<le> 1024" by simp
  have "4096 * S < 2 ^ 64" using readable size by (simp add: S_def)
  then have S_lt: "S < 2 ^ 52" by simp
  have "n \<le> S * nps" using ceil_div_covers [OF nps1, of n] by (simp add: S_def)
  also have "\<dots> \<le> 2 ^ 52 * 1024" using S_lt nps_le by (intro mult_mono) simp_all
  finally have n_le: "n \<le> 2 ^ 62" by simp
  have sum: "unat (disk_nnodes h) + unat (nnodes_per_sector h) < 2 ^ 64"
    using n_le nps_le by (simp add: n_def nps_def)
  have Sw: "unat ((disk_nnodes h + nnodes_per_sector h - 1) div nnodes_per_sector h) = (n + nps - 1) div nps"
    using ceil_sectors_word [OF _ sum] nps1 by (simp add: n_def nps_def)
  have ddw: "unat (disk_ndims h * esz + 4) = dd + 4"
  proof -
    have "dd + 4 \<le> 4096" using geo1 geo2 by (simp add: dd_def)
    then have "unat (disk_ndims h) * unat esz + unat (4 :: u64) < 2 ^ 64" by (simp add: dd_def)
    then show ?thesis using unat_mult_add_u64 [of "disk_ndims h" esz 4] by (simp add: dd_def)
  qed
  have ok: "\<not> geometry_rejected h data_type"
    using geo1 geo2 ddw
    by (simp add: geometry_rejected_def word_less_nat_alt dd_def esz_def)
  have nz: "nnodes_per_sector h \<noteq> 0" using nps1 by (auto simp: nps_def)
  have "\<exists>ins'. page_loop h esz ((disk_nnodes h + nnodes_per_sector h - 1) div nnodes_per_sector h) 0
                  (\<lparr>content = bytes, pos = 4096 + 4096 * unat (0 :: u64), good = True\<rparr>, accum_init, [], 0) =
           Inr (ins',
                fold (accum_add 2) (map (\<lambda>i. ucast (degree_at bytes h esz i))
                  [unat (0 :: u64) * unat (nnodes_per_sector h) ..< unat (disk_nnodes h)]) accum_init,
                [] @ map of_nat [unat (0 :: u64) * unat (nnodes_per_sector h) ..< unat (disk_nnodes h)],
                0 + (unat ((disk_nnodes h + nnodes_per_sector h - 1) div nnodes_per_sector h) - unat (0 :: u64)))"
  proof (rule page_loop_pages)
    show "1 \<le> unat (nnodes_per_sector h)" using nps1 by (simp add: nps_def)
    show "(unat (nnodes_per_sector h) - 1) * unat (max_node_len h) + unat (disk_ndims h) * unat esz + 4 \<le> 4096"
      using fit by (simp add: nps_def)
    show "unat ((disk_nnodes h + nnodes_per_sector h - 1) div nnodes_per_sector h) =
            (unat (disk_nnodes h) + unat (nnodes_per_sector h) - 1) div unat (nnodes_per_sector h)"
      using Sw by (simp add: n_def nps_def)
    show "unat (disk_nnodes h) + unat (nnodes_per_sector h) - 1 < 2 ^ 64"
      using sum by simp
    show "4096 + 4096 * unat ((disk_nnodes h + nnodes_per_sector h - 1) div nnodes_per_sector h)
            \<le> length bytes"
      using readable by (simp add: Sw)
    show "unat (0 :: u64) \<le> unat ((disk_nnodes h + nnodes_per_sector h - 1) div nnodes_per_sector h)"
      by simp
  qed
  then obtain ins' where pl0:
    "page_loop h (elem_size data_type)
        ((disk_nnodes h + nnodes_per_sector h - 1) div nnodes_per_sector h) 0
        (\<lparr>content = bytes, pos = 4096, good = True\<rparr>, accum_init, [], 0) =
      Inr (ins',
           fold (accum_add 2) (map ucast (map (degree_at bytes h esz) [0 ..< n])) accum_init,
           map of_nat [0 ..< n], (n + nps - 1) div nps)"
    by (auto simp: Sw n_def esz_def comp_def)
  define ds where "ds = map (degree_at bytes h esz) [0 ..< n]"
  define a where "a = fold (accum_add 2) (map ucast ds) accum_init"
  have pl: "page_loop h (elem_size data_type)
        ((disk_nnodes h + nnodes_per_sector h - 1) div nnodes_per_sector h) 0
        (\<lparr>content = bytes, pos = 4096, good = True\<rparr>, accum_init, [], 0) =
      Inr (ins', a, map of_nat [0 ..< n], (n + nps - 1) div nps)"
    using pl0 by (simp only: a_def ds_def)
  have af: "acc_total_edges a = sum_list (map ucast ds)"
    "final_degree_min a = (if ds = [] then 0 else ucast (Min (set ds)))"
    "acc_degree_max a = (if ds = [] then 0 else ucast (Max (set ds)))"
    "acc_weak_count a = of_nat (length (filter (\<lambda>d. d < 2) ds))"
    unfolding a_def by (rule accum_fold_u32)+
  have "disk_index_scan (Some bytes) data_type =
           Inr (stats_of_degrees ds
                  (disk_nnodes h) (disk_nnodes h) 0 (ucast (medoid_id_on_file h)),
                map of_nat [0 ..< n],
                (n + nps - 1) div nps)"
    using hdr ok nz
    by (simp add: disk_index_scan_readable pl af stats_of_degrees_def
          GraphStats_default_def flip: h_def)
  then show ?thesis by (simp only: ds_def)
qed

text \<open>Ten nodes, three per page: four pages, the last with one node.\<close>

theorem paged_reader_visits_every_node_witness:
  "disk_index_scan (Some ten_node_index) kUint8 =
     Inr (\<lparr>total_nodes = 10, active_nodes = 10, frozen_nodes = 0, total_edges = 19,
            degree_min = 1, degree_avg = 4278419646001971 / 2251799813685248, degree_max = 3, weak_count = 4,
            entry_point = 4\<rparr>,
          [0, 1, 2, 3, 4, 5, 6, 7, 8, 9], 4)"
proof -
  let ?h = "geometry_at ten_node_index (geometry_offset ten_node_index)"
  have h: "?h = \<lparr>disk_nnodes = 10, disk_ndims = 1, medoid_id_on_file = 4, max_node_len = 12,
      nnodes_per_sector = 3\<rparr>"
    by (simp add: ten_node_index_geometry)
  have 1: "geometry_offset ten_node_index + 40 \<le> length ten_node_index"
    by (simp add: ten_node_index_geometry)
  have 2: "1 \<le> unat (nnodes_per_sector ?h)" by (simp add: h)
  have 3: "unat (disk_ndims ?h) * unat (elem_size kUint8) + 4 \<le> unat (max_node_len ?h)"
    by (simp add: h)
  have 4: "unat (max_node_len ?h) \<le> 4096" by (simp add: h)
  have 5: "(unat (nnodes_per_sector ?h) - 1) * unat (max_node_len ?h)
             + unat (disk_ndims ?h) * unat (elem_size kUint8) + 4 \<le> 4096"
    by (simp add: h)
  have 6: "4096 + 4096 * ((unat (disk_nnodes ?h) + unat (nnodes_per_sector ?h) - 1)
             div unat (nnodes_per_sector ?h)) \<le> length ten_node_index"
    by (simp add: h ten_node_index_geometry)
  have 7: "length ten_node_index < 2 ^ 64" by (simp add: ten_node_index_geometry)
  have ids: "map of_nat [0 ..< 10] = [0, 1, 2, 3, 4, 5, 6, 7, 8, 9 :: u64]"
    by (simp add: upt_rec)
  have "disk_index_scan (Some ten_node_index) kUint8 =
          Inr (stats_of_degrees [1, 2, 3, 1, 2, 3, 1, 2, 3, 1] 10 10 0 4,
               [0, 1, 2, 3, 4, 5, 6, 7, 8, 9], 4)"
    using paged_reader_visits_every_node [OF 1 2 3 4 5 6 7] ten_node_index_degrees ids
    by (simp add: h)
  then show ?thesis
    by (simp add: stats_of_degrees_def double_eval word_less_nat_alt)
qed

text \<open>
  Claim C5 as it is worded has no condition on the slots. With two records of 4096
  bytes per page the second slot starts at the end of the page: the geometry passes the
  sanity test, the one body page is read, and node 1 is skipped.
\<close>

theorem paged_reader_skips_slot_beyond_page:
  "1 \<le> unat (nnodes_per_sector (geometry_at wide_record_index (geometry_offset wide_record_index)))
   \<and> unat (disk_ndims (geometry_at wide_record_index (geometry_offset wide_record_index)))
         * unat (elem_size kUint8) + 4
       \<le> unat (max_node_len (geometry_at wide_record_index (geometry_offset wide_record_index)))
   \<and> unat (max_node_len (geometry_at wide_record_index (geometry_offset wide_record_index))) \<le> 4096
   \<and> unat (disk_nnodes (geometry_at wide_record_index (geometry_offset wide_record_index))) = 2
   \<and> 4096 + 4096 * 1 \<le> length wide_record_index
   \<and> disk_index_scan (Some wide_record_index) kUint8 =
       Inr (\<lparr>total_nodes = 2, active_nodes = 2, frozen_nodes = 0, total_edges = 5,
              degree_min = 5, degree_avg = 5 / 2, degree_max = 5, weak_count = 0,
              entry_point = 0\<rparr>, [0], 1)"
  by (simp add: wide_record_index_scan wide_record_index_geometry)

section \<open>The small-graph sample\<close>



end
